(* ===== verification/Prelude.thy ===== *)
theory Prelude
  imports
    Main
    "HOL-Library.Word"
    "HOL-Library.AList"
    "HOL-Library.Multiset"
    "HOL-Library.List_Lexorder"
    "HOL-Library.Product_Lexorder"
begin

text \<open>
  Shared vocabulary of the development: the machine types of the Rust sources, the two ways
  a Rust function can fail to return a plain value (a \<open>Result\<close> that carries an error,
  and a panic), and the few operations of the Rust standard library that the
  modelled code uses on vectors and integers, each with the lemmas the component theories need.
\<close>

unbundle bit_operations_syntax

section \<open>Collections of facts\<close>

named_theorems exec_simps \<open>evaluation of the panic monad\<close>
named_theorems vec_simps \<open>vector operations of the Rust standard library\<close>

section \<open>Machine types\<close>

type_synonym byte = "8 word"
type_synonym bytes = "byte list"
type_synonym u16 = "16 word"
type_synonym u32 = "32 word"
type_synonym u64 = "64 word"

text \<open>A byte-string literal \<open>b"..."\<close> of the source.\<close>

definition str_bytes :: "string \<Rightarrow> bytes" where
  "str_bytes s = map of_char s"

lemma length_str_bytes [simp]: "length (str_bytes s) = length s"
  by (simp add: str_bytes_def)

section \<open>Results and panics\<close>

datatype ('a, 'e) result = Ok 'a | Err 'e

primrec is_ok :: "('a, 'e) result \<Rightarrow> bool" where
  "is_ok (Ok _) = True"
| "is_ok (Err _) = False"

primrec map_err :: "('e \<Rightarrow> 'f) \<Rightarrow> ('a, 'e) result \<Rightarrow> ('a, 'f) result" where
  "map_err f (Ok x) = Ok x"
| "map_err f (Err e) = Err (f e)"

text \<open>
  A Rust computation that may panic (an \<open>unwrap\<close> or \<open>expect\<close> on the wrong
  variant, a failed \<open>assert!\<close>, an index out of range) either finishes with a value or
  aborts; an abort carries no state, since the runtime discards everything it did.
\<close>

datatype 'a exec = Done 'a | Panic

primrec bind_exec :: "'a exec \<Rightarrow> ('a \<Rightarrow> 'b exec) \<Rightarrow> 'b exec" where
  "bind_exec (Done x) f = f x"
| "bind_exec Panic f = Panic"

definition expect :: "'a option \<Rightarrow> 'a exec" where
  "expect x = (case x of Some v \<Rightarrow> Done v | None \<Rightarrow> Panic)"

definition expect_ok :: "('a, 'e) result \<Rightarrow> 'a exec" where
  "expect_ok r = (case r of Ok v \<Rightarrow> Done v | Err _ \<Rightarrow> Panic)"

lemma expect_simps [simp, exec_simps]:
  "expect (Some v) = Done v" "expect None = Panic"
  by (simp_all add: expect_def)

lemma expect_ok_simps [simp, exec_simps]:
  "expect_ok (Ok v) = Done v" "expect_ok (Err e) = Panic"
  by (simp_all add: expect_ok_def)

lemma bind_exec_Done_iff [simp]:
  "bind_exec m f = Done y \<longleftrightarrow> (\<exists>x. m = Done x \<and> f x = Done y)"
  by (cases m) auto

lemma bind_exec_Panic_iff:
  "bind_exec m f = Panic \<longleftrightarrow> m = Panic \<or> (\<exists>x. m = Done x \<and> f x = Panic)"
  by (cases m) auto

lemma is_ok_iff: "is_ok r \<longleftrightarrow> (\<exists>v. r = Ok v)"
  by (cases r) auto

section \<open>Vectors\<close>

text \<open>\<open>Iterator::position\<close>: the index of the first element that satisfies a predicate.\<close>

primrec position :: "('a \<Rightarrow> bool) \<Rightarrow> 'a list \<Rightarrow> nat option" where
  "position P [] = None"
| "position P (x # xs) = (if P x then Some 0 else map_option Suc (position P xs))"

lemma position_None_iff [vec_simps]: "position P xs = None \<longleftrightarrow> (\<forall>x\<in>set xs. \<not> P x)"
  by (induction xs) auto

lemma position_SomeD:
  "position P xs = Some i \<Longrightarrow> i < length xs \<and> P (xs ! i) \<and> (\<forall>j<i. \<not> P (xs ! j))"
proof (induction xs arbitrary: i)
  case (Cons x xs)
  then show ?case
    by (cases i) (auto split: if_splits simp: less_Suc_eq_0_disj)
qed simp

text \<open>\<open>Vec::swap_remove\<close>: the removed element is replaced by the last one; panics out of range.\<close>

definition swap_remove :: "nat \<Rightarrow> 'a list \<Rightarrow> ('a \<times> 'a list) exec" where
  "swap_remove i xs =
     (if i < length xs then Done (xs ! i, butlast (xs[i := last xs])) else Panic)"

lemma swap_remove_in_range [vec_simps]:
  "i < length xs \<Longrightarrow> swap_remove i xs = Done (xs ! i, butlast (xs[i := last xs]))"
  by (simp add: swap_remove_def)

lemma mset_butlast_update_last:
  assumes "i < length xs"
  shows "add_mset (xs ! i) (mset (butlast (xs[i := last xs]))) = mset xs"
proof -
  from assms obtain ys z where xs: "xs = ys @ [z]"
    by (cases xs rule: rev_cases) auto
  show ?thesis
  proof (cases "i < length ys")
    case True
    then have "add_mset (ys ! i) (mset (ys[i := z])) = add_mset z (mset ys)"
      by (simp add: mset_update)
    with True xs show ?thesis by (simp add: list_update_append nth_append)
  next
    case False
    with assms xs have "i = length ys" by simp
    with xs show ?thesis by simp
  qed
qed

lemma swap_remove_mset:
  "swap_remove i xs = Done (x, ys) \<Longrightarrow> mset xs = add_mset x (mset ys)"
  by (auto simp: swap_remove_def mset_butlast_update_last split: if_splits)

lemma swap_remove_set:
  "swap_remove i xs = Done (x, ys) \<Longrightarrow> set xs = insert x (set ys)"
  by (metis set_mset_add_mset_insert set_mset_mset swap_remove_mset)

section \<open>Association lists\<close>

lemma in_set_alist_update:
  "c \<in> set (AList.update k v xs) \<Longrightarrow> c = (k, v) \<or> c \<in> set xs"
  by (induction xs) (auto split: if_splits)

section \<open>Fixed-width arithmetic\<close>

definition saturating_add :: "'a::len word \<Rightarrow> 'a word \<Rightarrow> 'a word" where
  "saturating_add a b = (if unat a + unat b < 2 ^ LENGTH('a) then a + b else - 1)"

definition saturating_sub :: "'a::len word \<Rightarrow> 'a word \<Rightarrow> 'a word" where
  "saturating_sub a b = (if b \<le> a then a - b else 0)"

definition checked_add :: "'a::len word \<Rightarrow> 'a word \<Rightarrow> 'a word option" where
  "checked_add a b = (if unat a + unat b < 2 ^ LENGTH('a) then Some (a + b) else None)"

lemma unat_add_no_overflow:
  fixes a b :: "'a::len word"
  shows "unat a + unat b < 2 ^ LENGTH('a) \<Longrightarrow> unat (a + b) = unat a + unat b"
  by (simp add: unat_word_ariths)

lemma unat_saturating_add:
  fixes a b :: "'a::len word"
  shows "unat (saturating_add a b) = min (unat a + unat b) (2 ^ LENGTH('a) - 1)"
  by (auto simp: saturating_add_def unat_add_no_overflow unsigned_minus_1_eq_mask mask_eq_exp_minus_1)

lemma saturating_add_ge:
  fixes a b :: "'a::len word"
  shows "a \<le> saturating_add a b"
proof -
  have "unat a < 2 ^ LENGTH('a)" by (rule unsigned_less)
  then have "unat a \<le> 2 ^ LENGTH('a) - 1" by linarith
  then show ?thesis by (simp add: word_le_nat_alt unat_saturating_add)
qed

lemma unat_saturating_sub: "unat (saturating_sub a b) = unat a - unat b"
  by (auto simp: saturating_sub_def unat_sub word_le_nat_alt)

lemma checked_add_SomeD:
  "checked_add a b = Some c \<Longrightarrow> unat c = unat a + unat b"
  by (auto simp: checked_add_def unat_add_no_overflow split: if_splits)

section \<open>Codecs\<close>

text \<open>
  The SCALE codec (\<open>parity-scale-codec\<close>) and the JSON serialiser are external crates.  The model
  takes what the code uses of them as a pair of functions; the one documented law the theorems rely on
  is that decoding an encoding gives the value back.
\<close>

record 'a codec =
  encode :: "'a \<Rightarrow> bytes"
  decode :: "bytes \<Rightarrow> 'a option"

definition codec_ok :: "'a codec \<Rightarrow> bool" where
  "codec_ok c \<longleftrightarrow> (\<forall>x. decode c (encode c x) = Some x)"

lemma codec_okD [simp]: "codec_ok c \<Longrightarrow> decode c (encode c x) = Some x"
  by (simp add: codec_ok_def)

text \<open>The SCALE encoding of a \<open>u32\<close>: four bytes, least significant first.\<close>

definition le_bytes32 :: "u32 \<Rightarrow> bytes" where
  "le_bytes32 x = [ucast x, ucast (drop_bit 8 x), ucast (drop_bit 16 x), ucast (drop_bit 24 x)]"

definition le_word32 :: "bytes \<Rightarrow> u32 option" where
  "le_word32 bs = (if length bs < 4 then None else
     Some (ucast (bs ! 0) OR push_bit 8 (ucast (bs ! 1)) OR push_bit 16 (ucast (bs ! 2)) OR push_bit 24 (ucast (bs ! 3))))"

definition scale_u32 :: "u32 codec" where
  "scale_u32 = \<lparr>encode = le_bytes32, decode = le_word32\<rparr>"

lemma le_word32_le_bytes32: "le_word32 (le_bytes32 x) = Some x"
proof -
  have "(ucast (ucast x :: byte) OR push_bit 8 (ucast (ucast (drop_bit 8 x) :: byte)) OR
      push_bit 16 (ucast (ucast (drop_bit 16 x) :: byte)) OR
      push_bit 24 (ucast (ucast (drop_bit 24 x) :: byte)) :: u32) = x" (is "?w = x")
  proof (rule bit_eqI)
    fix n :: nat
    assume "possible_bit TYPE(u32) n"
    then have "n < 8 \<or> 8 \<le> n \<and> n - 8 < 8 \<or> 16 \<le> n \<and> n - 16 < 8 \<or> 24 \<le> n \<and> n - 24 < 8" "n < 32"
      by (simp_all, linarith)
    then show "bit ?w n = bit x n"
      by (auto simp: bit_simps)
  qed
  then show ?thesis by (simp add: le_word32_def le_bytes32_def)
qed

lemma scale_u32_ok: "codec_ok scale_u32"
  by (simp add: codec_ok_def scale_u32_def le_word32_le_bytes32)

definition le_bytes64 :: "u64 \<Rightarrow> bytes" where
  "le_bytes64 x = le_bytes32 (ucast x) @ le_bytes32 (ucast (drop_bit 32 x))"

definition le_word64 :: "bytes \<Rightarrow> u64 option" where
  "le_word64 bs =
     (case (le_word32 (take 4 bs), le_word32 (drop 4 bs)) of
        (Some lo, Some hi) \<Rightarrow> Some (ucast lo OR push_bit 32 (ucast hi))
      | _ \<Rightarrow> None)"

definition scale_u64 :: "u64 codec" where
  "scale_u64 = \<lparr>encode = le_bytes64, decode = le_word64\<rparr>"

lemma scale_u64_ok: "codec_ok scale_u64"
proof -
  have "(ucast (ucast x :: u32) OR push_bit 32 (ucast (ucast (drop_bit 32 x) :: u32)) :: u64) = x" for x
    by (rule bit_eqI) (auto simp: bit_simps)
  moreover have "length (le_bytes32 x) = 4" for x
    by (simp add: le_bytes32_def)
  ultimately show ?thesis
    by (simp add: codec_ok_def scale_u64_def le_word64_def le_bytes64_def le_word32_le_bytes32)
qed

end
