(* ===== verification/Changeset.thy ===== *)
theory Changeset
  imports Prelude
begin

text \<open>
  The nested-transaction change set of \<open>primitives/state-machine/src/overlayed_changes/changeset.rs\<close>:
  every key keeps one version per transaction that wrote it, and a stack of dirty-key sets says
  which keys each open transaction wrote.  The abstract view is a stack of snapshots, one per
  open transaction and one for the committed state; starting a transaction duplicates the top
  snapshot, rolling back drops it, committing drops the one below it.

  A \<open>BTreeMap\<close> is an association list with distinct keys, a \<open>HashSet\<close> a list without
  duplicates; what the code observes of them (lookup, membership, sorted iteration) is
  what the definitions use.
\<close>

section \<open>Data\<close>

datatype no_open_transaction = NoOpenTransaction
datatype already_in_runtime = AlreadyInRuntime
datatype not_in_runtime = NotInRuntime
datatype execution_mode = Client | Runtime

record 'v inner_value =
  iv_value :: 'v
  iv_extrinsics :: "u32 list"

record 'v overlayed_entry =
  transactions :: "'v inner_value list"

record ('k, 'v) overlayed_map =
  changes :: "('k \<times> 'v overlayed_entry) list"
  dirty_keys :: "'k list list"
  num_client_transactions :: nat
  execution_mode :: execution_mode

section \<open>Extrinsic indices\<close>

definition extrinsics_insert :: "u32 \<Rightarrow> u32 list \<Rightarrow> u32 list" where
  "extrinsics_insert ext self = (if self \<noteq> [] \<and> last self = ext then self else self @ [ext])"

definition extrinsics_extend :: "u32 list \<Rightarrow> u32 list \<Rightarrow> u32 list" where
  "extrinsics_extend self other = self @ other"

section \<open>One key: the versions of a value\<close>

definition default_entry :: "'v overlayed_entry" where
  "default_entry = \<lparr>transactions = []\<rparr>"

definition value_ref :: "'v overlayed_entry \<Rightarrow> 'v exec" where
  "value_ref e = (if transactions e = [] then Panic else Done (iv_value (last (transactions e))))"

definition into_value :: "'v overlayed_entry \<Rightarrow> 'v exec" where
  "into_value e = (if transactions e = [] then Panic else Done (iv_value (last (transactions e))))"

definition entry_extrinsics :: "'v overlayed_entry \<Rightarrow> u32 set" where
  "entry_extrinsics e = (\<Union>t \<in> set (transactions e). set (iv_extrinsics t))"

definition set_value_mut :: "'v \<Rightarrow> 'v overlayed_entry \<Rightarrow> 'v overlayed_entry exec" where
  "set_value_mut v e =
     (if transactions e = [] then Panic
      else Done (e\<lparr>transactions := butlast (transactions e) @ [(last (transactions e))\<lparr>iv_value := v\<rparr>]\<rparr>))"

definition update_transaction_extrinsics ::
  "(u32 list \<Rightarrow> u32 list) \<Rightarrow> 'v overlayed_entry \<Rightarrow> 'v overlayed_entry exec" where
  "update_transaction_extrinsics f e =
     (if transactions e = [] then Panic
      else Done (e\<lparr>transactions := butlast (transactions e) @
        [(last (transactions e))\<lparr>iv_extrinsics := f (iv_extrinsics (last (transactions e)))\<rparr>]\<rparr>))"

definition pop_transaction :: "'v overlayed_entry \<Rightarrow> ('v inner_value \<times> 'v overlayed_entry) exec" where
  "pop_transaction e =
     (if transactions e = [] then Panic
      else Done (last (transactions e), e\<lparr>transactions := butlast (transactions e)\<rparr>))"

definition entry_set ::
  "'v \<Rightarrow> bool \<Rightarrow> u32 option \<Rightarrow> 'v overlayed_entry \<Rightarrow> 'v overlayed_entry exec" where
  "entry_set v first_write_in_tx at_extrinsic e =
     bind_exec
       (if first_write_in_tx \<or> transactions e = []
        then Done (e\<lparr>transactions := transactions e @ [\<lparr>iv_value = v, iv_extrinsics = []\<rparr>]\<rparr>)
        else set_value_mut v e)
       (\<lambda>e. case at_extrinsic of
          Some extrinsic \<Rightarrow> update_transaction_extrinsics (extrinsics_insert extrinsic) e
        | None \<Rightarrow> Done e)"

section \<open>The change set\<close>

definition set_insert :: "'k \<Rightarrow> 'k list \<Rightarrow> 'k list" where
  "set_insert k d = (if k \<in> set d then d else d @ [k])"

definition insert_dirty :: "'k \<Rightarrow> 'k list list \<Rightarrow> bool \<times> 'k list list" where
  "insert_dirty key ds =
     (if ds = [] then (False, ds)
      else (key \<notin> set (last ds), butlast ds @ [set_insert key (last ds)]))"

definition default_map :: "('k, 'v) overlayed_map" where
  "default_map = \<lparr>changes = [], dirty_keys = [], num_client_transactions = 0,
     execution_mode = Client\<rparr>"

definition from_storage :: "('k \<times> 'v) list \<Rightarrow> ('k, 'v option) overlayed_map" where
  "from_storage storage = \<lparr>
     changes = map (\<lambda>(k, v). (k, \<lparr>transactions = [\<lparr>iv_value = Some v, iv_extrinsics = []\<rparr>]\<rparr>)) storage,
     dirty_keys = [], num_client_transactions = 0, execution_mode = Client\<rparr>"

definition transaction_depth :: "('k, 'v) overlayed_map \<Rightarrow> nat" where
  "transaction_depth m = length (dirty_keys m)"

definition spawn_child :: "('k, 'v) overlayed_map \<Rightarrow> ('k, 'v) overlayed_map" where
  "spawn_child m = \<lparr>changes = [], dirty_keys = replicate (transaction_depth m) [],
     num_client_transactions = num_client_transactions m, execution_mode = execution_mode m\<rparr>"

definition is_empty_map :: "('k, 'v) overlayed_map \<Rightarrow> bool" where
  "is_empty_map m = (changes m = [])"

definition get :: "'k \<Rightarrow> ('k, 'v) overlayed_map \<Rightarrow> 'v overlayed_entry option" where
  "get key m = map_of (changes m) key"

text \<open>\<open>changes.entry(key).or_default()\<close>: the entry to be written.\<close>

definition entry_or_default :: "'k \<Rightarrow> ('k, 'v) overlayed_map \<Rightarrow> 'v overlayed_entry" where
  "entry_or_default key m = (case get key m of Some e \<Rightarrow> e | None \<Rightarrow> default_entry)"

definition set_map ::
  "'k \<Rightarrow> 'v \<Rightarrow> u32 option \<Rightarrow> ('k, 'v) overlayed_map \<Rightarrow> ('k, 'v) overlayed_map exec" where
  "set_map key v at_extrinsic m =
     (let (first, ds) = insert_dirty key (dirty_keys m) in
      bind_exec (entry_set v first at_extrinsic (entry_or_default key m)) (\<lambda>e.
        Done (m\<lparr>changes := AList.update key e (changes m), dirty_keys := ds\<rparr>)))"

definition changes_iter :: "('k::linorder, 'v) overlayed_map \<Rightarrow> ('k \<times> 'v overlayed_entry) list" where
  "changes_iter m = sort_key fst (changes m)"

primrec pop_values :: "('k \<times> 'v overlayed_entry) list \<Rightarrow> ('k \<times> 'v) list exec" where
  "pop_values [] = Done []"
| "pop_values (kv # kvs) =
     bind_exec (pop_transaction (snd kv)) (\<lambda>(t, _).
       bind_exec (pop_values kvs) (\<lambda>rest. Done ((fst kv, iv_value t) # rest)))"

definition drain_commited :: "('k::linorder, 'v) overlayed_map \<Rightarrow> ('k \<times> 'v) list exec" where
  "drain_commited m = (if transaction_depth m = 0 then pop_values (changes_iter m) else Panic)"

definition enter_runtime ::
  "('k, 'v) overlayed_map \<Rightarrow> ('k, 'v) overlayed_map \<times> (unit, already_in_runtime) result" where
  "enter_runtime m =
     (if execution_mode m = Runtime then (m, Err AlreadyInRuntime)
      else (m\<lparr>execution_mode := Runtime, num_client_transactions := transaction_depth m\<rparr>, Ok ()))"

definition has_open_runtime_transactions :: "('k, 'v) overlayed_map \<Rightarrow> bool" where
  "has_open_runtime_transactions m = (num_client_transactions m < transaction_depth m)"

definition start_transaction :: "('k, 'v) overlayed_map \<Rightarrow> ('k, 'v) overlayed_map" where
  "start_transaction m = m\<lparr>dirty_keys := dirty_keys m @ [[]]\<rparr>"

text \<open>One round of the loop in \<open>close_transaction\<close>; the popped set is already gone from
  \<open>dirty_keys\<close>.\<close>

definition close_key :: "bool \<Rightarrow> 'k \<Rightarrow> ('k, 'v) overlayed_map \<Rightarrow> ('k, 'v) overlayed_map exec" where
  "close_key rollback key m =
     bind_exec (expect (get key m)) (\<lambda>overlayed.
     if rollback then
       bind_exec (pop_transaction overlayed) (\<lambda>(_, overlayed).
       if transactions overlayed = []
       then Done (m\<lparr>changes := AList.delete key (changes m)\<rparr>)
       else Done (m\<lparr>changes := AList.update key overlayed (changes m)\<rparr>))
     else
       let (has_predecessor, ds) =
         (if dirty_keys m \<noteq> []
          then (case insert_dirty key (dirty_keys m) of (fresh, ds) \<Rightarrow> (\<not> fresh, ds))
          else (1 < length (transactions overlayed), dirty_keys m))
       in if has_predecessor then
            bind_exec (pop_transaction overlayed) (\<lambda>(dropped_tx, overlayed).
            bind_exec (set_value_mut (iv_value dropped_tx) overlayed) (\<lambda>overlayed.
            bind_exec (update_transaction_extrinsics
                (\<lambda>xs. extrinsics_extend xs (iv_extrinsics dropped_tx)) overlayed) (\<lambda>overlayed.
            Done (m\<lparr>changes := AList.update key overlayed (changes m), dirty_keys := ds\<rparr>))))
          else Done (m\<lparr>dirty_keys := ds\<rparr>))"

primrec close_keys :: "bool \<Rightarrow> 'k list \<Rightarrow> ('k, 'v) overlayed_map \<Rightarrow> ('k, 'v) overlayed_map exec" where
  "close_keys rollback [] m = Done m"
| "close_keys rollback (key # keys) m = bind_exec (close_key rollback key m) (close_keys rollback keys)"

definition close_transaction ::
  "bool \<Rightarrow> ('k, 'v) overlayed_map \<Rightarrow> (('k, 'v) overlayed_map \<times> (unit, no_open_transaction) result) exec" where
  "close_transaction rollback m =
     (if execution_mode m = Runtime \<and> \<not> has_open_runtime_transactions m
      then Done (m, Err NoOpenTransaction)
      else if dirty_keys m = [] then Done (m, Err NoOpenTransaction)
      else bind_exec (close_keys rollback (last (dirty_keys m)) (m\<lparr>dirty_keys := butlast (dirty_keys m)\<rparr>))
             (\<lambda>m. Done (m, Ok ())))"

definition rollback_transaction ::
  "('k, 'v) overlayed_map \<Rightarrow> (('k, 'v) overlayed_map \<times> (unit, no_open_transaction) result) exec" where
  "rollback_transaction = close_transaction True"

definition commit_transaction ::
  "('k, 'v) overlayed_map \<Rightarrow> (('k, 'v) overlayed_map \<times> (unit, no_open_transaction) result) exec" where
  "commit_transaction = close_transaction False"

section \<open>Snapshots: the abstract view\<close>

definition dirty_count :: "'k \<Rightarrow> 'k list list \<Rightarrow> nat" where
  "dirty_count k ds = length (filter (\<lambda>d. k \<in> set d) ds)"

definition versions :: "('k, 'v) overlayed_map \<Rightarrow> 'k \<Rightarrow> 'v list" where
  "versions m k = (case get k m of None \<Rightarrow> [] | Some e \<Rightarrow> map iv_value (transactions e))"

text \<open>The version that is current once the \<open>n\<close> newest ones are ignored.\<close>

definition nth_newest :: "nat \<Rightarrow> 'v list \<Rightarrow> 'v option" where
  "nth_newest n vs = (if n < length vs then Some (rev vs ! n) else None)"

definition snapshot :: "('k, 'v) overlayed_map \<Rightarrow> nat \<Rightarrow> 'k \<Rightarrow> 'v option" where
  "snapshot m j k = nth_newest (dirty_count k (drop j (dirty_keys m))) (versions m k)"

definition snapshots :: "('k, 'v) overlayed_map \<Rightarrow> ('k \<Rightarrow> 'v option) list" where
  "snapshots m = map (snapshot m) [0..<Suc (transaction_depth m)]"

definition current :: "('k, 'v) overlayed_map \<Rightarrow> 'k \<Rightarrow> 'v option" where
  "current m k = nth_newest 0 (versions m k)"

primrec entry_ok :: "'v overlayed_entry option \<Rightarrow> nat \<Rightarrow> bool" where
  "entry_ok None n = (n = 0)"
| "entry_ok (Some e) n =
     (transactions e \<noteq> [] \<and> n \<le> length (transactions e) \<and> length (transactions e) \<le> Suc n)"

definition overlay_inv :: "('k, 'v) overlayed_map \<Rightarrow> bool" where
  "overlay_inv m \<longleftrightarrow>
     distinct (map fst (changes m)) \<and> (\<forall>d \<in> set (dirty_keys m). distinct d) \<and>
     (\<forall>k. entry_ok (get k m) (dirty_count k (dirty_keys m)))"

section \<open>Basic facts\<close>

lemma dirty_count_simps [simp]:
  "dirty_count k [] = 0"
  "dirty_count k (d # ds) = (if k \<in> set d then Suc (dirty_count k ds) else dirty_count k ds)"
  "dirty_count k (ds @ es) = dirty_count k ds + dirty_count k es"
  by (simp_all add: dirty_count_def)

lemma dirty_count_replicate_Nil [simp]: "dirty_count k (replicate n []) = 0"
  by (induction n) simp_all

lemma nth_newest_simps [simp]:
  "nth_newest n [] = None"
  "nth_newest 0 (vs @ [v]) = Some v"
  "nth_newest (Suc n) (vs @ [v]) = nth_newest n vs"
  by (simp_all add: nth_newest_def)

lemma set_set_insert [simp]: "set (set_insert k d) = insert k (set d)"
  by (auto simp: set_insert_def)

lemma distinct_set_insert [simp]: "distinct d \<Longrightarrow> distinct (set_insert k d)"
  by (simp add: set_insert_def)

lemma insert_dirty_simps [simp]:
  "insert_dirty k [] = (False, [])"
  "insert_dirty k (ds @ [d]) = (k \<notin> set d, ds @ [set_insert k d])"
  by (simp_all add: insert_dirty_def)

lemma get_default_map [simp]: "get k default_map = None"
  by (simp add: get_def default_map_def)

lemma get_update [simp]:
  "get k (m\<lparr>changes := AList.update k' e (changes m), dirty_keys := ds\<rparr>) =
     (if k = k' then Some e else get k m)"
  "get k (m\<lparr>changes := AList.update k' e (changes m)\<rparr>) = (if k = k' then Some e else get k m)"
  "get k (m\<lparr>dirty_keys := ds\<rparr>) = get k m"
  by (simp_all add: get_def update_conv')

lemma get_delete [simp]:
  "get k (m\<lparr>changes := AList.delete k' (changes m)\<rparr>) = (if k = k' then None else get k m)"
  by (simp add: get_def delete_conv')

lemma overlay_invD:
  assumes "overlay_inv m"
  shows "distinct (map fst (changes m))" "d \<in> set (dirty_keys m) \<Longrightarrow> distinct d"
    "entry_ok (get k m) (dirty_count k (dirty_keys m))"
  using assms by (auto simp: overlay_inv_def)

lemma length_snapshots [simp]: "length (snapshots m) = Suc (transaction_depth m)"
  by (simp add: snapshots_def)

lemma snapshots_not_Nil [simp]: "snapshots m \<noteq> []"
  by (metis length_snapshots list.size(3) nat.simps(3))

lemma nth_snapshots: "j \<le> transaction_depth m \<Longrightarrow> snapshots m ! j = snapshot m j"
  by (simp add: snapshots_def del: upt_Suc)

lemma last_snapshots: "last (snapshots m) = current m"
  by (rule ext) (simp add: last_conv_nth nth_snapshots, simp add: snapshot_def current_def transaction_depth_def)

lemma snapshots_eqI:
  assumes "length ss = Suc (transaction_depth m)"
    and "\<And>j k. j \<le> transaction_depth m \<Longrightarrow> snapshot m j k = (ss ! j) k"
  shows "snapshots m = ss"
  by (rule nth_equalityI) (auto simp: assms nth_snapshots intro!: ext)

lemma overlay_inv_default: "overlay_inv default_map"
  by (simp add: overlay_inv_def) (simp add: default_map_def)

lemma snapshots_default: "snapshots default_map = [Map.empty]"
  by (rule snapshots_eqI) (simp_all add: transaction_depth_def default_map_def snapshot_def versions_def get_def)

section \<open>Starting a transaction\<close>

lemma overlay_inv_start: "overlay_inv m \<Longrightarrow> overlay_inv (start_transaction m)"
  by (auto simp: overlay_inv_def start_transaction_def)

lemma depth_start [simp]: "transaction_depth (start_transaction m) = Suc (transaction_depth m)"
  by (simp add: transaction_depth_def start_transaction_def)

lemma versions_start [simp]: "versions (start_transaction m) = versions m"
  by (rule ext) (simp add: versions_def start_transaction_def)

lemma snapshots_start: "snapshots (start_transaction m) = snapshots m @ [current m]"
proof (rule snapshots_eqI)
  fix j k
  assume "j \<le> transaction_depth (start_transaction m)"
  then show "snapshot (start_transaction m) j k = ((snapshots m @ [current m]) ! j) k"
    by (cases "j = Suc (transaction_depth m)")
      (auto simp: nth_append nth_snapshots snapshot_def current_def, 
       auto simp: start_transaction_def transaction_depth_def)
qed simp

section \<open>Writing a key\<close>

lemma entry_set_Done:
  obtains e' where "entry_set v first x e = Done e'"
    "map iv_value (transactions e') =
       (if first \<or> transactions e = [] then map iv_value (transactions e)
        else butlast (map iv_value (transactions e))) @ [v]"
proof -
  have "\<exists>e'. entry_set v first x e = Done e' \<and> map iv_value (transactions e') =
       (if first \<or> transactions e = [] then map iv_value (transactions e)
        else butlast (map iv_value (transactions e))) @ [v]"
    by (cases "first \<or> transactions e = []"; cases x)
      (auto simp: entry_set_def set_value_mut_def update_transaction_extrinsics_def map_butlast)
  with that show ?thesis by blast
qed

text \<open>What \<open>set\<close> does, whatever the entry and the stack look like.\<close>

lemma set_map_Done:
  obtains e' where
    "set_map k v x m = Done (m\<lparr>changes := AList.update k e' (changes m),
       dirty_keys := snd (insert_dirty k (dirty_keys m))\<rparr>)"
    "map iv_value (transactions e') =
       (if fst (insert_dirty k (dirty_keys m)) \<or> versions m k = [] then versions m k
        else butlast (versions m k)) @ [v]"
proof -
  obtain e' where e': "entry_set v (fst (insert_dirty k (dirty_keys m))) x (entry_or_default k m) = Done e'"
    "map iv_value (transactions e') =
      (if fst (insert_dirty k (dirty_keys m)) \<or> transactions (entry_or_default k m) = []
       then map iv_value (transactions (entry_or_default k m))
       else butlast (map iv_value (transactions (entry_or_default k m)))) @ [v]"
    by (rule entry_set_Done)
  have vs: "versions m k = map iv_value (transactions (entry_or_default k m))"
    by (simp add: versions_def entry_or_default_def default_entry_def split: option.splits)
  show ?thesis
    by (rule that [of e']) (use e' vs in \<open>auto simp: set_map_def split: prod.splits\<close>)
qed

lemma length_versions: "length (versions m k) = (case get k m of None \<Rightarrow> 0 | Some e \<Rightarrow> length (transactions e))"
  by (simp add: versions_def split: option.splits)

lemma overlay_inv_versions:
  "overlay_inv m \<longleftrightarrow>
     distinct (map fst (changes m)) \<and> (\<forall>d \<in> set (dirty_keys m). distinct d) \<and>
     (\<forall>k. (get k m \<noteq> None \<longrightarrow> versions m k \<noteq> []) \<and>
          dirty_count k (dirty_keys m) \<le> length (versions m k) \<and>
          length (versions m k) \<le> Suc (dirty_count k (dirty_keys m)))"
proof -
  have "entry_ok (get k m) n \<longleftrightarrow>
      (get k m \<noteq> None \<longrightarrow> versions m k \<noteq> []) \<and> n \<le> length (versions m k) \<and> length (versions m k) \<le> Suc n" for k n
    by (cases "get k m") (auto simp: versions_def)
  then show ?thesis by (simp add: overlay_inv_def)
qed

text \<open>The version list that \<open>set\<close> leaves behind, under the invariant.\<close>

definition written :: "'v \<Rightarrow> bool \<Rightarrow> 'v list \<Rightarrow> 'v list" where
  "written v keep vs = (if keep then vs else butlast vs) @ [v]"

text \<open>The relation between a change set and the one after key \<open>k\<close> was written with \<open>v\<close>.\<close>

definition wrote :: "'k \<Rightarrow> 'v \<Rightarrow> ('k, 'v) overlayed_map \<Rightarrow> ('k, 'v) overlayed_map \<Rightarrow> bool" where
  "wrote k v m m' \<longleftrightarrow>
     versions m' k = written v (fst (insert_dirty k (dirty_keys m))) (versions m k) \<and>
     (\<forall>k'. k' \<noteq> k \<longrightarrow> versions m' k' = versions m k' \<and> get k' m' = get k' m) \<and>
     dirty_keys m' = snd (insert_dirty k (dirty_keys m)) \<and> distinct (map fst (changes m')) \<and>
     num_client_transactions m' = num_client_transactions m \<and> execution_mode m' = execution_mode m"

lemma wroteD:
  assumes "wrote k v m m'"
  shows "versions m' k = written v (fst (insert_dirty k (dirty_keys m))) (versions m k)"
    "k' \<noteq> k \<Longrightarrow> versions m' k' = versions m k'" "k' \<noteq> k \<Longrightarrow> get k' m' = get k' m"
    "dirty_keys m' = snd (insert_dirty k (dirty_keys m))" "distinct (map fst (changes m'))"
  using assms by (auto simp: wrote_def)

lemma set_map_wrote:
  assumes "distinct (map fst (changes m))"
  obtains m' where "set_map k v x m = Done m'" "wrote k v m m'"
proof -
  obtain e' where e': "set_map k v x m = Done (m\<lparr>changes := AList.update k e' (changes m),
       dirty_keys := snd (insert_dirty k (dirty_keys m))\<rparr>)"
    "map iv_value (transactions e') =
       (if fst (insert_dirty k (dirty_keys m)) \<or> versions m k = [] then versions m k
        else butlast (versions m k)) @ [v]"
    by (rule set_map_Done)
  show ?thesis
    by (rule that [OF e'(1)])
      (use assms e'(2) in \<open>auto simp: wrote_def versions_def written_def distinct_update\<close>)
qed

lemma length_written [simp]: 
  "length (written v keep vs) = (if keep \<or> vs = [] then Suc (length vs) else length vs)"
  by (simp add: written_def)

lemma nth_newest_written:
  "nth_newest 0 (written v keep vs) = Some v"
  "nth_newest (Suc n) (written v True vs) = nth_newest n vs"
  "vs \<noteq> [] \<Longrightarrow> nth_newest (Suc n) (written v False vs) = nth_newest (Suc n) vs"
  by (simp_all add: written_def) (metis append_butlast_last_id nth_newest_simps(3))

lemma overlay_inv_countD:
  assumes "overlay_inv m"
  shows "dirty_count k (dirty_keys m) \<le> length (versions m k)"
    "length (versions m k) \<le> Suc (dirty_count k (dirty_keys m))"
    "get k m \<noteq> None \<Longrightarrow> versions m k \<noteq> []" "\<forall>d \<in> set (dirty_keys m). distinct d"
    "distinct (map fst (changes m))"
  using assms by (auto simp: overlay_inv_versions)

lemma wrote_depth: "wrote k v m m' \<Longrightarrow> transaction_depth m' = transaction_depth m"
  by (cases "dirty_keys m" rule: rev_cases) (auto simp: wrote_def transaction_depth_def)

lemma wrote_inv:
  assumes inv: "overlay_inv m" and w: "wrote k v m m'"
  shows "overlay_inv m'"
proof -
  note cnt = overlay_inv_countD [OF inv]
  have "(get k' m' \<noteq> None \<longrightarrow> versions m' k' \<noteq> []) \<and>
      dirty_count k' (dirty_keys m') \<le> length (versions m' k') \<and>
      length (versions m' k') \<le> Suc (dirty_count k' (dirty_keys m'))" for k'
    using cnt(1-3) [of k'] wroteD(1,4) [OF w] wroteD(2,3) [OF w, of k']
    by (cases "k' = k"; cases "dirty_keys m" rule: rev_cases) (auto simp: written_def)
  moreover have "\<forall>d \<in> set (dirty_keys m'). distinct d"
    using cnt(4) wroteD(4) [OF w] by (cases "dirty_keys m" rule: rev_cases) auto
  ultimately show ?thesis
    using wroteD(5) [OF w] by (simp add: overlay_inv_versions)
qed

lemma wrote_current:
  "wrote k v m m' \<Longrightarrow> current m' = (current m)(k \<mapsto> v)"
  by (rule ext) (auto simp: wrote_def current_def nth_newest_written)

lemma wrote_older_snapshot:
  assumes inv: "overlay_inv m" and w: "wrote k v m m'" and j: "j < transaction_depth m"
  shows "snapshot m' j = snapshot m j"
proof
  fix k'
  obtain es d where ds: "dirty_keys m = es @ [d]"
    using j by (cases "dirty_keys m" rule: rev_cases) (auto simp: transaction_depth_def)
  moreover have "versions m k \<noteq> []" if "k \<in> set d"
    using overlay_inv_countD(1) [OF inv, of k] ds that by auto
  ultimately show "snapshot m' j k' = snapshot m j k'"
    using j wroteD(1,4) [OF w] wroteD(2) [OF w, of k']
    by (auto simp: snapshot_def transaction_depth_def nth_newest_written)
qed

lemma wrote_snapshots:
  assumes "overlay_inv m" "wrote k v m m'"
  shows "snapshots m' = butlast (snapshots m) @ [(current m)(k \<mapsto> v)]"
proof (rule snapshots_eqI)
  fix j k'
  assume "j \<le> transaction_depth m'"
  then show "snapshot m' j k' = ((butlast (snapshots m) @ [(current m)(k \<mapsto> v)]) ! j) k'"
    using wrote_older_snapshot [OF assms] wrote_current [OF assms(2)] wrote_depth [OF assms(2)]
      last_snapshots [of m']
    by (cases "j = transaction_depth m")
      (simp_all add: nth_append nth_butlast nth_snapshots last_conv_nth)
qed (simp add: wrote_depth [OF assms(2)])

section \<open>Closing a transaction\<close>

definition has_pred :: "'k \<Rightarrow> ('k, 'v) overlayed_map \<Rightarrow> bool" where
  "has_pred k m = (if dirty_keys m = [] then 1 < length (versions m k) else k \<in> set (last (dirty_keys m)))"

definition closed_versions :: "bool \<Rightarrow> bool \<Rightarrow> 'v list \<Rightarrow> 'v list" where
  "closed_versions rollback pred vs =
     (if rollback then butlast vs else if pred then butlast (butlast vs) @ [last vs] else vs)"

definition add_dirty :: "'k list \<Rightarrow> 'k list list \<Rightarrow> 'k list list" where
  "add_dirty keys ds = (if ds = [] then [] else butlast ds @ [fold set_insert keys (last ds)])"

text \<open>The relation between a change set whose top dirty set \<open>keys\<close> has been popped and the one
  after all of \<open>keys\<close> have been closed.\<close>

definition closed :: "bool \<Rightarrow> 'k list \<Rightarrow> ('k, 'v) overlayed_map \<Rightarrow> ('k, 'v) overlayed_map \<Rightarrow> bool" where
  "closed rollback keys m m' \<longleftrightarrow>
     (\<forall>k. versions m' k =
        (if k \<in> set keys then closed_versions rollback (has_pred k m) (versions m k) else versions m k)) \<and>
     (\<forall>k. k \<notin> set keys \<longrightarrow> get k m' = get k m) \<and>
     (\<forall>k \<in> set keys. get k m' \<noteq> None \<longrightarrow> versions m' k \<noteq> []) \<and>
     (\<not> rollback \<longrightarrow> (\<forall>k. map_option entry_extrinsics (get k m') = map_option entry_extrinsics (get k m))) \<and>
     dirty_keys m' = (if rollback then dirty_keys m else add_dirty keys (dirty_keys m)) \<and>
     distinct (map fst (changes m')) \<and>
     num_client_transactions m' = num_client_transactions m \<and> execution_mode m' = execution_mode m"

text \<open>What the loop needs of a key: it has a version, and a second one when it is to be merged.\<close>

definition closable :: "bool \<Rightarrow> 'k \<Rightarrow> ('k, 'v) overlayed_map \<Rightarrow> bool" where
  "closable rollback k m \<longleftrightarrow>
     versions m k \<noteq> [] \<and> (\<not> rollback \<and> has_pred k m \<longrightarrow> 1 < length (versions m k))"

lemma closable_getE:
  assumes "closable rollback k m"
  obtains e where "get k m = Some e" "transactions e \<noteq> []" "versions m k = map iv_value (transactions e)"
  using assms by (cases "get k m") (auto simp: closable_def versions_def)

lemma insert_dirty_add_dirty: "snd (insert_dirty k ds) = add_dirty [k] ds"
  by (simp add: insert_dirty_def add_dirty_def)

lemma close_key_rollback:
  assumes d: "distinct (map fst (changes m))" and "closable True k m"
  obtains m' where "close_key True k m = Done m'" "closed True [k] m m'"
proof -
  from assms(2) obtain e where e: "get k m = Some e" "transactions e \<noteq> []"
    and v: "versions m k = map iv_value (transactions e)"
    by (rule closable_getE)
  show ?thesis
  proof (cases "butlast (transactions e) = []")
    case True
    with e v d show ?thesis
      by (intro that)
        (auto simp: close_key_def pop_transaction_def closed_def closed_versions_def versions_def
          map_butlast [symmetric] distinct_delete)
  next
    case False
    with e v d show ?thesis
      by (intro that)
        (auto simp: close_key_def pop_transaction_def closed_def closed_versions_def versions_def
          map_butlast distinct_update)
  qed
qed

lemma close_key_commit:
  assumes d: "distinct (map fst (changes m))" and c: "closable False k m"
  obtains m' where "close_key False k m = Done m'" "closed False [k] m m'"
proof -
  from c obtain e where e: "get k m = Some e" "transactions e \<noteq> []"
    and v: "versions m k = map iv_value (transactions e)"
    by (rule closable_getE)
  show ?thesis
  proof (cases "has_pred k m")
    case True
    with c v obtain ts t u where ts: "transactions e = ts @ [t, u]"
      by (cases "transactions e" rule: rev_cases; cases "butlast (transactions e)" rule: rev_cases)
        (auto simp: closable_def)
    show ?thesis
      by (rule that [of "m\<lparr>changes := AList.update k (e\<lparr>transactions := ts @ [t\<lparr>iv_value := iv_value u,
              iv_extrinsics := iv_extrinsics t @ iv_extrinsics u\<rparr>]\<rparr>) (changes m),
            dirty_keys := add_dirty [k] (dirty_keys m)\<rparr>"])
        (use True e v ts d in \<open>auto simp: close_key_def pop_transaction_def set_value_mut_def
          update_transaction_extrinsics_def extrinsics_extend_def closed_def closed_versions_def
          versions_def distinct_update has_pred_def insert_dirty_def add_dirty_def
          entry_extrinsics_def butlast_append split: if_splits\<close>)
  next
    case False
    show ?thesis
      by (rule that [of "m\<lparr>dirty_keys := add_dirty [k] (dirty_keys m)\<rparr>"])
        (use False e v d in \<open>auto simp: close_key_def closed_def closed_versions_def versions_def
          has_pred_def insert_dirty_def add_dirty_def split: if_splits\<close>)
  qed
qed

lemma close_key_closed:
  assumes "distinct (map fst (changes m))" and "closable rollback k m"
  obtains m' where "close_key rollback k m = Done m'" "closed rollback [k] m m'"
proof (cases rollback)
  case True
  with assms that show ?thesis by (auto elim: close_key_rollback)
next
  case False
  with assms that show ?thesis by (auto elim: close_key_commit)
qed

lemma closed_other_key:
  assumes "closed rollback [k] m m'" and "k' \<noteq> k"
  shows "has_pred k' m' = has_pred k' m" "versions m' k' = versions m k'"
  using assms by (auto simp: closed_def has_pred_def add_dirty_def)

lemma closedD:
  assumes "closed rollback keys m m'"
  shows "versions m' k = (if k \<in> set keys
      then closed_versions rollback (has_pred k m) (versions m k) else versions m k)"
    "k \<notin> set keys \<Longrightarrow> get k m' = get k m" "k \<in> set keys \<Longrightarrow> get k m' \<noteq> None \<Longrightarrow> versions m' k \<noteq> []"
    "\<not> rollback \<Longrightarrow> map_option entry_extrinsics (get k m') = map_option entry_extrinsics (get k m)"
    "dirty_keys m' = (if rollback then dirty_keys m else add_dirty keys (dirty_keys m))"
    "distinct (map fst (changes m'))" "num_client_transactions m' = num_client_transactions m"
    "execution_mode m' = execution_mode m"
  using assms by (simp_all add: closed_def) metis

lemma closed_step:
  assumes c1: "closed rollback [k] m m1" and c2: "closed rollback keys m1 m'" and k: "k \<notin> set keys"
  shows "closed rollback (k # keys) m m'"
  unfolding closed_def
proof (intro conjI allI ballI impI)
  fix k'
  show "versions m' k' = (if k' \<in> set (k # keys)
      then closed_versions rollback (has_pred k' m) (versions m k') else versions m k')"
    using closed_other_key [OF c1, of k'] closedD(1) [OF c1, of k'] closedD(1) [OF c2, of k'] k
    by (cases "k' = k") simp_all
  show "get k' m' = get k' m" if "k' \<notin> set (k # keys)"
    using closedD(2) [OF c1, of k'] closedD(2) [OF c2, of k'] that by simp
  show "versions m' k' \<noteq> []" if "k' \<in> set (k # keys)" "get k' m' \<noteq> None"
    using closedD(3) [OF c2, of k'] closedD(3) [OF c1, of k'] closedD(1,2) [OF c2, of k'] that k
    by (cases "k' \<in> set keys") auto
  show "map_option entry_extrinsics (get k' m') = map_option entry_extrinsics (get k' m)" if "\<not> rollback"
    using closedD(4) [OF c1] closedD(4) [OF c2] that by simp
qed (use closedD(5-8) [OF c1] closedD(5-8) [OF c2] in \<open>auto simp: add_dirty_def\<close>)

lemma close_keys_closed:
  assumes "distinct keys" "distinct (map fst (changes m))" "\<And>k. k \<in> set keys \<Longrightarrow> closable rollback k m"
  shows "\<exists>m'. close_keys rollback keys m = Done m' \<and> closed rollback keys m m'"
  using assms
proof (induction keys arbitrary: m)
  case Nil
  then show ?case by (simp add: closed_def add_dirty_def)
next
  case (Cons k keys)
  obtain m1 where m1: "close_key rollback k m = Done m1" "closed rollback [k] m m1"
    by (rule close_key_closed [OF Cons.prems(2), of rollback k]) (simp_all add: Cons.prems(3))
  have "closable rollback k' m1" if "k' \<in> set keys" for k'
  proof -
    have "k' \<noteq> k" using Cons.prems(1) that by auto
    then show ?thesis
      using Cons.prems(3) [of k'] closed_other_key [OF m1(2)] that by (simp add: closable_def)
  qed
  then obtain m' where m': "close_keys rollback keys m1 = Done m'" "closed rollback keys m1 m'"
    using Cons.IH [of m1] Cons.prems(1) m1(2) by (auto simp: closed_def)
  with m1 Cons.prems(1) show ?case
    by (auto intro: closed_step)
qed

lemma set_fold_set_insert [simp]: "set (fold set_insert keys d) = set keys \<union> set d"
  by (induction keys arbitrary: d) auto

lemma distinct_fold_set_insert: "distinct d \<Longrightarrow> distinct (fold set_insert keys d)"
  by (induction keys arbitrary: d) auto

lemma versions_dirty_update [simp]: "versions (m\<lparr>dirty_keys := ds\<rparr>) = versions m"
  by (rule ext) (simp add: versions_def)

lemma popped_closable:
  assumes inv: "overlay_inv m" and ds: "dirty_keys m = ds @ [d]" and k: "k \<in> set d"
  shows "closable rollback k (m\<lparr>dirty_keys := ds\<rparr>)"
  using overlay_inv_countD(1) [OF inv, of k] ds k
  by (cases ds rule: rev_cases) (auto simp: closable_def has_pred_def split: if_splits)

lemma length_closed_versions:
  "vs \<noteq> [] \<Longrightarrow> (\<not> rollback \<and> pred \<Longrightarrow> 1 < length vs) \<Longrightarrow>
   length (closed_versions rollback pred vs) = length vs - (if rollback \<or> pred then 1 else 0)"
  by (auto simp: closed_versions_def)

text \<open>How many open transactions dirtied a key, counted from position \<open>j\<close>, before and after
  the top transaction \<open>d\<close> is folded into its parent.\<close>

lemma dirty_count_add_dirty:
  "j < length ds \<Longrightarrow> dirty_count k (drop j (add_dirty d ds)) =
     dirty_count k (drop j ds) + (if k \<in> set d \<and> k \<notin> set (last ds) then 1 else 0)"
  by (cases ds rule: rev_cases) (auto simp: add_dirty_def)

lemma closed_inv:
  assumes inv: "overlay_inv m" and ds: "dirty_keys m = ds @ [d]"
    and c: "closed rollback d (m\<lparr>dirty_keys := ds\<rparr>) m'"
  shows "overlay_inv m'"
proof -
  note cnt = overlay_inv_countD [OF inv]
  have count: "dirty_count k (dirty_keys m') = dirty_count k ds +
      (if \<not> rollback \<and> ds \<noteq> [] \<and> k \<in> set d \<and> k \<notin> set (last ds) then 1 else 0)" for k
    using closedD(5) [OF c] dirty_count_add_dirty [of 0 ds k d]
    by (cases "ds = []") (auto simp: add_dirty_def)
  have "(get k m' \<noteq> None \<longrightarrow> versions m' k \<noteq> []) \<and>
      dirty_count k (dirty_keys m') \<le> length (versions m' k) \<and>
      length (versions m' k) \<le> Suc (dirty_count k (dirty_keys m'))" for k
  proof (cases "k \<in> set d")
    case True
    then have "closable rollback k (m\<lparr>dirty_keys := ds\<rparr>)"
      using popped_closable inv ds by metis
    then have "length (versions m' k) = length (versions m k) -
        (if rollback \<or> has_pred k (m\<lparr>dirty_keys := ds\<rparr>) then 1 else 0)"
      using closedD(1) [OF c, of k] True by (simp add: closable_def length_closed_versions)
    with True closedD(3) [OF c True] count [of k] cnt(1,2) [of k] ds show ?thesis
      by (auto simp: has_pred_def split: if_splits)
  next
    case False
    with count [of k] cnt(1-3) [of k] closedD(1,2) [OF c, of k] ds show ?thesis by simp
  qed
  moreover have "\<forall>d \<in> set (dirty_keys m'). distinct d"
    using closedD(5) [OF c] cnt(4) ds
    by (auto simp: add_dirty_def distinct_fold_set_insert dest: in_set_butlastD split: if_splits)
  ultimately show ?thesis
    using closedD(6) [OF c] by (simp add: overlay_inv_versions)
qed

lemma nth_newest_closed_versions:
  assumes "vs \<noteq> []"
  shows "nth_newest n (closed_versions True pred vs) = nth_newest (Suc n) vs"
    "nth_newest 0 (closed_versions False pred vs) = nth_newest 0 vs"
    "1 < length vs \<Longrightarrow> nth_newest (Suc n) (closed_versions False True vs) = nth_newest (Suc (Suc n)) vs"
    "closed_versions False False vs = vs"
proof -
  obtain ws v where vs: "vs = ws @ [v]"
    using assms by (cases vs rule: rev_cases) auto
  then show "nth_newest n (closed_versions True pred vs) = nth_newest (Suc n) vs"
    "nth_newest 0 (closed_versions False pred vs) = nth_newest 0 vs" "closed_versions False False vs = vs"
    by (simp_all add: closed_versions_def)
  assume "1 < length vs"
  with vs obtain us u where "ws = us @ [u]"
    by (cases ws rule: rev_cases) auto
  with vs show "nth_newest (Suc n) (closed_versions False True vs) = nth_newest (Suc (Suc n)) vs"
    by (simp add: closed_versions_def del: append_assoc)
qed

lemma closed_rollback_snapshot:
  assumes inv: "overlay_inv m" and ds: "dirty_keys m = ds @ [d]"
    and c: "closed True d (m\<lparr>dirty_keys := ds\<rparr>) m'" and j: "j \<le> length ds"
  shows "snapshot m' j k = snapshot m j k"
proof (cases "k \<in> set d")
  case True
  then have "versions m k \<noteq> []"
    using popped_closable [OF inv ds, of k True] by (simp add: closable_def)
  with True j ds show ?thesis
    by (simp add: snapshot_def closedD(1) [OF c] closedD(5) [OF c] nth_newest_closed_versions)
next
  case False
  with j ds show ?thesis
    by (simp add: snapshot_def closedD(1) [OF c] closedD(5) [OF c])
qed

lemma closed_commit_snapshot:
  assumes inv: "overlay_inv m" and ds: "dirty_keys m = ds @ [d]"
    and c: "closed False d (m\<lparr>dirty_keys := ds\<rparr>) m'" and j: "j < length ds"
  shows "snapshot m' j k = snapshot m j k"
proof (cases "k \<in> set d")
  case True
  have ne: "ds \<noteq> []" using j by auto
  with True have len: "versions m k \<noteq> []" "k \<in> set (last ds) \<Longrightarrow> 1 < length (versions m k)"
    using popped_closable [OF inv ds, of k False] by (auto simp: closable_def has_pred_def split: if_splits)
  show ?thesis
  proof (cases "k \<in> set (last ds)")
    case p: True
    obtain es p where "ds = es @ [p]" using ne by (cases ds rule: rev_cases) auto
    then obtain x where "dirty_count k (drop j ds) = Suc x"
      using p j by simp
    with True p j ds ne len show ?thesis
      by (simp add: snapshot_def closedD(1) [OF c] closedD(5) [OF c] dirty_count_add_dirty has_pred_def
          nth_newest_closed_versions)
  next
    case False
    with True j ds ne len show ?thesis
      by (simp add: snapshot_def closedD(1) [OF c] closedD(5) [OF c] dirty_count_add_dirty has_pred_def
          nth_newest_closed_versions)
  qed
next
  case False
  with j ds show ?thesis
    by (simp add: snapshot_def closedD(1) [OF c] closedD(5) [OF c] dirty_count_add_dirty)
qed

lemma closed_commit_current:
  assumes inv: "overlay_inv m" and ds: "dirty_keys m = ds @ [d]"
    and c: "closed False d (m\<lparr>dirty_keys := ds\<rparr>) m'"
  shows "current m' = current m"
proof
  fix k
  show "current m' k = current m k"
    using popped_closable [OF inv ds, of k False]
    by (cases "k \<in> set d") (auto simp: current_def closedD(1) [OF c] closable_def nth_newest_closed_versions)
qed

text \<open>Under the invariant neither closing operation panics, and each acts on the snapshots as
  its name says; the error is returned exactly when there is nothing the caller may close.\<close>

definition may_close :: "('k, 'v) overlayed_map \<Rightarrow> bool" where
  "may_close m \<longleftrightarrow> dirty_keys m \<noteq> [] \<and> (execution_mode m = Runtime \<longrightarrow> has_open_runtime_transactions m)"

lemma close_transaction_Err:
  "\<not> may_close m \<Longrightarrow> close_transaction rollback m = Done (m, Err NoOpenTransaction)"
  by (auto simp: may_close_def close_transaction_def)

lemma close_transaction_closed:
  assumes inv: "overlay_inv m" and may: "may_close m"
  obtains ds d m' where "dirty_keys m = ds @ [d]" "close_transaction rollback m = Done (m', Ok ())"
    "closed rollback d (m\<lparr>dirty_keys := ds\<rparr>) m'"
proof -
  obtain ds d where ds: "dirty_keys m = ds @ [d]"
    using may by (cases "dirty_keys m" rule: rev_cases) (auto simp: may_close_def)
  have "\<exists>m'. close_keys rollback d (m\<lparr>dirty_keys := ds\<rparr>) = Done m' \<and> closed rollback d (m\<lparr>dirty_keys := ds\<rparr>) m'"
    using overlay_inv_countD(4,5) [OF inv] ds by (intro close_keys_closed popped_closable [OF inv ds]) auto
  with ds may that show ?thesis
    by (auto simp: close_transaction_def may_close_def)
qed

lemma closed_depth:
  "closed rollback d (m\<lparr>dirty_keys := ds\<rparr>) m' \<Longrightarrow> transaction_depth m' = length ds"
  by (simp add: transaction_depth_def closedD(5) add_dirty_def)

lemma rollback_refines:
  assumes inv: "overlay_inv m" and may: "may_close m"
  obtains m' where "rollback_transaction m = Done (m', Ok ())" "overlay_inv m'"
    "snapshots m' = butlast (snapshots m)" "Suc (transaction_depth m') = transaction_depth m"
    "num_client_transactions m' = num_client_transactions m" "execution_mode m' = execution_mode m"
proof -
  obtain ds d m' where ds: "dirty_keys m = ds @ [d]" and m': "close_transaction True m = Done (m', Ok ())"
    and c: "closed True d (m\<lparr>dirty_keys := ds\<rparr>) m'"
    using close_transaction_closed [OF inv may] by metis
  have "snapshots m' = butlast (snapshots m)"
    by (rule snapshots_eqI) (use ds closed_depth [OF c] in
      \<open>auto simp: nth_butlast nth_snapshots transaction_depth_def closed_rollback_snapshot [OF inv ds c]\<close>)
  with that [of m'] m' closed_inv [OF inv ds c] closed_depth [OF c] closedD(7,8) [OF c] ds show ?thesis
    by (simp add: rollback_transaction_def transaction_depth_def)
qed

lemma commit_refines:
  assumes inv: "overlay_inv m" and may: "may_close m"
  obtains m' where "commit_transaction m = Done (m', Ok ())" "overlay_inv m'"
    "snapshots m' = butlast (butlast (snapshots m)) @ [current m]"
    "Suc (transaction_depth m') = transaction_depth m"
    "\<And>k. map_option entry_extrinsics (get k m') = map_option entry_extrinsics (get k m)"
    "num_client_transactions m' = num_client_transactions m" "execution_mode m' = execution_mode m"
proof -
  obtain ds d m' where ds: "dirty_keys m = ds @ [d]" and m': "close_transaction False m = Done (m', Ok ())"
    and c: "closed False d (m\<lparr>dirty_keys := ds\<rparr>) m'"
    using close_transaction_closed [OF inv may] by metis
  have "snapshots m' = butlast (butlast (snapshots m)) @ [current m]"
  proof (rule snapshots_eqI)
    fix j k
    assume "j \<le> transaction_depth m'"
    then show "snapshot m' j k = ((butlast (butlast (snapshots m)) @ [current m]) ! j) k"
      using ds closed_depth [OF c] closed_commit_snapshot [OF inv ds c, of j k]
        closed_commit_current [OF inv ds c] last_snapshots [of m']
      by (cases "j = length ds")
        (simp_all add: nth_append nth_butlast nth_snapshots last_conv_nth transaction_depth_def)
  qed (use ds closed_depth [OF c] in \<open>simp add: transaction_depth_def\<close>)
  with that [of m'] m' closed_inv [OF inv ds c] closed_depth [OF c] closedD(4,7,8) [OF c] ds show ?thesis
    by (simp add: commit_transaction_def transaction_depth_def)
qed

section \<open>Leaving the runtime\<close>

lemma close_key_rollback_dirty:
  "close_key True k m = Done m' \<Longrightarrow> dirty_keys m' = dirty_keys m"
  by (cases "get k m") (auto simp: close_key_def split: prod.splits if_splits)

lemma close_keys_rollback_dirty:
  "close_keys True keys m = Done m' \<Longrightarrow> dirty_keys m' = dirty_keys m"
  by (induction keys arbitrary: m) (auto dest: close_key_rollback_dirty)

lemma rollback_depth:
  "rollback_transaction m = Done (m', Ok u) \<Longrightarrow> transaction_depth m' < transaction_depth m"
  by (auto simp: rollback_transaction_def close_transaction_def transaction_depth_def
      dest!: close_keys_rollback_dirty split: if_splits)

function rollback_open :: "('k, 'v) overlayed_map \<Rightarrow> ('k, 'v) overlayed_map exec" where
  "rollback_open m =
     (if has_open_runtime_transactions m
      then (case rollback_transaction m of Done (m', Ok _) \<Rightarrow> rollback_open m' | _ \<Rightarrow> Panic)
      else Done m)"
  by pat_completeness auto
termination
  by (relation "measure transaction_depth") (auto intro: rollback_depth)

declare rollback_open.simps [simp del]

definition exit_runtime ::
  "('k, 'v) overlayed_map \<Rightarrow> (('k, 'v) overlayed_map \<times> (unit, not_in_runtime) result) exec" where
  "exit_runtime m =
     (if execution_mode m = Client then Done (m, Err NotInRuntime)
      else bind_exec (rollback_open (m\<lparr>execution_mode := Client\<rparr>)) (\<lambda>m. Done (m, Ok ())))"

text \<open>The execution mode and the number of client transactions play no part in the contents.\<close>

lemma same_contents:
  assumes "changes m' = changes m" "dirty_keys m' = dirty_keys m"
  shows "overlay_inv m' = overlay_inv m" "snapshots m' = snapshots m"
    "transaction_depth m' = transaction_depth m"
proof -
  have get: "get k m' = get k m" for k
    by (simp add: get_def assms)
  then show "overlay_inv m' = overlay_inv m"
    by (simp add: overlay_inv_def assms)
  show d: "transaction_depth m' = transaction_depth m"
    by (simp add: transaction_depth_def assms)
  show "snapshots m' = snapshots m"
    using get by (intro snapshots_eqI) (simp_all add: d nth_snapshots, simp add: snapshot_def versions_def assms)
qed

lemma mode_update_simps [simp]:
  "overlay_inv (m\<lparr>execution_mode := e\<rparr>) = overlay_inv m"
  "snapshots (m\<lparr>execution_mode := e\<rparr>) = snapshots m"
  "transaction_depth (m\<lparr>execution_mode := e\<rparr>) = transaction_depth m"
  by (rule same_contents; simp)+

lemma rollback_open_refines:
  assumes "overlay_inv m" "execution_mode m = Client" "num_client_transactions m \<le> transaction_depth m"
  shows "\<exists>m'. rollback_open m = Done m' \<and> overlay_inv m' \<and> execution_mode m' = Client \<and>
    snapshots m' = take (Suc (num_client_transactions m)) (snapshots m) \<and>
    num_client_transactions m' = num_client_transactions m"
  using assms
proof (induction m rule: rollback_open.induct)
  case (1 m)
  show ?case
  proof (cases "has_open_runtime_transactions m")
    case True
    then have "may_close m"
      using "1.prems"(2) by (auto simp: may_close_def has_open_runtime_transactions_def transaction_depth_def)
    then obtain m' where m': "rollback_transaction m = Done (m', Ok ())" "overlay_inv m'"
      "snapshots m' = butlast (snapshots m)" "Suc (transaction_depth m') = transaction_depth m"
      "num_client_transactions m' = num_client_transactions m" "execution_mode m' = Client"
      using rollback_refines [OF "1.prems"(1)] "1.prems"(2) by metis
    with True "1.IH" [OF True m'(1) refl refl] show ?thesis
      by (auto simp: rollback_open.simps [of m] has_open_runtime_transactions_def butlast_conv_take min_def)
  next
    case False
    with "1.prems" show ?thesis
      by (simp add: rollback_open.simps [of m] has_open_runtime_transactions_def)
  qed
qed

section \<open>Further writers of the storage change set\<close>

text \<open>\<open>modify\<close> hands out a mutable reference to the value of the current transaction, which the
  caller writes through; \<open>upd\<close> is what the caller does with it.\<close>

definition modify ::
  "'k \<Rightarrow> 'v \<Rightarrow> u32 option \<Rightarrow> ('v option \<Rightarrow> 'v option) \<Rightarrow> ('k, 'v option) overlayed_map \<Rightarrow>
   ('k, 'v option) overlayed_map exec" where
  "modify key init at_extrinsic upd m =
     (let overlayed = entry_or_default key m;
          (first_write_in_tx, ds) = insert_dirty key (dirty_keys m);
          clone_into_new_tx =
            (if transactions overlayed \<noteq> []
             then (if first_write_in_tx then Some (iv_value (last (transactions overlayed))) else None)
             else Some (Some init))
      in bind_exec (case clone_into_new_tx of
             Some cloned \<Rightarrow> entry_set cloned first_write_in_tx at_extrinsic overlayed
           | None \<Rightarrow> Done overlayed) (\<lambda>overlayed.
         bind_exec (value_ref overlayed) (\<lambda>v.
         bind_exec (set_value_mut (upd v) overlayed) (\<lambda>overlayed.
         Done (m\<lparr>changes := AList.update key overlayed (changes m), dirty_keys := ds\<rparr>)))))"

primrec clear_entries ::
  "u32 option \<Rightarrow> ('k \<times> 'v option overlayed_entry) list \<Rightarrow> ('k, 'v option) overlayed_map \<Rightarrow> u32 \<Rightarrow>
   (('k, 'v option) overlayed_map \<times> u32) exec" where
  "clear_entries at_extrinsic [] m cnt = Done (m, cnt)"
| "clear_entries at_extrinsic (kv # kvs) m cnt =
     bind_exec (value_ref (snd kv)) (\<lambda>v.
     bind_exec (set_map (fst kv) None at_extrinsic m) (\<lambda>m.
     clear_entries at_extrinsic kvs m (if v \<noteq> None then cnt + 1 else cnt)))"

definition clear_where ::
  "('k::linorder \<Rightarrow> 'v option overlayed_entry \<Rightarrow> bool) \<Rightarrow> u32 option \<Rightarrow> ('k, 'v option) overlayed_map \<Rightarrow>
   (('k, 'v option) overlayed_map \<times> u32) exec" where
  "clear_where predicate at_extrinsic m =
     clear_entries at_extrinsic (filter (\<lambda>(k, v). predicate k v) (changes_iter m)) m 0"

definition changes_after ::
  "'k::linorder \<Rightarrow> ('k, 'v) overlayed_map \<Rightarrow> ('k \<times> 'v overlayed_entry) list" where
  "changes_after key m = filter (\<lambda>(k, _). key < k) (changes_iter m)"

lemma current_conv_get:
  "current m k = (case get k m of Some e \<Rightarrow> if transactions e = [] then None
     else Some (iv_value (last (transactions e))) | None \<Rightarrow> None)"
  by (auto simp: current_def versions_def nth_newest_def rev_nth last_conv_nth split: option.splits)

lemma set_value_mut_values:
  "transactions e \<noteq> [] \<Longrightarrow> \<exists>e'. set_value_mut v e = Done e' \<and>
     map iv_value (transactions e') = butlast (map iv_value (transactions e)) @ [v]"
  by (simp add: set_value_mut_def map_butlast)

lemma entry_or_default_values: "map iv_value (transactions (entry_or_default k m)) = versions m k"
  by (simp add: versions_def entry_or_default_def default_entry_def split: option.splits)

lemma value_ref_last:
  "map iv_value (transactions e) = vs @ [v] \<Longrightarrow> transactions e \<noteq> [] \<and> value_ref e = Done v"
  by (cases "transactions e" rule: rev_cases) (auto simp: value_ref_def)

text \<open>The entry that \<open>modify\<close> writes through: its newest version is the current value, and it
  is a version of this transaction.\<close>

definition modify_clone ::
  "bool \<Rightarrow> u32 option \<Rightarrow> 'v option \<Rightarrow> 'v option overlayed_entry \<Rightarrow> 'v option overlayed_entry exec" where
  "modify_clone first x init e =
     (case (if transactions e \<noteq> [] then (if first then Some (iv_value (last (transactions e))) else None)
            else Some init) of
        Some c \<Rightarrow> entry_set c first x e | None \<Rightarrow> Done e)"

lemma modify_clone_values:
  obtains e' where "modify_clone first x init e = Done e'"
    "map iv_value (transactions e') =
       written (if transactions e = [] then init else iv_value (last (transactions e))) first
         (map iv_value (transactions e))"
proof (cases "transactions e = [] \<or> first")
  case True
  obtain e' where "entry_set (if transactions e = [] then init else iv_value (last (transactions e))) first x e
      = Done e'" "map iv_value (transactions e') = (if first \<or> transactions e = []
        then map iv_value (transactions e) else butlast (map iv_value (transactions e))) @
        [if transactions e = [] then init else iv_value (last (transactions e))]"
    by (rule entry_set_Done)
  with True show ?thesis
    by (intro that [of e']) (auto simp: modify_clone_def written_def)
next
  case False
  then obtain us u where "transactions e = us @ [u]"
    by (cases "transactions e" rule: rev_cases) auto
  with False show ?thesis
    by (intro that [of e]) (auto simp: modify_clone_def written_def)
qed

lemma modify_conv:
  "modify k init x upd m =
     bind_exec (modify_clone (fst (insert_dirty k (dirty_keys m))) x (Some init) (entry_or_default k m)) (\<lambda>e.
     bind_exec (value_ref e) (\<lambda>v. bind_exec (set_value_mut (upd v) e) (\<lambda>e.
     Done (m\<lparr>changes := AList.update k e (changes m), dirty_keys := snd (insert_dirty k (dirty_keys m))\<rparr>))))"
  by (simp add: modify_def modify_clone_def Let_def split: prod.split)

lemma modify_wrote:
  assumes d: "distinct (map fst (changes m))"
  obtains m' where "modify k init x upd m = Done m'"
    "wrote k (upd (case current m k of Some v \<Rightarrow> v | None \<Rightarrow> Some init)) m m'"
proof -
  let ?e = "entry_or_default k m" and ?first = "fst (insert_dirty k (dirty_keys m))"
  let ?old = "case current m k of Some v \<Rightarrow> v | None \<Rightarrow> Some init"
  have old: "(if transactions ?e = [] then Some init else iv_value (last (transactions ?e))) = ?old"
    by (auto simp: current_conv_get entry_or_default_def default_entry_def split: option.splits)
  obtain e1 where e1: "modify_clone ?first x (Some init) ?e = Done e1"
    "map iv_value (transactions e1) = written ?old ?first (versions m k)"
    by (rule modify_clone_values [of ?first x "Some init" ?e]) (simp add: old entry_or_default_values)
  then have ne: "transactions e1 \<noteq> []" and v: "value_ref e1 = Done ?old"
    using value_ref_last [of e1 _ ?old] by (simp_all add: written_def)
  obtain e2 where e2: "set_value_mut (upd ?old) e1 = Done e2"
    "map iv_value (transactions e2) = written (upd ?old) ?first (versions m k)"
    using set_value_mut_values [OF ne, of "upd ?old"] e1(2) by (auto simp: written_def)
  let ?m' = "m\<lparr>changes := AList.update k e2 (changes m), dirty_keys := snd (insert_dirty k (dirty_keys m))\<rparr>"
  have "wrote k (upd ?old) m ?m'"
    using e2(2) d by (simp add: wrote_def versions_def distinct_update)
  with e1(1) e2(1) v show ?thesis
    by (intro that [of ?m']) (simp_all add: modify_conv)
qed

definition cleared :: "'k set \<Rightarrow> ('k \<Rightarrow> 'v option option) \<Rightarrow> 'k \<Rightarrow> 'v option option" where
  "cleared ks f k = (if k \<in> ks then Some None else f k)"

lemma clear_entries_refines:
  assumes "overlay_inv m" "\<And>kv. kv \<in> set kvs \<Longrightarrow> transactions (snd kv) \<noteq> []"
  shows "\<exists>m'. clear_entries x kvs m n =
      Done (m', n + of_nat (length (filter (\<lambda>kv. iv_value (last (transactions (snd kv))) \<noteq> None) kvs))) \<and>
    overlay_inv m' \<and> snapshots m' = butlast (snapshots m) @ [cleared (fst ` set kvs) (current m)] \<and>
    num_client_transactions m' = num_client_transactions m \<and> execution_mode m' = execution_mode m"
  using assms
proof (induction kvs arbitrary: m n)
  case Nil
  have "cleared {} (current m) = last (snapshots m)"
    by (rule ext) (simp add: cleared_def last_snapshots)
  with Nil show ?case by simp
next
  case (Cons kv kvs)
  obtain m1 where m1: "set_map (fst kv) None x m = Done m1" "wrote (fst kv) None m m1"
    using set_map_wrote overlay_inv_countD(5) [OF Cons.prems(1)] by metis
  let ?n1 = "if iv_value (last (transactions (snd kv))) \<noteq> None then n + 1 else n"
  obtain m' where m': "clear_entries x kvs m1 ?n1 =
      Done (m', ?n1 + of_nat (length (filter (\<lambda>kv. iv_value (last (transactions (snd kv))) \<noteq> None) kvs)))"
    "overlay_inv m'" "snapshots m' = butlast (snapshots m1) @ [cleared (fst ` set kvs) (current m1)]"
    "num_client_transactions m' = num_client_transactions m1" "execution_mode m' = execution_mode m1"
    using Cons.IH [OF wrote_inv [OF Cons.prems(1) m1(2)]] Cons.prems(2) by fastforce
  have "cleared (fst ` set kvs) (current m1) = cleared (fst ` set (kv # kvs)) (current m)"
    by (rule ext) (auto simp: cleared_def wrote_current [OF m1(2)])
  with m' m1 Cons.prems show ?case
    by (auto simp: value_ref_def wrote_snapshots) (simp_all add: wrote_def)
qed

section \<open>The contract of a transactional store\<close>

text \<open>\<open>closable_level m\<close> is how many transactions the present mode lets the caller close.\<close>

definition closable_level :: "('k, 'v) overlayed_map \<Rightarrow> nat" where
  "closable_level m =
     (if execution_mode m = Runtime then transaction_depth m - num_client_transactions m
      else transaction_depth m)"

definition changeset_inv :: "('k, 'v) overlayed_map \<Rightarrow> bool" where
  "changeset_inv m \<longleftrightarrow>
     overlay_inv m \<and> (execution_mode m = Runtime \<longrightarrow> num_client_transactions m \<le> transaction_depth m)"

lemma may_close_iff: "may_close m \<longleftrightarrow> 0 < closable_level m"
  by (auto simp: may_close_def closable_level_def has_open_runtime_transactions_def transaction_depth_def)

lemma changeset_invD: "changeset_inv m \<Longrightarrow> overlay_inv m"
  by (simp add: changeset_inv_def)

text \<open>
  A transactional store keeps a stack of views of its contents.  The laws say what starting,
  committing and rolling back do to that stack, and that closing succeeds whenever the level
  is not zero.
\<close>

locale snapshot_store =
  fixes inv :: "'s \<Rightarrow> bool"
    and snaps :: "'s \<Rightarrow> 'a list"
    and level :: "'s \<Rightarrow> nat"
    and start :: "'s \<Rightarrow> 's"
    and commit :: "'s \<Rightarrow> ('s \<times> (unit, no_open_transaction) result) exec"
    and rollback :: "'s \<Rightarrow> ('s \<times> (unit, no_open_transaction) result) exec"
  assumes snaps_ne: "inv s \<Longrightarrow> snaps s \<noteq> []"
    and start_law: "inv s \<Longrightarrow> inv (start s) \<and> snaps (start s) = snaps s @ [last (snaps s)] \<and>
      level (start s) = Suc (level s)"
    and commit_law: "inv s \<Longrightarrow> level s = Suc n \<Longrightarrow> \<exists>s'. commit s = Done (s', Ok ()) \<and> inv s' \<and>
      snaps s' = butlast (butlast (snaps s)) @ [last (snaps s)] \<and> level s' = n"
    and rollback_law: "inv s \<Longrightarrow> level s = Suc n \<Longrightarrow> \<exists>s'. rollback s = Done (s', Ok ()) \<and> inv s' \<and>
      snaps s' = butlast (snaps s) \<and> level s' = n"
begin

lemma start_rollback:
  assumes "inv s"
  shows "\<exists>s'. rollback (start s) = Done (s', Ok ()) \<and> inv s' \<and> snaps s' = snaps s \<and> level s' = level s"
  using rollback_law [of "start s" "level s"] start_law [OF assms] by simp

lemma start_commit:
  assumes "inv s"
  shows "\<exists>s'. commit (start s) = Done (s', Ok ()) \<and> inv s' \<and> snaps s' = snaps s \<and> level s' = level s"
  using commit_law [of "start s" "level s"] start_law [OF assms] snaps_ne [OF assms]
  by (simp add: butlast_append)

end

lemma changeset_start:
  assumes "changeset_inv m"
  shows "changeset_inv (start_transaction m)"
    "closable_level (start_transaction m) = Suc (closable_level m)"
proof -
  have "execution_mode (start_transaction m) = execution_mode m"
    "num_client_transactions (start_transaction m) = num_client_transactions m"
    by (simp_all add: start_transaction_def)
  with assms show "changeset_inv (start_transaction m)"
    "closable_level (start_transaction m) = Suc (closable_level m)"
    by (auto simp: changeset_inv_def overlay_inv_start closable_level_def)
qed

lemma changeset_commit:
  assumes inv: "changeset_inv m" and lv: "closable_level m = Suc n"
  obtains m' where "commit_transaction m = Done (m', Ok ())" "changeset_inv m'"
    "snapshots m' = butlast (butlast (snapshots m)) @ [current m]" "closable_level m' = n"
    "transaction_depth m = Suc (transaction_depth m')"
    "num_client_transactions m' = num_client_transactions m" "execution_mode m' = execution_mode m"
proof -
  obtain m' where m': "commit_transaction m = Done (m', Ok ())" "overlay_inv m'"
    "snapshots m' = butlast (butlast (snapshots m)) @ [current m]"
    "Suc (transaction_depth m') = transaction_depth m"
    "num_client_transactions m' = num_client_transactions m" "execution_mode m' = execution_mode m"
    using commit_refines [OF changeset_invD [OF inv]] lv by (metis may_close_iff zero_less_Suc)
  with inv lv show ?thesis
    by (intro that [of m']) (auto simp: changeset_inv_def closable_level_def split: if_splits)
qed

lemma changeset_rollback:
  assumes inv: "changeset_inv m" and lv: "closable_level m = Suc n"
  obtains m' where "rollback_transaction m = Done (m', Ok ())" "changeset_inv m'"
    "snapshots m' = butlast (snapshots m)" "closable_level m' = n"
    "transaction_depth m = Suc (transaction_depth m')"
    "num_client_transactions m' = num_client_transactions m" "execution_mode m' = execution_mode m"
proof -
  obtain m' where m': "rollback_transaction m = Done (m', Ok ())" "overlay_inv m'"
    "snapshots m' = butlast (snapshots m)" "Suc (transaction_depth m') = transaction_depth m"
    "num_client_transactions m' = num_client_transactions m" "execution_mode m' = execution_mode m"
    using rollback_refines [OF changeset_invD [OF inv]] lv by (metis may_close_iff zero_less_Suc)
  with inv lv show ?thesis
    by (intro that [of m']) (auto simp: changeset_inv_def closable_level_def split: if_splits)
qed

interpretation changeset: snapshot_store changeset_inv snapshots closable_level start_transaction
  commit_transaction rollback_transaction
proof (unfold_locales, goal_cases)
  case (1 s)
  show ?case by simp
next
  case (2 s)
  then show ?case by (simp add: changeset_start snapshots_start last_snapshots)
next
  case (3 s n)
  then show ?case by (metis changeset_commit last_snapshots)
next
  case (4 s n)
  then show ?case by (metis changeset_rollback)
qed

section \<open>Simulation of arbitrary operation sequences\<close>

datatype ('k, 'v) overlay_op =
    OpSet 'k "'v option" "u32 option"
  | OpModify 'k 'v "u32 option" "'v option \<Rightarrow> 'v option"
  | OpClear "'k \<Rightarrow> bool" "u32 option"
  | OpStart
  | OpCommit
  | OpRollback
  | OpEnter
  | OpExit

text \<open>One operation on the change set; the flag says whether it returned \<open>Ok\<close>.\<close>

fun apply_op ::
  "('k::linorder, 'v) overlay_op \<Rightarrow> ('k, 'v option) overlayed_map \<Rightarrow> (('k, 'v option) overlayed_map \<times> bool) exec" where
  "apply_op (OpSet k v x) m = bind_exec (set_map k v x m) (\<lambda>m. Done (m, True))"
| "apply_op (OpModify k init x upd) m = bind_exec (modify k init x upd m) (\<lambda>m. Done (m, True))"
| "apply_op (OpClear p x) m = bind_exec (clear_where (\<lambda>k _. p k) x m) (\<lambda>(m, _). Done (m, True))"
| "apply_op OpStart m = Done (start_transaction m, True)"
| "apply_op OpCommit m = bind_exec (commit_transaction m) (\<lambda>(m, r). Done (m, is_ok r))"
| "apply_op OpRollback m = bind_exec (rollback_transaction m) (\<lambda>(m, r). Done (m, is_ok r))"
| "apply_op OpEnter m = (case enter_runtime m of (m, r) \<Rightarrow> Done (m, is_ok r))"
| "apply_op OpExit m = bind_exec (exit_runtime m) (\<lambda>(m, r). Done (m, is_ok r))"

primrec run_ops ::
  "('k::linorder, 'v) overlay_op list \<Rightarrow> ('k, 'v option) overlayed_map \<Rightarrow>
   (('k, 'v option) overlayed_map \<times> bool list) exec" where
  "run_ops [] m = Done (m, [])"
| "run_ops (p # ps) m =
     bind_exec (apply_op p m) (\<lambda>(m, ok). bind_exec (run_ops ps m) (\<lambda>(m, oks). Done (m, ok # oks)))"

text \<open>The abstract machine: a stack of plain maps, without versions or dirty sets.\<close>

record ('k, 'v) snapshot_stack =
  stack :: "('k \<Rightarrow> 'v option option) list"
  stack_mode :: execution_mode
  stack_client :: nat

definition stack_closable :: "('k, 'v) snapshot_stack \<Rightarrow> bool" where
  "stack_closable a \<longleftrightarrow> 1 < length (stack a) \<and>
     (stack_mode a = Runtime \<longrightarrow> stack_client a < length (stack a) - 1)"

definition set_top :: "('k \<Rightarrow> 'v option option) \<Rightarrow> ('k, 'v) snapshot_stack \<Rightarrow> ('k, 'v) snapshot_stack" where
  "set_top f a = a\<lparr>stack := butlast (stack a) @ [f]\<rparr>"

fun stack_op :: "('k, 'v) overlay_op \<Rightarrow> ('k, 'v) snapshot_stack \<Rightarrow> ('k, 'v) snapshot_stack \<times> bool" where
  "stack_op (OpSet k v x) a = (set_top ((last (stack a))(k \<mapsto> v)) a, True)"
| "stack_op (OpModify k init x upd) a =
     (set_top ((last (stack a))(k \<mapsto> upd (case last (stack a) k of Some v \<Rightarrow> v | None \<Rightarrow> Some init))) a, True)"
| "stack_op (OpClear p x) a =
     (set_top (\<lambda>k. if p k \<and> last (stack a) k \<noteq> None then Some None else last (stack a) k) a, True)"
| "stack_op OpStart a = (a\<lparr>stack := stack a @ [last (stack a)]\<rparr>, True)"
| "stack_op OpCommit a =
     (if stack_closable a then (a\<lparr>stack := butlast (butlast (stack a)) @ [last (stack a)]\<rparr>, True) else (a, False))"
| "stack_op OpRollback a =
     (if stack_closable a then (a\<lparr>stack := butlast (stack a)\<rparr>, True) else (a, False))"
| "stack_op OpEnter a =
     (if stack_mode a = Runtime then (a, False)
      else (a\<lparr>stack_mode := Runtime, stack_client := length (stack a) - 1\<rparr>, True))"
| "stack_op OpExit a =
     (if stack_mode a = Client then (a, False)
      else (a\<lparr>stack := take (Suc (stack_client a)) (stack a), stack_mode := Client\<rparr>, True))"

primrec stack_ops :: "('k, 'v) overlay_op list \<Rightarrow> ('k, 'v) snapshot_stack \<Rightarrow> ('k, 'v) snapshot_stack \<times> bool list" where
  "stack_ops [] a = (a, [])"
| "stack_ops (p # ps) a =
     (case stack_op p a of (a, ok) \<Rightarrow> case stack_ops ps a of (a, oks) \<Rightarrow> (a, ok # oks))"

definition abs_stack :: "('k, 'v option) overlayed_map \<Rightarrow> ('k, 'v) snapshot_stack" where
  "abs_stack m = \<lparr>stack = snapshots m, stack_mode = execution_mode m, stack_client = num_client_transactions m\<rparr>"

lemma abs_stack_simps [simp]:
  "stack (abs_stack m) = snapshots m" "stack_mode (abs_stack m) = execution_mode m"
  "stack_client (abs_stack m) = num_client_transactions m"
  by (simp_all add: abs_stack_def)

lemma stack_closable_abs: "stack_closable (abs_stack m) \<longleftrightarrow> may_close m"
  by (auto simp: stack_closable_def may_close_def has_open_runtime_transactions_def transaction_depth_def)

lemma wrote_changeset_inv: "changeset_inv m \<Longrightarrow> wrote k v m m' \<Longrightarrow> changeset_inv m'"
  by (auto simp: changeset_inv_def wrote_inv wrote_depth) (auto simp: wrote_def wrote_depth)

lemma wrote_abs_stack:
  "changeset_inv m \<Longrightarrow> wrote k v m m' \<Longrightarrow> abs_stack m' = set_top ((last (snapshots m))(k \<mapsto> v)) (abs_stack m)"
  by (simp add: abs_stack_def set_top_def wrote_snapshots changeset_invD last_snapshots) (simp add: wrote_def)

lemma keys_of_changes_iter [simp]: "set (changes_iter m) = set (changes m)"
  by (simp add: changes_iter_def)

lemma get_in_changes:
  "overlay_inv m \<Longrightarrow> (k, e) \<in> set (changes m) \<longleftrightarrow> get k m = Some e"
  by (simp add: get_def overlay_inv_countD(5))

lemma overlay_inv_current_iff: "overlay_inv m \<Longrightarrow> current m k \<noteq> None \<longleftrightarrow> get k m \<noteq> None"
  using overlay_inv_countD(3) [of m k] by (auto simp: current_conv_get versions_def split: option.splits)

lemma clear_where_refines:
  assumes inv: "changeset_inv m"
  obtains m' n where "clear_where (\<lambda>k _. p k) x m = Done (m', n)" "changeset_inv m'"
    "abs_stack m' = set_top (\<lambda>k. if p k \<and> last (snapshots m) k \<noteq> None then Some None else last (snapshots m) k)
       (abs_stack m)"
proof -
  let ?kvs = "filter (\<lambda>(k, _). p k) (changes_iter m)"
  have ov: "overlay_inv m" by (rule changeset_invD [OF inv])
  have ne: "transactions (snd kv) \<noteq> []" if "kv \<in> set ?kvs" for kv
    using that overlay_invD(3) [OF ov, of "fst kv"] get_in_changes [OF ov, of "fst kv" "snd kv"] by auto
  have "p k \<and> current m k \<noteq> None \<longleftrightarrow> k \<in> fst ` set ?kvs" for k
    using get_in_changes [OF ov] overlay_inv_current_iff [OF ov, of k] by (force simp: image_iff)
  then have cl: "cleared (fst ` set ?kvs) (current m) =
      (\<lambda>k. if p k \<and> last (snapshots m) k \<noteq> None then Some None else last (snapshots m) k)"
    by (auto simp: cleared_def last_snapshots intro!: ext)
  obtain m' n where "clear_entries x ?kvs m 0 = Done (m', n)" "overlay_inv m'"
    "snapshots m' = butlast (snapshots m) @ [cleared (fst ` set ?kvs) (current m)]"
    "num_client_transactions m' = num_client_transactions m" "execution_mode m' = execution_mode m"
    using clear_entries_refines [OF ov ne, where x = x and n = 0] by blast
  moreover from this(3) have "transaction_depth m' = transaction_depth m"
    using length_snapshots [of m'] by simp
  ultimately show ?thesis
    using inv cl by (intro that [of m' n]) (auto simp: clear_where_def changeset_inv_def abs_stack_def set_top_def)
qed

lemma exit_runtime_refines:
  assumes inv: "changeset_inv m" and mode: "execution_mode m = Runtime"
  obtains m' where "exit_runtime m = Done (m', Ok ())" "changeset_inv m'" "execution_mode m' = Client"
    "snapshots m' = take (Suc (num_client_transactions m)) (snapshots m)"
    "num_client_transactions m' = num_client_transactions m"
proof -
  have "\<exists>m'. rollback_open (m\<lparr>execution_mode := Client\<rparr>) = Done m' \<and> overlay_inv m' \<and> execution_mode m' = Client \<and>
      snapshots m' = take (Suc (num_client_transactions m)) (snapshots m) \<and>
      num_client_transactions m' = num_client_transactions m"
    using rollback_open_refines [of "m\<lparr>execution_mode := Client\<rparr>"] inv mode by (simp add: changeset_inv_def)
  with mode that show ?thesis
    by (auto simp: exit_runtime_def changeset_inv_def)
qed

definition simulates :: "('k::linorder, 'v) overlay_op \<Rightarrow> ('k, 'v option) overlayed_map \<Rightarrow> bool" where
  "simulates p m \<longleftrightarrow>
     (\<exists>m' ok. apply_op p m = Done (m', ok) \<and> changeset_inv m' \<and> stack_op p (abs_stack m) = (abs_stack m', ok))"

lemma simulatesI:
  "apply_op p m = Done (m', ok) \<Longrightarrow> changeset_inv m' \<Longrightarrow> stack_op p (abs_stack m) = (abs_stack m', ok) \<Longrightarrow>
   simulates p m"
  by (auto simp: simulates_def)

lemma simulates_set: "changeset_inv m \<Longrightarrow> simulates (OpSet k v x) m"
  by (rule set_map_wrote [OF overlay_inv_countD(5) [OF changeset_invD]], assumption)
    (auto intro!: simulatesI simp: wrote_changeset_inv wrote_abs_stack)

lemma simulates_modify: "changeset_inv m \<Longrightarrow> simulates (OpModify k init x upd) m"
  by (rule modify_wrote [OF overlay_inv_countD(5) [OF changeset_invD]], assumption)
    (auto intro!: simulatesI simp: wrote_changeset_inv wrote_abs_stack last_snapshots)

lemma simulates_clear: "changeset_inv m \<Longrightarrow> simulates (OpClear q x) m"
  by (erule clear_where_refines [where p = q and x = x]) (auto intro!: simulatesI cong: if_cong)

lemma simulates_start: "changeset_inv m \<Longrightarrow> simulates OpStart m"
  using changeset.start_law [of m]
  by (auto intro!: simulatesI simp: abs_stack_def) (simp_all add: start_transaction_def)

lemma simulates_commit:
  assumes inv: "changeset_inv m"
  shows "simulates OpCommit m"
proof (cases "closable_level m")
  case 0
  with inv show ?thesis
    by (intro simulatesI [where ok = False]) (simp_all add: commit_transaction_def close_transaction_Err may_close_iff stack_closable_abs)
next
  case (Suc n)
  then have c: "stack_closable (abs_stack m)"
    by (simp add: stack_closable_abs may_close_iff)
  show ?thesis
    by (rule changeset_commit [OF inv Suc], rule simulatesI [where ok = True])
      (simp_all add: c last_snapshots, simp add: abs_stack_def)
qed

lemma simulates_rollback:
  assumes inv: "changeset_inv m"
  shows "simulates OpRollback m"
proof (cases "closable_level m")
  case 0
  with inv show ?thesis
    by (intro simulatesI [where ok = False]) (simp_all add: rollback_transaction_def close_transaction_Err may_close_iff stack_closable_abs)
next
  case (Suc n)
  then have c: "stack_closable (abs_stack m)"
    by (simp add: stack_closable_abs may_close_iff)
  show ?thesis
    by (rule changeset_rollback [OF inv Suc], rule simulatesI [where ok = True])
      (simp_all add: c, simp add: abs_stack_def)
qed

lemma simulates_enter: "changeset_inv m \<Longrightarrow> simulates OpEnter m"
  by (cases "execution_mode m")
    (auto intro!: simulatesI simp: enter_runtime_def abs_stack_def changeset_inv_def
      same_contents [of "m\<lparr>execution_mode := Runtime, num_client_transactions := transaction_depth m\<rparr>" m])

lemma simulates_exit: "changeset_inv m \<Longrightarrow> simulates OpExit m"
proof (cases "execution_mode m")
  case Client
  moreover assume "changeset_inv m"
  ultimately show ?thesis by (intro simulatesI [where ok = False]) (simp_all add: exit_runtime_def)
next
  case Runtime
  moreover assume "changeset_inv m"
  ultimately show ?thesis
    by - (rule exit_runtime_refines, auto intro!: simulatesI simp: abs_stack_def)
qed

lemma apply_op_simulates: "changeset_inv m \<Longrightarrow> simulates p m"
  by (cases p) (simp_all add: simulates_set simulates_modify simulates_clear simulates_start
      simulates_commit simulates_rollback simulates_enter simulates_exit)

lemma run_ops_simulates:
  assumes "changeset_inv m"
  shows "\<exists>m' oks. run_ops ps m = Done (m', oks) \<and> changeset_inv m' \<and> stack_ops ps (abs_stack m) = (abs_stack m', oks)"
  using assms
proof (induction ps arbitrary: m)
  case (Cons p ps)
  obtain m1 ok where m1: "apply_op p m = Done (m1, ok)" "changeset_inv m1"
    "stack_op p (abs_stack m) = (abs_stack m1, ok)"
    using apply_op_simulates [OF Cons.prems, of p] by (auto simp: simulates_def)
  with Cons.IH [OF m1(2)] show ?case by auto
qed simp

text \<open>
  C1: The versioned change set refines the stack of snapshots.  Every sequence of writes,
  in-place modifications, prefix clears, transaction starts, commits, rollbacks and runtime
  entries and exits, run on an empty change set, finishes without panicking, returns
  \<open>Ok\<close> and \<open>Err\<close> exactly where the abstract machine does, and ends with the snapshots,
  the execution mode and the client transaction count of the abstract machine.
\<close>

theorem changeset_refines_snapshot_stack:
  "\<exists>m oks. run_ops ps default_map = Done (m, oks) \<and>
     stack_ops ps \<lparr>stack = [Map.empty], stack_mode = Client, stack_client = 0\<rparr> = (abs_stack m, oks)"
proof -
  have "changeset_inv (default_map :: ('a, 'b option) overlayed_map)"
    by (simp add: changeset_inv_def overlay_inv_default) (simp add: default_map_def)
  moreover have "abs_stack (default_map :: ('a, 'b option) overlayed_map) =
      \<lparr>stack = [Map.empty], stack_mode = Client, stack_client = 0\<rparr>"
    by (simp add: abs_stack_def snapshots_default) (simp add: default_map_def)
  ultimately show ?thesis
    using run_ops_simulates [of "default_map :: ('a, 'b option) overlayed_map" ps] by auto
qed

section \<open>Draining and leaving the runtime\<close>

lemma pop_values_Done:
  assumes "\<And>kv. kv \<in> set kvs \<Longrightarrow> transactions (snd kv) \<noteq> []"
  shows "pop_values kvs = Done (map (\<lambda>(k, e). (k, iv_value (last (transactions e)))) kvs)"
  using assms by (induction kvs) (auto simp: pop_transaction_def)

lemma sorted_map_fst_changes_iter: "sorted (map fst (changes_iter m))"
  by (simp add: changes_iter_def)

lemma map_of_changes_iter:
  assumes "overlay_inv m"
  shows "map_of (changes_iter m) k = get k m" "distinct (map fst (changes_iter m))"
proof -
  have d: "distinct (map fst (changes m))" by (rule overlay_inv_countD(5) [OF assms])
  then show d': "distinct (map fst (changes_iter m))"
    by (metis changes_iter_def distinct_map distinct_sort inj_on_cong set_sort)
  show "map_of (changes_iter m) k = get k m"
    unfolding get_def by (rule map_of_eqI [THEN fun_cong]) (use d d' in \<open>auto simp: changes_iter_def\<close>)
qed

text \<open>
  C20: Draining a change set with no open transaction yields exactly the current contents,
  every written key once and in ascending order; with a transaction open it panics.
\<close>

theorem drain_commited_contents:
  assumes "changeset_inv m"
  shows "if transaction_depth m = 0
    then \<exists>kvs. drain_commited m = Done kvs \<and> map_of kvs = current m \<and> sorted (map fst kvs) \<and> distinct (map fst kvs)
    else drain_commited m = Panic"
proof (cases "transaction_depth m = 0")
  case True
  have ov: "overlay_inv m" by (rule changeset_invD [OF assms])
  let ?f = "\<lambda>e :: 'b overlayed_entry. iv_value (last (transactions e))"
  let ?kvs = "map (\<lambda>(k, e). (k, ?f e)) (changes_iter m)"
  have ne: "transactions (snd kv) \<noteq> []" if "kv \<in> set (changes_iter m)" for kv
    using that overlay_invD(3) [OF ov, of "fst kv"] get_in_changes [OF ov, of "fst kv" "snd kv"] by auto
  have "pop_values (changes_iter m) = Done ?kvs"
    by (rule pop_values_Done) (rule ne)
  then have "drain_commited m = Done ?kvs"
    using True by (simp add: drain_commited_def)
  moreover have "map_of ?kvs k = current m k" for k
    using map_of_changes_iter(1) [OF ov, of k] overlay_invD(3) [OF ov, of k]
    by (auto simp: map_of_map current_conv_get split: option.splits)
  moreover have "sorted (map fst ?kvs) \<and> distinct (map fst ?kvs)"
    using sorted_map_fst_changes_iter [of m] map_of_changes_iter(2) [OF ov]
    by (simp add: comp_def case_prod_unfold)
  ultimately show ?thesis
    using True by auto
qed (simp add: drain_commited_def)


text \<open>A change set in which the runtime left one transaction open that overwrote key 7.\<close>

definition dangling_example :: "(nat, string option) overlayed_map" where
  "dangling_example = \<lparr>
     changes = [(7, \<lparr>transactions = [\<lparr>iv_value = Some ''old'', iv_extrinsics = []\<rparr>,
       \<lparr>iv_value = Some ''new'', iv_extrinsics = []\<rparr>]\<rparr>)],
     dirty_keys = [[7]], num_client_transactions = 0, execution_mode = Runtime\<rparr>"

lemma dangling_example_inv: "changeset_inv dangling_example"
  by (auto simp: changeset_inv_def overlay_inv_def dangling_example_def get_def transaction_depth_def)

theorem drain_commited_contents_witness:
  "changeset_inv dangling_example \<and> drain_commited dangling_example = Panic"
  using drain_commited_contents [OF dangling_example_inv] dangling_example_inv
  by (simp add: dangling_example_def transaction_depth_def)


end
