(* ===== verification/Overlay.thy ===== *)
theory Overlay
  imports Changeset
begin

text \<open>
  The overlay of \<open>primitives/state-machine/src/overlayed_changes/mod.rs\<close> and
  \<open>overlayed_changes/offchain.rs\<close>: a top change set, one change set per child trie and
  the off-chain index, transacted in lockstep.  The \<open>expect\<close>s of the source on the
  children and the off-chain part are panics of the model, and the lockstep invariant shows that
  none of them is reached.  Read and write statistics (\<open>StateMachineStats\<close>) are
  not part of the state, and a \<open>ChildInfo\<close> is its storage key.
\<close>

section \<open>Data\<close>

datatype offchain_overlayed_change = Remove | SetValue bytes

datatype index_operation =
    Insert u32 bytes u32
  | Renew u32 bytes

type_synonym change_set = "(bytes, bytes option) overlayed_map"
type_synonym offchain_overlayed_changes = "(bytes \<times> bytes, offchain_overlayed_change) overlayed_map"

record overlayed_changes =
  top_changes :: change_set
  children :: "(bytes \<times> change_set) list"
  offchain :: offchain_overlayed_changes
  transaction_index_ops :: "index_operation list"
  collect_extrinsics :: bool

definition STORAGE_PREFIX :: bytes where
  "STORAGE_PREFIX = str_bytes ''storage''"

definition EXTRINSIC_INDEX :: bytes where
  "EXTRINSIC_INDEX = str_bytes '':extrinsic_index''"

definition NO_EXTRINSIC_INDEX :: u32 where
  "NO_EXTRINSIC_INDEX = 0xffffffff"

definition default_changes :: overlayed_changes where
  "default_changes = \<lparr>top_changes = default_map, children = [], offchain = default_map,
     transaction_index_ops = [], collect_extrinsics = False\<rparr>"

section \<open>The off-chain index\<close>

primrec into_values :: "('k \<times> 'v overlayed_entry) list \<Rightarrow> ('k \<times> 'v) list exec" where
  "into_values [] = Done []"
| "into_values (kv # kvs) =
     bind_exec (into_value (snd kv)) (\<lambda>v. bind_exec (into_values kvs) (\<lambda>rest. Done ((fst kv, v) # rest)))"

definition offchain_into_iter ::
  "offchain_overlayed_changes \<Rightarrow> ((bytes \<times> bytes) \<times> offchain_overlayed_change) list exec" where
  "offchain_into_iter m = into_values (changes_iter m)"

definition offchain_drain ::
  "offchain_overlayed_changes \<Rightarrow>
   (((bytes \<times> bytes) \<times> offchain_overlayed_change) list \<times> offchain_overlayed_changes) exec" where
  "offchain_drain m = bind_exec (offchain_into_iter m) (\<lambda>kvs. Done (kvs, default_map))"

definition offchain_remove ::
  "bytes \<Rightarrow> bytes \<Rightarrow> offchain_overlayed_changes \<Rightarrow> offchain_overlayed_changes exec" where
  "offchain_remove prefix key m = set_map (prefix, key) Remove None m"

definition offchain_set ::
  "bytes \<Rightarrow> bytes \<Rightarrow> bytes \<Rightarrow> offchain_overlayed_changes \<Rightarrow> offchain_overlayed_changes exec" where
  "offchain_set prefix key v m = set_map (prefix, key) (SetValue v) None m"

definition offchain_get ::
  "bytes \<Rightarrow> bytes \<Rightarrow> offchain_overlayed_changes \<Rightarrow> offchain_overlayed_change option exec" where
  "offchain_get prefix key m =
     (case get (prefix, key) m of
        Some entry \<Rightarrow> bind_exec (value_ref entry) (\<lambda>v. Done (Some v))
      | None \<Rightarrow> Done None)"

section \<open>Reading and writing\<close>

definition is_empty_changes :: "overlayed_changes \<Rightarrow> bool" where
  "is_empty_changes oc = (is_empty_map (top_changes oc) \<and> children oc = [])"

definition set_collect_extrinsics :: "bool \<Rightarrow> overlayed_changes \<Rightarrow> overlayed_changes" where
  "set_collect_extrinsics b oc = oc\<lparr>collect_extrinsics := b\<rparr>"

definition entry_value :: "'v overlayed_entry option \<Rightarrow> 'v option exec" where
  "entry_value e = (case e of Some x \<Rightarrow> bind_exec (value_ref x) (\<lambda>v. Done (Some v)) | None \<Rightarrow> Done None)"

definition storage :: "bytes \<Rightarrow> overlayed_changes \<Rightarrow> bytes option option exec" where
  "storage key oc = entry_value (get key (top_changes oc))"

definition child_storage :: "bytes \<Rightarrow> bytes \<Rightarrow> overlayed_changes \<Rightarrow> bytes option option exec" where
  "child_storage child_info key oc =
     (case map_of (children oc) child_info of
        None \<Rightarrow> Done None
      | Some m \<Rightarrow> entry_value (get key m))"

text \<open>The SCALE decoder of a \<open>u32\<close> is the parameter \<open>dec\<close>.\<close>

definition extrinsic_index :: "(bytes \<Rightarrow> u32 option) \<Rightarrow> overlayed_changes \<Rightarrow> u32 option exec" where
  "extrinsic_index dec oc =
     (if collect_extrinsics oc
      then bind_exec (storage EXTRINSIC_INDEX oc) (\<lambda>s. Done (Some
        (case s of
           Some (Some idx) \<Rightarrow> (case dec idx of Some i \<Rightarrow> i | None \<Rightarrow> NO_EXTRINSIC_INDEX)
         | _ \<Rightarrow> NO_EXTRINSIC_INDEX)))
      else Done None)"

definition set_storage ::
  "(bytes \<Rightarrow> u32 option) \<Rightarrow> bytes \<Rightarrow> bytes option \<Rightarrow> overlayed_changes \<Rightarrow> overlayed_changes exec" where
  "set_storage dec key val oc =
     bind_exec (extrinsic_index dec oc) (\<lambda>x.
     bind_exec (set_map key val x (top_changes oc)) (\<lambda>t.
     Done (oc\<lparr>top_changes := t\<rparr>)))"

definition value_mut_or_insert_with ::
  "(bytes \<Rightarrow> u32 option) \<Rightarrow> bytes \<Rightarrow> bytes \<Rightarrow> (bytes \<Rightarrow> bytes) \<Rightarrow> overlayed_changes \<Rightarrow> overlayed_changes exec" where
  "value_mut_or_insert_with dec key init upd oc =
     bind_exec (extrinsic_index dec oc) (\<lambda>x.
     bind_exec (modify key init x (\<lambda>v. Some (upd (case v of Some b \<Rightarrow> b | None \<Rightarrow> []))) (top_changes oc)) (\<lambda>t.
     Done (oc\<lparr>top_changes := t\<rparr>)))"

definition child_or_spawn :: "bytes \<Rightarrow> overlayed_changes \<Rightarrow> change_set" where
  "child_or_spawn child_info oc =
     (case map_of (children oc) child_info of Some m \<Rightarrow> m | None \<Rightarrow> spawn_child (top_changes oc))"

definition set_child_storage ::
  "(bytes \<Rightarrow> u32 option) \<Rightarrow> bytes \<Rightarrow> bytes \<Rightarrow> bytes option \<Rightarrow> overlayed_changes \<Rightarrow> overlayed_changes exec" where
  "set_child_storage dec child_info key val oc =
     bind_exec (extrinsic_index dec oc) (\<lambda>x.
     bind_exec (set_map key val x (child_or_spawn child_info oc)) (\<lambda>m.
     Done (oc\<lparr>children := AList.update child_info m (children oc)\<rparr>)))"

definition starts_with :: "'a list \<Rightarrow> 'a list \<Rightarrow> bool" where
  "starts_with key prefix = (take (length prefix) key = prefix)"

definition clear_child_prefix ::
  "(bytes \<Rightarrow> u32 option) \<Rightarrow> bytes \<Rightarrow> bytes \<Rightarrow> overlayed_changes \<Rightarrow> (overlayed_changes \<times> u32) exec" where
  "clear_child_prefix dec child_info prefix oc =
     bind_exec (extrinsic_index dec oc) (\<lambda>x.
     bind_exec (clear_where (\<lambda>key _. starts_with key prefix) x (child_or_spawn child_info oc)) (\<lambda>(m, n).
     Done (oc\<lparr>children := AList.update child_info m (children oc)\<rparr>, n)))"

definition clear_child_storage ::
  "(bytes \<Rightarrow> u32 option) \<Rightarrow> bytes \<Rightarrow> overlayed_changes \<Rightarrow> (overlayed_changes \<times> u32) exec" where
  "clear_child_storage dec child_info oc =
     bind_exec (extrinsic_index dec oc) (\<lambda>x.
     bind_exec (clear_where (\<lambda>_ _. True) x (child_or_spawn child_info oc)) (\<lambda>(m, n).
     Done (oc\<lparr>children := AList.update child_info m (children oc)\<rparr>, n)))"

definition clear_prefix ::
  "(bytes \<Rightarrow> u32 option) \<Rightarrow> bytes \<Rightarrow> overlayed_changes \<Rightarrow> (overlayed_changes \<times> u32) exec" where
  "clear_prefix dec prefix oc =
     bind_exec (extrinsic_index dec oc) (\<lambda>x.
     bind_exec (clear_where (\<lambda>key _. starts_with key prefix) x (top_changes oc)) (\<lambda>(m, n).
     Done (oc\<lparr>top_changes := m\<rparr>, n)))"

definition set_offchain_storage :: "bytes \<Rightarrow> bytes option \<Rightarrow> overlayed_changes \<Rightarrow> overlayed_changes exec" where
  "set_offchain_storage key v oc =
     bind_exec (case v of
         Some x \<Rightarrow> offchain_set STORAGE_PREFIX key x (offchain oc)
       | None \<Rightarrow> offchain_remove STORAGE_PREFIX key (offchain oc)) (\<lambda>m.
     Done (oc\<lparr>offchain := m\<rparr>))"

definition add_transaction_index :: "index_operation \<Rightarrow> overlayed_changes \<Rightarrow> overlayed_changes" where
  "add_transaction_index p oc = oc\<lparr>transaction_index_ops := transaction_index_ops oc @ [p]\<rparr>"

definition offchain_drain_committed ::
  "overlayed_changes \<Rightarrow> (((bytes \<times> bytes) \<times> offchain_overlayed_change) list \<times> overlayed_changes) exec" where
  "offchain_drain_committed oc =
     bind_exec (offchain_drain (offchain oc)) (\<lambda>(kvs, m). Done (kvs, oc\<lparr>offchain := m\<rparr>))"

primrec drain_children :: "(bytes \<times> change_set) list \<Rightarrow> (bytes \<times> (bytes \<times> bytes option) list) list exec" where
  "drain_children [] = Done []"
| "drain_children (c # cs) =
     bind_exec (drain_commited (snd c)) (\<lambda>kvs.
     bind_exec (drain_children cs) (\<lambda>rest. Done ((fst c, kvs) # rest)))"

definition drain_committed ::
  "overlayed_changes \<Rightarrow> (((bytes \<times> bytes option) list \<times>
     (bytes \<times> (bytes \<times> bytes option) list) list) \<times> overlayed_changes) exec" where
  "drain_committed oc =
     bind_exec (drain_commited (top_changes oc)) (\<lambda>main.
     bind_exec (drain_children (children oc)) (\<lambda>child.
     Done ((main, child), oc\<lparr>top_changes := default_map, children := []\<rparr>)))"

section \<open>Transactions in lockstep\<close>

text \<open>Apply an operation to every child and \<open>expect\<close> its success.\<close>

primrec on_children ::
  "(change_set \<Rightarrow> (change_set \<times> (unit, 'e) result) exec) \<Rightarrow> (bytes \<times> change_set) list \<Rightarrow>
   (bytes \<times> change_set) list exec" where
  "on_children f [] = Done []"
| "on_children f (c # cs) =
     bind_exec (f (snd c)) (\<lambda>(m, r).
     bind_exec (expect_ok r) (\<lambda>_.
     bind_exec (on_children f cs) (\<lambda>cs. Done ((fst c, m) # cs))))"

definition start_changes :: "overlayed_changes \<Rightarrow> overlayed_changes" where
  "start_changes oc = oc\<lparr>
     top_changes := start_transaction (top_changes oc),
     children := map (\<lambda>(k, m). (k, start_transaction m)) (children oc),
     offchain := start_transaction (offchain oc)\<rparr>"

definition rollback_changes ::
  "overlayed_changes \<Rightarrow> (overlayed_changes \<times> (unit, no_open_transaction) result) exec" where
  "rollback_changes oc =
     bind_exec (rollback_transaction (top_changes oc)) (\<lambda>(t, r).
     case r of
       Err e \<Rightarrow> Done (oc\<lparr>top_changes := t\<rparr>, Err e)
     | Ok _ \<Rightarrow>
         bind_exec (on_children rollback_transaction (children oc)) (\<lambda>cs.
         bind_exec (rollback_transaction (offchain oc)) (\<lambda>(f, r).
         bind_exec (expect_ok r) (\<lambda>_.
         Done (oc\<lparr>top_changes := t, children := filter (\<lambda>(_, m). \<not> is_empty_map m) cs, offchain := f\<rparr>, Ok ())))))"

definition commit_changes ::
  "overlayed_changes \<Rightarrow> (overlayed_changes \<times> (unit, no_open_transaction) result) exec" where
  "commit_changes oc =
     bind_exec (commit_transaction (top_changes oc)) (\<lambda>(t, r).
     case r of
       Err e \<Rightarrow> Done (oc\<lparr>top_changes := t\<rparr>, Err e)
     | Ok _ \<Rightarrow>
         bind_exec (on_children commit_transaction (children oc)) (\<lambda>cs.
         bind_exec (commit_transaction (offchain oc)) (\<lambda>(f, r).
         bind_exec (expect_ok r) (\<lambda>_.
         Done (oc\<lparr>top_changes := t, children := cs, offchain := f\<rparr>, Ok ())))))"

definition enter_runtime_changes ::
  "overlayed_changes \<Rightarrow> (overlayed_changes \<times> (unit, already_in_runtime) result) exec" where
  "enter_runtime_changes oc =
     (case enter_runtime (top_changes oc) of
        (t, Err e) \<Rightarrow> Done (oc\<lparr>top_changes := t\<rparr>, Err e)
      | (t, Ok _) \<Rightarrow>
          bind_exec (on_children (\<lambda>m. Done (enter_runtime m)) (children oc)) (\<lambda>cs.
          case enter_runtime (offchain oc) of (f, r) \<Rightarrow>
          bind_exec (expect_ok r) (\<lambda>_.
          Done (oc\<lparr>top_changes := t, children := cs, offchain := f\<rparr>, Ok ()))))"

definition exit_runtime_changes ::
  "overlayed_changes \<Rightarrow> (overlayed_changes \<times> (unit, not_in_runtime) result) exec" where
  "exit_runtime_changes oc =
     bind_exec (exit_runtime (top_changes oc)) (\<lambda>(t, r).
     case r of
       Err e \<Rightarrow> Done (oc\<lparr>top_changes := t\<rparr>, Err e)
     | Ok _ \<Rightarrow>
         bind_exec (on_children exit_runtime (children oc)) (\<lambda>cs.
         bind_exec (exit_runtime (offchain oc)) (\<lambda>(f, r).
         bind_exec (expect_ok r) (\<lambda>_.
         Done (oc\<lparr>top_changes := t, children := cs, offchain := f\<rparr>, Ok ())))))"

section \<open>The lockstep invariant and the views\<close>

definition in_step :: "('a, 'b) overlayed_map \<Rightarrow> ('c, 'd) overlayed_map \<Rightarrow> bool" where
  "in_step a b \<longleftrightarrow> transaction_depth a = transaction_depth b \<and>
     num_client_transactions a = num_client_transactions b \<and> execution_mode a = execution_mode b"

definition lockstep :: "overlayed_changes \<Rightarrow> bool" where
  "lockstep oc \<longleftrightarrow>
     changeset_inv (top_changes oc) \<and> changeset_inv (offchain oc) \<and> in_step (top_changes oc) (offchain oc) \<and>
     distinct (map fst (children oc)) \<and>
     (\<forall>c \<in> set (children oc). changeset_inv (snd c) \<and> in_step (top_changes oc) (snd c))"

definition child_view :: "overlayed_changes \<Rightarrow> nat \<Rightarrow> bytes \<Rightarrow> bytes \<Rightarrow> bytes option option" where
  "child_view oc j sk = (case map_of (children oc) sk of None \<Rightarrow> Map.empty | Some m \<Rightarrow> snapshot m j)"

type_synonym overlay_view =
  "(bytes \<Rightarrow> bytes option option) \<times> (bytes \<Rightarrow> bytes \<Rightarrow> bytes option option) \<times>
   (bytes \<times> bytes \<Rightarrow> offchain_overlayed_change option)"

definition view_at :: "overlayed_changes \<Rightarrow> nat \<Rightarrow> overlay_view" where
  "view_at oc j = (snapshot (top_changes oc) j, child_view oc j, snapshot (offchain oc) j)"

definition depth_changes :: "overlayed_changes \<Rightarrow> nat" where
  "depth_changes oc = transaction_depth (top_changes oc)"

definition views :: "overlayed_changes \<Rightarrow> overlay_view list" where
  "views oc = map (view_at oc) [0..<Suc (depth_changes oc)]"

definition level_changes :: "overlayed_changes \<Rightarrow> nat" where
  "level_changes oc = closable_level (top_changes oc)"

lemma lockstepD:
  assumes "lockstep oc"
  shows "changeset_inv (top_changes oc)" "changeset_inv (offchain oc)"
    "in_step (top_changes oc) (offchain oc)" "distinct (map fst (children oc))"
    "c \<in> set (children oc) \<Longrightarrow> changeset_inv (snd c)"
    "c \<in> set (children oc) \<Longrightarrow> in_step (top_changes oc) (snd c)"
  using assms by (auto simp: lockstep_def)

lemma in_step_level: "in_step a b \<Longrightarrow> closable_level a = closable_level b"
  by (simp add: in_step_def closable_level_def)

lemma length_views [simp]: "length (views oc) = Suc (depth_changes oc)"
  by (simp add: views_def)

lemma nth_views: "j \<le> depth_changes oc \<Longrightarrow> views oc ! j = view_at oc j"
  by (simp add: views_def del: upt_Suc)

lemma last_views: "last (views oc) = view_at oc (depth_changes oc)"
  by (simp add: views_def)

lemma views_eqI:
  assumes "length vs = Suc (depth_changes oc)" "\<And>j. j \<le> depth_changes oc \<Longrightarrow> view_at oc j = vs ! j"
  shows "views oc = vs"
  by (rule nth_equalityI) (auto simp: assms nth_views)

text \<open>What one change set goes through when its top transaction is dropped or merged.\<close>

definition rolled :: "('k, 'v) overlayed_map \<Rightarrow> ('k, 'v) overlayed_map \<Rightarrow> bool" where
  "rolled m m' \<longleftrightarrow> changeset_inv m' \<and> snapshots m' = butlast (snapshots m) \<and>
     transaction_depth m = Suc (transaction_depth m') \<and>
     num_client_transactions m' = num_client_transactions m \<and> execution_mode m' = execution_mode m"

definition merged :: "('k, 'v) overlayed_map \<Rightarrow> ('k, 'v) overlayed_map \<Rightarrow> bool" where
  "merged m m' \<longleftrightarrow> changeset_inv m' \<and> snapshots m' = butlast (butlast (snapshots m)) @ [current m] \<and>
     transaction_depth m = Suc (transaction_depth m') \<and>
     num_client_transactions m' = num_client_transactions m \<and> execution_mode m' = execution_mode m"

lemma rollback_rolled:
  assumes "changeset_inv m" "closable_level m = Suc n"
  shows "\<exists>m'. rollback_transaction m = Done (m', Ok ()) \<and> rolled m m'"
  by (rule changeset_rollback [OF assms]) (auto simp: rolled_def)

lemma commit_merged:
  assumes "changeset_inv m" "closable_level m = Suc n"
  shows "\<exists>m'. commit_transaction m = Done (m', Ok ()) \<and> merged m m'"
  by (rule changeset_commit [OF assms]) (auto simp: merged_def)

lemma rolled_snapshot:
  assumes "rolled m m'" "j \<le> transaction_depth m'"
  shows "snapshot m' j = snapshot m j"
  using assms nth_snapshots [of j m'] nth_snapshots [of j m] by (simp add: rolled_def nth_butlast)

lemma merged_snapshot:
  assumes "merged m m'" "j \<le> transaction_depth m'"
  shows "snapshot m' j = (if j = transaction_depth m' then snapshot m (transaction_depth m) else snapshot m j)"
  using assms nth_snapshots [of j m'] nth_snapshots [of j m] last_snapshots [of m]
    nth_snapshots [of "transaction_depth m" m]
  by (auto simp: merged_def nth_append nth_butlast last_conv_nth)

lemma step_in_step:
  "rolled a a' \<Longrightarrow> rolled b b' \<Longrightarrow> in_step a b \<Longrightarrow> in_step a' b'"
  "merged a a' \<Longrightarrow> merged b b' \<Longrightarrow> in_step a b \<Longrightarrow> in_step a' b'"
  by (auto simp: in_step_def rolled_def merged_def)

lemma step_level:
  "rolled m m' \<Longrightarrow> closable_level m = Suc n \<Longrightarrow> closable_level m' = n"
  "merged m m' \<Longrightarrow> closable_level m = Suc n \<Longrightarrow> closable_level m' = n"
  by (auto simp: rolled_def merged_def closable_level_def split: if_splits)

section \<open>Running an operation on all children\<close>

definition child_rel :: "(change_set \<Rightarrow> change_set \<Rightarrow> bool) \<Rightarrow> bytes \<times> change_set \<Rightarrow> bytes \<times> change_set \<Rightarrow> bool" where
  "child_rel P c c' \<longleftrightarrow> fst c' = fst c \<and> P (snd c) (snd c')"

lemma on_children_Done:
  assumes "\<And>c. c \<in> set cs \<Longrightarrow> \<exists>m'. f (snd c) = Done (m', Ok ()) \<and> P (snd c) m'"
  shows "\<exists>cs'. on_children f cs = Done cs' \<and> list_all2 (child_rel P) cs cs'"
  using assms
proof (induction cs)
  case (Cons c cs)
  obtain m' where "f (snd c) = Done (m', Ok ())" "P (snd c) m'"
    using Cons.prems [of c] by auto
  moreover obtain cs' where "on_children f cs = Done cs'" "list_all2 (child_rel P) cs cs'"
    using Cons by auto
  ultimately have "on_children f (c # cs) = Done ((fst c, m') # cs')" "child_rel P c (fst c, m')"
    by (simp_all add: child_rel_def)
  with \<open>list_all2 (child_rel P) cs cs'\<close> show ?case by auto
qed simp

lemma child_rel_keys: "list_all2 (child_rel P) cs cs' \<Longrightarrow> map fst cs' = map fst cs"
  by (induction rule: list_all2_induct) (auto simp: child_rel_def)

lemma child_rel_map_of:
  "list_all2 (child_rel P) cs cs' \<Longrightarrow> rel_option P (map_of cs k) (map_of cs' k)"
proof (induction rule: list_all2_induct)
  case (Cons c cs c' cs')
  then show ?case by (cases c; cases c') (auto simp: child_rel_def)
qed simp

lemma child_rel_in_set:
  "list_all2 (child_rel P) cs cs' \<Longrightarrow> c' \<in> set cs' \<Longrightarrow> \<exists>c \<in> set cs. fst c' = fst c \<and> P (snd c) (snd c')"
  by (induction rule: list_all2_induct) (auto simp: child_rel_def)

lemma in_step_level_children:
  "lockstep oc \<Longrightarrow> level_changes oc = Suc n \<Longrightarrow> c \<in> set (children oc) \<Longrightarrow> closable_level (snd c) = Suc n"
  using lockstepD(6) in_step_level by (metis level_changes_def)

lemma in_step_level_offchain:
  "lockstep oc \<Longrightarrow> level_changes oc = Suc n \<Longrightarrow> closable_level (offchain oc) = Suc n"
  using lockstepD(3) in_step_level by (metis level_changes_def)

lemma empty_map_snapshot: "is_empty_map m \<Longrightarrow> snapshot m j = Map.empty"
  by (rule ext) (simp add: is_empty_map_def snapshot_def versions_def get_def)

section \<open>Starting, rolling back and committing\<close>

lemma in_step_start: "in_step a b \<Longrightarrow> in_step (start_transaction a) (start_transaction b)"
  by (simp add: in_step_def) (simp add: start_transaction_def)

lemma lockstep_start: "lockstep oc \<Longrightarrow> lockstep (start_changes oc)"
  by (fastforce simp: lockstep_def start_changes_def changeset_start comp_def case_prod_unfold intro: in_step_start)

lemma start_snapshot: "j \<le> transaction_depth m \<Longrightarrow> snapshot (start_transaction m) j = snapshot m j"
  "snapshot (start_transaction m) (Suc (transaction_depth m)) = snapshot m (transaction_depth m)"
  using nth_snapshots [of j "start_transaction m"] nth_snapshots [of j m]
    nth_snapshots [of "Suc (transaction_depth m)" "start_transaction m"]
    nth_snapshots [of "transaction_depth m" m] last_snapshots [of m]
  by (auto simp: snapshots_start nth_append last_conv_nth)

lemma child_view_start:
  assumes "lockstep oc"
  shows "j \<le> depth_changes oc \<Longrightarrow> child_view (start_changes oc) j = child_view oc j"
    "child_view (start_changes oc) (Suc (depth_changes oc)) = child_view oc (depth_changes oc)"
proof -
  have d: "transaction_depth m = depth_changes oc" if "map_of (children oc) sk = Some m" for sk m
    using lockstepD(6) [OF assms map_of_SomeD [OF that]] by (simp add: in_step_def depth_changes_def)
  have c: "map_of (children (start_changes oc)) sk = map_option start_transaction (map_of (children oc) sk)" for sk
    by (simp add: start_changes_def map_of_map)
  show "j \<le> depth_changes oc \<Longrightarrow> child_view (start_changes oc) j = child_view oc j"
    by (rule ext) (auto simp: child_view_def c d start_snapshot split: option.split)
  show "child_view (start_changes oc) (Suc (depth_changes oc)) = child_view oc (depth_changes oc)"
    by (rule ext) (auto simp: child_view_def c start_snapshot d [symmetric] split: option.split)
qed

lemma depth_start_changes [simp]: "depth_changes (start_changes oc) = Suc (depth_changes oc)"
  by (simp add: depth_changes_def start_changes_def)

lemma views_start:
  assumes l: "lockstep oc"
  shows "views (start_changes oc) = views oc @ [last (views oc)]"
proof (rule views_eqI)
  fix j
  assume j: "j \<le> depth_changes (start_changes oc)"
  have d: "transaction_depth (offchain oc) = depth_changes oc" "transaction_depth (top_changes oc) = depth_changes oc"
    using lockstepD(3) [OF l] by (simp_all add: in_step_def depth_changes_def)
  show "view_at (start_changes oc) j = (views oc @ [last (views oc)]) ! j"
  proof (cases "j = Suc (depth_changes oc)")
    case True
    with d show ?thesis
      using start_snapshot(2) [of "top_changes oc"] start_snapshot(2) [of "offchain oc"]
      by (simp add: nth_append last_views view_at_def child_view_start [OF l]) (simp add: start_changes_def)
  next
    case False
    with j d show ?thesis
      by (simp add: nth_append nth_views view_at_def child_view_start [OF l]) (simp add: start_changes_def start_snapshot)
  qed
qed simp

lemma rollback_changes_Done:
  assumes l: "lockstep oc" and lv: "level_changes oc = Suc n"
  obtains t cs f where
    "rollback_changes oc = Done (oc\<lparr>top_changes := t, children := filter (\<lambda>(_, m). \<not> is_empty_map m) cs, offchain := f\<rparr>, Ok ())"
    "rolled (top_changes oc) t" "list_all2 (child_rel rolled) (children oc) cs" "rolled (offchain oc) f"
proof -
  obtain t where t: "rollback_transaction (top_changes oc) = Done (t, Ok ())" "rolled (top_changes oc) t"
    using rollback_rolled [OF lockstepD(1) [OF l]] lv by (auto simp: level_changes_def)
  obtain f where f: "rollback_transaction (offchain oc) = Done (f, Ok ())" "rolled (offchain oc) f"
    using rollback_rolled [OF lockstepD(2) [OF l] in_step_level_offchain [OF l lv]] by auto
  have "\<exists>m'. rollback_transaction (snd c) = Done (m', Ok ()) \<and> rolled (snd c) m'" if "c \<in> set (children oc)" for c
    using that by (intro rollback_rolled [OF lockstepD(5) [OF l] in_step_level_children [OF l lv]])
  then obtain cs where "on_children rollback_transaction (children oc) = Done cs"
    "list_all2 (child_rel rolled) (children oc) cs"
    using on_children_Done by metis
  with t f that show ?thesis by (simp add: rollback_changes_def)
qed

lemma commit_changes_Done:
  assumes l: "lockstep oc" and lv: "level_changes oc = Suc n"
  obtains t cs f where
    "commit_changes oc = Done (oc\<lparr>top_changes := t, children := cs, offchain := f\<rparr>, Ok ())"
    "merged (top_changes oc) t" "list_all2 (child_rel merged) (children oc) cs" "merged (offchain oc) f"
proof -
  obtain t where t: "commit_transaction (top_changes oc) = Done (t, Ok ())" "merged (top_changes oc) t"
    using commit_merged [OF lockstepD(1) [OF l]] lv by (auto simp: level_changes_def)
  obtain f where f: "commit_transaction (offchain oc) = Done (f, Ok ())" "merged (offchain oc) f"
    using commit_merged [OF lockstepD(2) [OF l] in_step_level_offchain [OF l lv]] by auto
  have "\<exists>m'. commit_transaction (snd c) = Done (m', Ok ()) \<and> merged (snd c) m'" if "c \<in> set (children oc)" for c
    using that by (intro commit_merged [OF lockstepD(5) [OF l] in_step_level_children [OF l lv]])
  then obtain cs where "on_children commit_transaction (children oc) = Done cs"
    "list_all2 (child_rel merged) (children oc) cs"
    using on_children_Done by metis
  with t f that show ?thesis by (simp add: commit_changes_def)
qed

lemma map_of_filter_distinct:
  "distinct (map fst cs) \<Longrightarrow> map_of (filter (\<lambda>(_, m). P m) cs) k =
     (case map_of cs k of Some m \<Rightarrow> if P m then Some m else None | None \<Rightarrow> None)"
proof (induction cs)
  case (Cons c cs)
  then have "fst c \<notin> set (map fst cs)" by simp
  then have "map_of cs (fst c) = None" by (simp add: map_of_eq_None_iff)
  with Cons show ?case by (cases c) (auto split: option.splits)
qed simp

lemma lockstep_in_step_depth:
  assumes "lockstep oc"
  shows "transaction_depth (offchain oc) = depth_changes oc"
    "map_of (children oc) sk = Some m \<Longrightarrow> transaction_depth m = depth_changes oc"
  using lockstepD(3) [OF assms] lockstepD(6) [OF assms, of "(sk, m)"]
  by (auto simp: in_step_def depth_changes_def dest: map_of_SomeD)

lemma lockstep_rolled:
  assumes l: "lockstep oc" and t: "rolled (top_changes oc) t" and f: "rolled (offchain oc) f"
    and cs: "list_all2 (child_rel rolled) (children oc) cs"
  shows "lockstep (oc\<lparr>top_changes := t, children := filter (\<lambda>(_, m). \<not> is_empty_map m) cs, offchain := f\<rparr>)"
proof -
  have "changeset_inv (snd c') \<and> in_step t (snd c')" if "c' \<in> set cs" for c'
    using child_rel_in_set [OF cs that] step_in_step(1) [OF t] lockstepD(6) [OF l] by (auto simp: rolled_def)
  moreover have "distinct (map fst cs)"
    using child_rel_keys [OF cs] lockstepD(4) [OF l] by simp
  moreover have "changeset_inv t" "changeset_inv f" "in_step t f"
    using t f step_in_step(1) [OF t f lockstepD(3) [OF l]] by (simp_all add: rolled_def)
  ultimately show ?thesis
    by (simp add: lockstep_def distinct_map_filter)
qed

lemma views_rolled:
  assumes l: "lockstep oc" and t: "rolled (top_changes oc) t" and f: "rolled (offchain oc) f"
    and cs: "list_all2 (child_rel rolled) (children oc) cs"
  shows "views (oc\<lparr>top_changes := t, children := filter (\<lambda>(_, m). \<not> is_empty_map m) cs, offchain := f\<rparr>) =
    butlast (views oc)" (is "views ?oc = _")
proof (rule views_eqI)
  have d: "depth_changes oc = Suc (depth_changes ?oc)" "transaction_depth t = depth_changes ?oc"
    "transaction_depth f = depth_changes ?oc"
    using t f lockstep_in_step_depth(1) [OF l] by (auto simp: rolled_def depth_changes_def)
  then show "length (butlast (views oc)) = Suc (depth_changes ?oc)" by simp
  fix j
  assume j: "j \<le> depth_changes ?oc"
  have "distinct (map fst cs)"
    using child_rel_keys [OF cs] lockstepD(4) [OF l] by simp
  have "child_view ?oc j sk = child_view oc j sk" for sk
  proof (cases "map_of (children oc) sk")
    case None
    with child_rel_map_of [OF cs, of sk] \<open>distinct (map fst cs)\<close> show ?thesis
      by (simp add: child_view_def map_of_filter_distinct)
  next
    case (Some m)
    with child_rel_map_of [OF cs, of sk] obtain m' where m': "map_of cs sk = Some m'" "rolled m m'"
      by (auto simp: option_rel_Some1)
    with lockstep_in_step_depth(2) [OF l Some] d j have "snapshot m' j = snapshot m j"
      by (intro rolled_snapshot) (auto simp: rolled_def)
    with Some m' empty_map_snapshot [of m' j] \<open>distinct (map fst cs)\<close> show ?thesis
      by (simp add: child_view_def map_of_filter_distinct)
  qed
  with j d show "view_at ?oc j = butlast (views oc) ! j"
    by (simp add: nth_butlast nth_views view_at_def rolled_snapshot [OF t] rolled_snapshot [OF f] fun_eq_iff)
qed

lemma lockstep_merged:
  assumes l: "lockstep oc" and t: "merged (top_changes oc) t" and f: "merged (offchain oc) f"
    and cs: "list_all2 (child_rel merged) (children oc) cs"
  shows "lockstep (oc\<lparr>top_changes := t, children := cs, offchain := f\<rparr>)"
proof -
  have "changeset_inv (snd c') \<and> in_step t (snd c')" if "c' \<in> set cs" for c'
    using child_rel_in_set [OF cs that] step_in_step(2) [OF t] lockstepD(6) [OF l] by (auto simp: merged_def)
  moreover have "distinct (map fst cs)"
    using child_rel_keys [OF cs] lockstepD(4) [OF l] by simp
  moreover have "changeset_inv t" "changeset_inv f" "in_step t f"
    using t f step_in_step(2) [OF t f lockstepD(3) [OF l]] by (simp_all add: merged_def)
  ultimately show ?thesis
    by (simp add: lockstep_def)
qed

lemma views_merged:
  assumes l: "lockstep oc" and t: "merged (top_changes oc) t" and f: "merged (offchain oc) f"
    and cs: "list_all2 (child_rel merged) (children oc) cs"
  shows "views (oc\<lparr>top_changes := t, children := cs, offchain := f\<rparr>) =
    butlast (butlast (views oc)) @ [last (views oc)]" (is "views ?oc = _")
proof (rule views_eqI)
  have d: "depth_changes oc = Suc (depth_changes ?oc)" "transaction_depth t = depth_changes ?oc"
    "transaction_depth f = depth_changes ?oc" "transaction_depth (top_changes oc) = depth_changes oc"
    "transaction_depth (offchain oc) = depth_changes oc"
    using t f lockstep_in_step_depth(1) [OF l] by (auto simp: merged_def depth_changes_def)
  then show "length (butlast (butlast (views oc)) @ [last (views oc)]) = Suc (depth_changes ?oc)" by simp
  fix j
  assume j: "j \<le> depth_changes ?oc"
  let ?i = "if j = depth_changes ?oc then depth_changes oc else j"
  have "child_view ?oc j sk = child_view oc ?i sk" for sk
  proof (cases "map_of (children oc) sk")
    case None
    with child_rel_map_of [OF cs, of sk] show ?thesis
      by (simp add: child_view_def)
  next
    case (Some m)
    with child_rel_map_of [OF cs, of sk] obtain m' where m': "map_of cs sk = Some m'" "merged m m'"
      by (auto simp: option_rel_Some1)
    moreover have "transaction_depth m = depth_changes oc" "transaction_depth m' = depth_changes ?oc"
      using lockstep_in_step_depth(2) [OF l Some] d m'(2) by (auto simp: merged_def)
    ultimately show ?thesis
      using Some merged_snapshot [OF m'(2), of j] j by (simp add: child_view_def)
  qed
  then have "view_at ?oc j = view_at oc ?i"
    using merged_snapshot [OF t, of j] merged_snapshot [OF f, of j] j d by (simp add: view_at_def fun_eq_iff)
  with j d show "view_at ?oc j = (butlast (butlast (views oc)) @ [last (views oc)]) ! j"
    by (auto simp: nth_append nth_butlast nth_views last_views)
qed

interpretation overlay: snapshot_store lockstep views level_changes start_changes commit_changes rollback_changes
proof (unfold_locales, goal_cases)
  case (1 s)
  show ?case by (metis length_views list.size(3) nat.simps(3))
next
  case (2 s)
  then show ?case
    by (simp add: lockstep_start views_start)
      (simp add: level_changes_def start_changes_def changeset_start lockstepD)
next
  case (3 s n)
  obtain t cs f where
    "commit_changes s = Done (s\<lparr>top_changes := t, children := cs, offchain := f\<rparr>, Ok ())"
    "merged (top_changes s) t" "list_all2 (child_rel merged) (children s) cs" "merged (offchain s) f"
    by (rule commit_changes_Done [OF 3])
  with 3 step_level(2) [of "top_changes s" t n] show ?case
    by (simp add: lockstep_merged views_merged) (simp add: level_changes_def)
next
  case (4 s n)
  obtain t cs f where
    "rollback_changes s = Done (s\<lparr>top_changes := t, children := filter (\<lambda>(_, m). \<not> is_empty_map m) cs, offchain := f\<rparr>, Ok ())"
    "rolled (top_changes s) t" "list_all2 (child_rel rolled) (children s) cs" "rolled (offchain s) f"
    by (rule rollback_changes_Done [OF 4])
  with 4 step_level(1) [of "top_changes s" t n] show ?case
    by (simp add: lockstep_rolled views_rolled) (simp add: level_changes_def)
qed

section \<open>Writing\<close>

lemma entry_value_get:
  "changeset_inv m \<Longrightarrow> entry_value (get k m) = Done (current m k)"
  using overlay_invD(3) [of m k] by (auto simp: entry_value_def current_conv_get value_ref_def changeset_inv_def split: option.splits)

lemma storage_current:
  "lockstep oc \<Longrightarrow> storage key oc = Done (current (top_changes oc) key)"
  by (simp add: storage_def entry_value_get lockstepD)

lemma extrinsic_index_Done: "lockstep oc \<Longrightarrow> \<exists>x. extrinsic_index dec oc = Done x"
  by (simp add: extrinsic_index_def storage_current)

lemma wrote_in_step: "wrote k v m m' \<Longrightarrow> in_step m b \<Longrightarrow> in_step m' b"
  "wrote k v m m' \<Longrightarrow> in_step b m \<Longrightarrow> in_step b m'"
  by (simp_all add: in_step_def wrote_depth) (simp_all add: wrote_def)

lemma changeset_set_wrote:
  assumes "changeset_inv m"
  obtains m' where "set_map k v x m = Done m'" "wrote k v m m'"
  by (rule set_map_wrote [OF overlay_inv_countD(5) [OF changeset_invD [OF assms]]])

text \<open>Replacing the top change set of a store by one with a key written.\<close>

lemma lockstep_top_wrote:
  assumes "lockstep oc" "wrote k v (top_changes oc) t"
  shows "lockstep (oc\<lparr>top_changes := t\<rparr>)"
  using assms by (auto simp: lockstep_def wrote_changeset_inv intro: wrote_in_step)

lemma lockstep_offchain_wrote:
  assumes "lockstep oc" "wrote k v (offchain oc) f"
  shows "lockstep (oc\<lparr>offchain := f\<rparr>)"
  using assms by (auto simp: lockstep_def wrote_changeset_inv intro: wrote_in_step)

lemma wrote_snapshot_at:
  "changeset_inv m \<Longrightarrow> wrote k v m m' \<Longrightarrow> j \<le> transaction_depth m \<Longrightarrow>
   snapshot m' j = (if j = transaction_depth m then (snapshot m j)(k \<mapsto> v) else snapshot m j)"
  using wrote_older_snapshot [of m k v m' j] wrote_current [of k v m m'] wrote_depth [of k v m m']
    last_snapshots [of m] last_snapshots [of m'] nth_snapshots [of j m] nth_snapshots [of j m']
  by (auto simp: changeset_inv_def last_conv_nth)

lemma set_storage_Done:
  assumes l: "lockstep oc"
  obtains t where "set_storage dec key v oc = Done (oc\<lparr>top_changes := t\<rparr>)" "wrote key v (top_changes oc) t"
proof -
  obtain x where "extrinsic_index dec oc = Done x"
    using extrinsic_index_Done [OF l] by blast
  moreover obtain t where "set_map key v x (top_changes oc) = Done t" "wrote key v (top_changes oc) t"
    by (rule changeset_set_wrote [OF lockstepD(1) [OF l]])
  ultimately show ?thesis
    by (intro that [of t]) (simp_all add: set_storage_def)
qed

lemma value_mut_Done:
  assumes l: "lockstep oc"
  obtains t v where "value_mut_or_insert_with dec key init upd oc = Done (oc\<lparr>top_changes := t\<rparr>)"
    "wrote key v (top_changes oc) t"
proof -
  obtain x where x: "extrinsic_index dec oc = Done x"
    using extrinsic_index_Done [OF l] by blast
  show ?thesis
    by (rule modify_wrote [OF overlay_inv_countD(5) [OF changeset_invD [OF lockstepD(1) [OF l]]], of key init x
          "\<lambda>v. Some (upd (case v of Some b \<Rightarrow> b | None \<Rightarrow> []))"])
      (rule that, simp_all add: value_mut_or_insert_with_def x)
qed

lemma set_offchain_storage_Done:
  assumes l: "lockstep oc"
  obtains f where "set_offchain_storage key v oc = Done (oc\<lparr>offchain := f\<rparr>)"
    "wrote (STORAGE_PREFIX, key) (case v of Some x \<Rightarrow> SetValue x | None \<Rightarrow> Remove) (offchain oc) f"
proof -
  obtain f where "set_map (STORAGE_PREFIX, key) (case v of Some x \<Rightarrow> SetValue x | None \<Rightarrow> Remove) None (offchain oc) = Done f"
    "wrote (STORAGE_PREFIX, key) (case v of Some x \<Rightarrow> SetValue x | None \<Rightarrow> Remove) (offchain oc) f"
    by (rule changeset_set_wrote [OF lockstepD(2) [OF l]])
  then show ?thesis
    by (intro that [of f]) (auto simp: set_offchain_storage_def offchain_set_def offchain_remove_def split: option.splits)
qed

lemma views_top_wrote:
  assumes l: "lockstep oc" and w: "wrote key v (top_changes oc) t"
  shows "views (oc\<lparr>top_changes := t\<rparr>) =
    butlast (views oc) @ [((fst (last (views oc)))(key \<mapsto> v), snd (last (views oc)))]" (is "views ?oc = _")
proof (rule views_eqI)
  have d: "depth_changes ?oc = depth_changes oc"
    by (simp add: depth_changes_def wrote_depth [OF w])
  then show "length (butlast (views oc) @ [((fst (last (views oc)))(key \<mapsto> v), snd (last (views oc)))]) =
      Suc (depth_changes ?oc)" by simp
  fix j
  assume "j \<le> depth_changes ?oc"
  then show "view_at ?oc j = (butlast (views oc) @ [((fst (last (views oc)))(key \<mapsto> v), snd (last (views oc)))]) ! j"
    using wrote_snapshot_at [OF lockstepD(1) [OF l] w, of j] d
    by (auto simp: nth_append nth_butlast nth_views last_views view_at_def depth_changes_def child_view_def
        intro!: ext)
qed

lemma views_offchain_wrote:
  assumes l: "lockstep oc" and w: "wrote key v (offchain oc) f"
  shows "views (oc\<lparr>offchain := f\<rparr>) = butlast (views oc) @
    [(fst (last (views oc)), fst (snd (last (views oc))), (snd (snd (last (views oc))))(key \<mapsto> v))]" (is "views ?oc = ?vs")
proof (rule views_eqI)
  have d: "depth_changes ?oc = depth_changes oc"
    by (simp add: depth_changes_def)
  then show "length ?vs = Suc (depth_changes ?oc)" by simp
  fix j
  assume "j \<le> depth_changes ?oc"
  then show "view_at ?oc j = ?vs ! j"
    using wrote_snapshot_at [OF lockstepD(2) [OF l] w, of j] d lockstep_in_step_depth(1) [OF l]
    by (auto simp: nth_append nth_butlast nth_views last_views view_at_def child_view_def intro!: ext)
qed

section \<open>Children\<close>

lemma spawn_child_inv:
  assumes "changeset_inv m"
  shows "changeset_inv (spawn_child m)" "in_step m (spawn_child m)"
  using assms by (auto simp: changeset_inv_def overlay_inv_def spawn_child_def get_def transaction_depth_def in_step_def)

lemma child_or_spawn_inv:
  assumes "lockstep oc"
  shows "changeset_inv (child_or_spawn sk oc)" "in_step (top_changes oc) (child_or_spawn sk oc)"
  using lockstepD(1,5,6) [OF assms] spawn_child_inv
  by (auto simp: child_or_spawn_def split: option.split dest!: map_of_SomeD)

lemma lockstep_child_update:
  assumes "lockstep oc" "changeset_inv m" "in_step (top_changes oc) m"
  shows "lockstep (oc\<lparr>children := AList.update sk m (children oc)\<rparr>)"
proof -
  have "changeset_inv (snd c) \<and> in_step (top_changes oc) (snd c)" if "c \<in> set (AList.update sk m (children oc))" for c
    using in_set_alist_update [OF that] assms by (auto simp: lockstep_def)
  with assms(1) show ?thesis
    by (simp add: lockstep_def distinct_update)
qed

lemma set_child_storage_Done:
  assumes l: "lockstep oc"
  obtains oc' where "set_child_storage dec sk key v oc = Done oc'" "lockstep oc'"
    "level_changes oc' = level_changes oc"
proof -
  obtain x where "extrinsic_index dec oc = Done x"
    using extrinsic_index_Done [OF l] by blast
  moreover obtain m where m: "set_map key v x (child_or_spawn sk oc) = Done m" "wrote key v (child_or_spawn sk oc) m"
    by (rule changeset_set_wrote [OF child_or_spawn_inv(1) [OF l]])
  moreover have "lockstep (oc\<lparr>children := AList.update sk m (children oc)\<rparr>)"
    using m(2) child_or_spawn_inv [OF l] by (intro lockstep_child_update l) (auto intro: wrote_changeset_inv wrote_in_step)
  ultimately show ?thesis
    by (intro that [of "oc\<lparr>children := AList.update sk m (children oc)\<rparr>"])
      (simp_all add: set_child_storage_def level_changes_def)
qed

lemma clear_where_step:
  assumes "changeset_inv m"
  obtains m' n where "clear_where (\<lambda>k _. p k) x m = Done (m', n)" "changeset_inv m'" "in_step m m'"
proof -
  obtain m' n where "clear_where (\<lambda>k _. p k) x m = Done (m', n)" "changeset_inv m'"
    "abs_stack m' = set_top (\<lambda>k. if p k \<and> last (snapshots m) k \<noteq> None then Some None else last (snapshots m) k)
       (abs_stack m)"
    by (rule clear_where_refines [OF assms])
  moreover from this(3) have "in_step m m'"
    using length_snapshots [of m] length_snapshots [of m']
    by (auto simp: abs_stack_def set_top_def in_step_def)
  ultimately show ?thesis by (intro that)
qed

lemma in_step_trans: "in_step a b \<Longrightarrow> in_step b c \<Longrightarrow> in_step a c"
  and in_step_sym: "in_step a b \<Longrightarrow> in_step b a"
  by (simp_all add: in_step_def)

lemma clear_child_Done:
  assumes l: "lockstep oc"
  obtains m n where "clear_where (\<lambda>k _. p k) x (child_or_spawn sk oc) = Done (m, n)"
    "lockstep (oc\<lparr>children := AList.update sk m (children oc)\<rparr>)"
proof -
  obtain m n where m: "clear_where (\<lambda>k _. p k) x (child_or_spawn sk oc) = Done (m, n)"
    "changeset_inv m" "in_step (child_or_spawn sk oc) m"
    by (rule clear_where_step [OF child_or_spawn_inv(1) [OF l]])
  with child_or_spawn_inv(2) [OF l] that show ?thesis
    by (auto intro: lockstep_child_update [OF l] in_step_trans)
qed

lemma clear_child_prefix_Done:
  assumes l: "lockstep oc"
  obtains oc' n where "clear_child_prefix dec sk pre oc = Done (oc', n)" "lockstep oc'"
proof -
  obtain x where x: "extrinsic_index dec oc = Done x"
    using extrinsic_index_Done [OF l] by blast
  show ?thesis
    by (rule clear_child_Done [OF l, of "\<lambda>key. starts_with key pre" x sk], rule that)
      (simp_all add: clear_child_prefix_def x)
qed

lemma clear_child_storage_Done:
  assumes l: "lockstep oc"
  obtains oc' n where "clear_child_storage dec sk oc = Done (oc', n)" "lockstep oc'"
proof -
  obtain x where x: "extrinsic_index dec oc = Done x"
    using extrinsic_index_Done [OF l] by blast
  show ?thesis
    by (rule clear_child_Done [OF l, of "\<lambda>_. True" x sk], rule that) (simp_all add: clear_child_storage_def x)
qed

lemma clear_prefix_Done:
  assumes l: "lockstep oc"
  obtains oc' n where "clear_prefix dec pre oc = Done (oc', n)" "lockstep oc'"
proof -
  obtain x where x: "extrinsic_index dec oc = Done x"
    using extrinsic_index_Done [OF l] by blast
  obtain m n where m: "clear_where (\<lambda>key _. starts_with key pre) x (top_changes oc) = Done (m, n)"
    "changeset_inv m" "in_step (top_changes oc) m"
    by (rule clear_where_step [OF lockstepD(1) [OF l]])
  moreover have "lockstep (oc\<lparr>top_changes := m\<rparr>)"
    using l m(2,3) by (auto simp: lockstep_def intro: in_step_trans in_step_sym)
  ultimately show ?thesis
    by (intro that [of "oc\<lparr>top_changes := m\<rparr>" n]) (simp_all add: clear_prefix_def x)
qed

section \<open>Entering and leaving the runtime\<close>

definition entered :: "('k, 'v) overlayed_map \<Rightarrow> ('k, 'v) overlayed_map \<Rightarrow> bool" where
  "entered m m' \<longleftrightarrow> changeset_inv m' \<and> transaction_depth m' = transaction_depth m \<and>
     num_client_transactions m' = transaction_depth m \<and> execution_mode m' = Runtime"

definition left :: "('k, 'v) overlayed_map \<Rightarrow> ('k, 'v) overlayed_map \<Rightarrow> bool" where
  "left m m' \<longleftrightarrow> changeset_inv m' \<and> transaction_depth m' = num_client_transactions m \<and>
     num_client_transactions m' = num_client_transactions m \<and> execution_mode m' = Client"

lemma enter_runtime_entered:
  "changeset_inv m \<Longrightarrow> execution_mode m = Client \<Longrightarrow> \<exists>m'. enter_runtime m = (m', Ok ()) \<and> entered m m'"
  using same_contents [of "m\<lparr>execution_mode := Runtime, num_client_transactions := transaction_depth m\<rparr>" m]
  by (auto simp: enter_runtime_def entered_def changeset_inv_def)

lemma exit_runtime_left:
  assumes "changeset_inv m" "execution_mode m = Runtime"
  shows "\<exists>m'. exit_runtime m = Done (m', Ok ()) \<and> left m m'"
proof -
  obtain m' where m': "exit_runtime m = Done (m', Ok ())" "changeset_inv m'" "execution_mode m' = Client"
    "snapshots m' = take (Suc (num_client_transactions m)) (snapshots m)"
    "num_client_transactions m' = num_client_transactions m"
    by (rule exit_runtime_refines [OF assms])
  moreover have "transaction_depth m' = num_client_transactions m"
    using length_snapshots [of m'] m'(4) assms by (simp add: changeset_inv_def)
  ultimately show ?thesis by (auto simp: left_def)
qed

lemma mode_step_in_step:
  "entered a a' \<Longrightarrow> entered b b' \<Longrightarrow> in_step a b \<Longrightarrow> in_step a' b'"
  "left a a' \<Longrightarrow> left b b' \<Longrightarrow> in_step a b \<Longrightarrow> in_step a' b'"
  by (auto simp: in_step_def entered_def left_def)

text \<open>If every part takes a step that keeps the change set invariant and parts that were in step
  stay so, the whole overlay stays in lockstep.\<close>

lemma lockstep_step:
  assumes l: "lockstep oc" and inv: "P1 (top_changes oc) t" "P2 (offchain oc) f"
    and cs: "list_all2 (child_rel P1) (children oc) cs"
    and P1: "\<And>a a'. P1 a a' \<Longrightarrow> changeset_inv a'" and P2: "\<And>a a'. P2 a a' \<Longrightarrow> changeset_inv a'"
    and step1: "\<And>a b a' b'. P1 a a' \<Longrightarrow> P1 b b' \<Longrightarrow> in_step a b \<Longrightarrow> in_step a' b'"
    and step2: "\<And>a b a' b'. P1 a a' \<Longrightarrow> P2 b b' \<Longrightarrow> in_step a b \<Longrightarrow> in_step a' b'"
  shows "lockstep (oc\<lparr>top_changes := t, children := cs, offchain := f\<rparr>)"
proof -
  have "changeset_inv (snd c') \<and> in_step t (snd c')" if "c' \<in> set cs" for c'
    using child_rel_in_set [OF cs that] P1 step1 [OF inv(1)] lockstepD(6) [OF l] by auto
  moreover have "distinct (map fst cs)"
    using child_rel_keys [OF cs] lockstepD(4) [OF l] by simp
  ultimately show ?thesis
    using P1 [OF inv(1)] P2 [OF inv(2)] step2 [OF inv lockstepD(3) [OF l]] by (simp add: lockstep_def)
qed

lemma enter_runtime_changes_Done:
  assumes l: "lockstep oc"
  shows "\<exists>oc' r. enter_runtime_changes oc = Done (oc', r) \<and> lockstep oc'"
proof (cases "execution_mode (top_changes oc)")
  case Runtime
  with l show ?thesis by (simp add: enter_runtime_changes_def enter_runtime_def)
next
  case Client
  obtain t where t: "enter_runtime (top_changes oc) = (t, Ok ())" "entered (top_changes oc) t"
    using enter_runtime_entered [OF lockstepD(1) [OF l] Client] by auto
  obtain f where f: "enter_runtime (offchain oc) = (f, Ok ())" "entered (offchain oc) f"
    using enter_runtime_entered [OF lockstepD(2) [OF l]] lockstepD(3) [OF l] Client by (auto simp: in_step_def)
  have "\<exists>m'. Done (enter_runtime (snd c)) = Done (m', Ok ()) \<and> entered (snd c) m'" if "c \<in> set (children oc)" for c
    using enter_runtime_entered [OF lockstepD(5) [OF l that]] lockstepD(6) [OF l that] Client by (simp add: in_step_def)
  then obtain cs where cs: "on_children (\<lambda>m. Done (enter_runtime m)) (children oc) = Done cs"
    "list_all2 (child_rel entered) (children oc) cs"
    using on_children_Done [where f = "\<lambda>m. Done (enter_runtime m)" and P = entered] by blast
  have "lockstep (oc\<lparr>top_changes := t, children := cs, offchain := f\<rparr>)"
    by (rule lockstep_step [where ?P1.0 = entered and ?P2.0 = entered, OF l t(2) f(2) cs(2)])
      (auto intro: mode_step_in_step, auto simp: entered_def)
  with t(1) f(1) cs(1) show ?thesis by (simp add: enter_runtime_changes_def)
qed

lemma exit_runtime_changes_Done:
  assumes l: "lockstep oc"
  shows "\<exists>oc' r. exit_runtime_changes oc = Done (oc', r) \<and> lockstep oc'"
proof (cases "execution_mode (top_changes oc)")
  case Client
  with l show ?thesis by (simp add: exit_runtime_changes_def exit_runtime_def)
next
  case Runtime
  obtain t where t: "exit_runtime (top_changes oc) = Done (t, Ok ())" "left (top_changes oc) t"
    using exit_runtime_left [OF lockstepD(1) [OF l] Runtime] by auto
  obtain f where f: "exit_runtime (offchain oc) = Done (f, Ok ())" "left (offchain oc) f"
    using exit_runtime_left [OF lockstepD(2) [OF l]] lockstepD(3) [OF l] Runtime by (auto simp: in_step_def)
  have "\<exists>m'. exit_runtime (snd c) = Done (m', Ok ()) \<and> left (snd c) m'" if "c \<in> set (children oc)" for c
    using exit_runtime_left [OF lockstepD(5) [OF l that]] lockstepD(6) [OF l that] Runtime by (simp add: in_step_def)
  then obtain cs where cs: "on_children exit_runtime (children oc) = Done cs"
    "list_all2 (child_rel left) (children oc) cs"
    using on_children_Done [where f = exit_runtime and P = left] by blast
  have "lockstep (oc\<lparr>top_changes := t, children := cs, offchain := f\<rparr>)"
    by (rule lockstep_step [where ?P1.0 = left and ?P2.0 = left, OF l t(2) f(2) cs(2)])
      (auto intro: mode_step_in_step, auto simp: left_def)
  with t(1) f(1) cs(1) show ?thesis by (simp add: exit_runtime_changes_def)
qed

section \<open>No sequence of operations panics\<close>

datatype changes_op =
    SetStorage bytes "bytes option"
  | MutStorage bytes bytes "bytes \<Rightarrow> bytes"
  | SetChild bytes bytes "bytes option"
  | ClearChild bytes
  | ClearPrefix bytes
  | ClearChildPrefix bytes bytes
  | SetOffchain bytes "bytes option"
  | AddIndex index_operation
  | CollectExtrinsics bool
  | Start
  | CommitTx
  | RollbackTx
  | Enter
  | Exit

fun apply_changes_op :: "(bytes \<Rightarrow> u32 option) \<Rightarrow> changes_op \<Rightarrow> overlayed_changes \<Rightarrow> overlayed_changes exec" where
  "apply_changes_op dec (SetStorage k v) oc = set_storage dec k v oc"
| "apply_changes_op dec (MutStorage k init upd) oc = value_mut_or_insert_with dec k init upd oc"
| "apply_changes_op dec (SetChild sk k v) oc = set_child_storage dec sk k v oc"
| "apply_changes_op dec (ClearChild sk) oc = bind_exec (clear_child_storage dec sk oc) (\<lambda>(oc, _). Done oc)"
| "apply_changes_op dec (ClearPrefix p) oc = bind_exec (clear_prefix dec p oc) (\<lambda>(oc, _). Done oc)"
| "apply_changes_op dec (ClearChildPrefix sk p) oc = bind_exec (clear_child_prefix dec sk p oc) (\<lambda>(oc, _). Done oc)"
| "apply_changes_op dec (SetOffchain k v) oc = set_offchain_storage k v oc"
| "apply_changes_op dec (AddIndex p) oc = Done (add_transaction_index p oc)"
| "apply_changes_op dec (CollectExtrinsics b) oc = Done (set_collect_extrinsics b oc)"
| "apply_changes_op dec Start oc = Done (start_changes oc)"
| "apply_changes_op dec CommitTx oc = bind_exec (commit_changes oc) (\<lambda>(oc, _). Done oc)"
| "apply_changes_op dec RollbackTx oc = bind_exec (rollback_changes oc) (\<lambda>(oc, _). Done oc)"
| "apply_changes_op dec Enter oc = bind_exec (enter_runtime_changes oc) (\<lambda>(oc, _). Done oc)"
| "apply_changes_op dec Exit oc = bind_exec (exit_runtime_changes oc) (\<lambda>(oc, _). Done oc)"

primrec run_changes :: "(bytes \<Rightarrow> u32 option) \<Rightarrow> changes_op list \<Rightarrow> overlayed_changes \<Rightarrow> overlayed_changes exec" where
  "run_changes dec [] oc = Done oc"
| "run_changes dec (p # ps) oc = bind_exec (apply_changes_op dec p oc) (run_changes dec ps)"

lemma close_changes_Done:
  assumes l: "lockstep oc"
  shows "(\<exists>oc' r. commit_changes oc = Done (oc', r) \<and> lockstep oc') \<and>
    (\<exists>oc' r. rollback_changes oc = Done (oc', r) \<and> lockstep oc')"
proof (cases "level_changes oc")
  case 0
  then have "\<not> may_close (top_changes oc)" by (simp add: may_close_iff level_changes_def)
  then show ?thesis
    using l by (simp add: commit_changes_def rollback_changes_def commit_transaction_def
        rollback_transaction_def close_transaction_Err)
next
  case (Suc n)
  then show ?thesis
    using overlay.commit_law [OF l Suc] overlay.rollback_law [OF l Suc] by blast
qed

lemma apply_changes_op_lockstep:
  assumes l: "lockstep oc"
  shows "\<exists>oc'. apply_changes_op dec p oc = Done oc' \<and> lockstep oc'"
proof (cases p)
  case (SetStorage k v)
  then show ?thesis
    by (auto intro: set_storage_Done [OF l, of dec k v] lockstep_top_wrote [OF l])
next
  case (MutStorage k init upd)
  then show ?thesis
    by (auto intro: value_mut_Done [OF l, of dec k init upd] lockstep_top_wrote [OF l])
next
  case (SetChild sk k v)
  then show ?thesis by (auto intro: set_child_storage_Done [OF l, of dec sk k v])
next
  case (ClearChild sk)
  then show ?thesis by (auto intro: clear_child_storage_Done [OF l, of dec sk])
next
  case (ClearPrefix q)
  then show ?thesis by (auto intro: clear_prefix_Done [OF l, of dec q])
next
  case (ClearChildPrefix sk q)
  then show ?thesis by (auto intro: clear_child_prefix_Done [OF l, of dec sk q])
next
  case (SetOffchain k v)
  then show ?thesis
    by (auto intro: set_offchain_storage_Done [OF l, of k v] lockstep_offchain_wrote [OF l])
next
  case (AddIndex q)
  with l show ?thesis by (simp add: add_transaction_index_def lockstep_def)
next
  case (CollectExtrinsics b)
  with l show ?thesis by (simp add: set_collect_extrinsics_def lockstep_def)
next
  case Start
  with l show ?thesis by (simp add: lockstep_start)
next
  case CommitTx
  with close_changes_Done [OF l] show ?thesis by auto
next
  case RollbackTx
  with close_changes_Done [OF l] show ?thesis by auto
next
  case Enter
  with enter_runtime_changes_Done [OF l] show ?thesis by auto
next
  case Exit
  with exit_runtime_changes_Done [OF l] show ?thesis by auto
qed

lemma run_changes_lockstep:
  "lockstep oc \<Longrightarrow> \<exists>oc'. run_changes dec ps oc = Done oc' \<and> lockstep oc'"
proof (induction ps arbitrary: oc)
  case (Cons p ps)
  from apply_changes_op_lockstep [OF Cons.prems] obtain oc1 where
    "apply_changes_op dec p oc = Done oc1" "lockstep oc1" by blast
  with Cons.IH [of oc1] show ?case by auto
qed simp

lemma lockstep_default: "lockstep default_changes"
  by (simp add: lockstep_def default_changes_def in_step_def changeset_inv_def overlay_inv_default)
    (simp add: default_map_def transaction_depth_def)


end
