(* ===== verification/Storage_Layer.thy ===== *)
theory Storage_Layer
  imports Overlay
begin

text \<open>
  Storage transactions as the runtime sees them: the externalities of
  \<open>primitives/state-machine/src/ext.rs\<close> over an overlay and a backend, and the layers of
  \<open>frame/support/src/storage/transactional.rs\<close> that wrap every dispatchable call.  What
  a layer does to the views of the overlay is proved once for every store that meets the
  \<open>snapshot_store\<close> contract and used through the interpretation on the externalities.
\<close>

section \<open>Externalities\<close>

record ext =
  ext_overlay :: overlayed_changes
  ext_backend :: "bytes \<Rightarrow> bytes option"

definition CHILD_STORAGE_KEY_PREFIX :: bytes where
  "CHILD_STORAGE_KEY_PREFIX = str_bytes '':child_storage:''"

definition is_child_storage_key :: "bytes \<Rightarrow> bool" where
  "is_child_storage_key key = starts_with key CHILD_STORAGE_KEY_PREFIX"

definition ext_storage :: "bytes \<Rightarrow> ext \<Rightarrow> bytes option exec" where
  "ext_storage key e =
     bind_exec (storage key (ext_overlay e)) (\<lambda>v.
     Done (case v of Some x \<Rightarrow> x | None \<Rightarrow> ext_backend e key))"

definition place_storage :: "u32 codec \<Rightarrow> bytes \<Rightarrow> bytes option \<Rightarrow> ext \<Rightarrow> ext exec" where
  "place_storage c key v e =
     (if is_child_storage_key key then Done e
      else bind_exec (set_storage (decode c) key v (ext_overlay e)) (\<lambda>oc. Done (e\<lparr>ext_overlay := oc\<rparr>)))"

definition ext_set_offchain_storage :: "bytes \<Rightarrow> bytes option \<Rightarrow> ext \<Rightarrow> ext exec" where
  "ext_set_offchain_storage key v e =
     bind_exec (set_offchain_storage key v (ext_overlay e)) (\<lambda>oc. Done (e\<lparr>ext_overlay := oc\<rparr>))"

definition storage_start_transaction :: "ext \<Rightarrow> ext" where
  "storage_start_transaction e = e\<lparr>ext_overlay := start_changes (ext_overlay e)\<rparr>"

definition storage_rollback_transaction :: "ext \<Rightarrow> (ext \<times> (unit, no_open_transaction) result) exec" where
  "storage_rollback_transaction e =
     bind_exec (rollback_changes (ext_overlay e)) (\<lambda>(oc, r). Done (e\<lparr>ext_overlay := oc\<rparr>, r))"

definition storage_commit_transaction :: "ext \<Rightarrow> (ext \<times> (unit, no_open_transaction) result) exec" where
  "storage_commit_transaction e =
     bind_exec (commit_changes (ext_overlay e)) (\<lambda>(oc, r). Done (e\<lparr>ext_overlay := oc\<rparr>, r))"

section \<open>Transactional layers\<close>

datatype 'r transaction_outcome = Commit 'r | Rollback 'r
datatype transactional_error = LimitReached | NoLayer

definition TRANSACTION_LEVEL_KEY :: bytes where
  "TRANSACTION_LEVEL_KEY = str_bytes '':transaction_level:''"

definition TRANSACTIONAL_LIMIT :: u32 where
  "TRANSACTIONAL_LIMIT = 255"

definition get_transaction_level :: "u32 codec \<Rightarrow> ext \<Rightarrow> u32 exec" where
  "get_transaction_level c e =
     bind_exec (ext_storage TRANSACTION_LEVEL_KEY e) (\<lambda>v.
     Done (case v of None \<Rightarrow> 0 | Some b \<Rightarrow> (case decode c b of Some l \<Rightarrow> l | None \<Rightarrow> 0)))"

definition set_transaction_level :: "u32 codec \<Rightarrow> u32 \<Rightarrow> ext \<Rightarrow> ext exec" where
  "set_transaction_level c level e = place_storage c TRANSACTION_LEVEL_KEY (Some (encode c level)) e"

definition kill_transaction_level :: "u32 codec \<Rightarrow> ext \<Rightarrow> ext exec" where
  "kill_transaction_level c e = place_storage c TRANSACTION_LEVEL_KEY None e"

definition inc_transaction_level :: "u32 codec \<Rightarrow> ext \<Rightarrow> (ext \<times> (unit, unit) result) exec" where
  "inc_transaction_level c e =
     bind_exec (get_transaction_level c e) (\<lambda>existing_levels.
     if TRANSACTIONAL_LIMIT \<le> existing_levels then Done (e, Err ())
     else bind_exec (set_transaction_level c (existing_levels + 1) e) (\<lambda>e. Done (e, Ok ())))"

definition dec_transaction_level :: "u32 codec \<Rightarrow> ext \<Rightarrow> ext exec" where
  "dec_transaction_level c e =
     bind_exec (get_transaction_level c e) (\<lambda>existing_levels.
     if existing_levels = 0 then Done e
     else if existing_levels = 1 then kill_transaction_level c e
     else set_transaction_level c (existing_levels - 1) e)"

definition is_transactional :: "u32 codec \<Rightarrow> ext \<Rightarrow> bool exec" where
  "is_transactional c e = bind_exec (get_transaction_level c e) (\<lambda>l. Done (0 < l))"

text \<open>Run \<open>f\<close> in a transaction and close it as the outcome says; the host functions panic when
  there is nothing to close.\<close>

definition in_transaction ::
  "('s \<Rightarrow> 's) \<Rightarrow> ('s \<Rightarrow> ('s \<times> (unit, 'e) result) exec) \<Rightarrow> ('s \<Rightarrow> ('s \<times> (unit, 'e) result) exec) \<Rightarrow>
   ('s \<Rightarrow> ('s \<times> 'r transaction_outcome) exec) \<Rightarrow> 's \<Rightarrow> ('s \<times> 'r) exec" where
  "in_transaction start commit rollback f s =
     bind_exec (f (start s)) (\<lambda>(s, outcome).
     case outcome of
       Commit res \<Rightarrow> bind_exec (commit s) (\<lambda>(s, r). bind_exec (expect_ok r) (\<lambda>_. Done (s, res)))
     | Rollback res \<Rightarrow> bind_exec (rollback s) (\<lambda>(s, r). bind_exec (expect_ok r) (\<lambda>_. Done (s, res))))"

definition with_transaction ::
  "u32 codec \<Rightarrow> (transactional_error \<Rightarrow> 'e) \<Rightarrow> (ext \<Rightarrow> (ext \<times> ('a, 'e) result transaction_outcome) exec) \<Rightarrow>
   ext \<Rightarrow> (ext \<times> ('a, 'e) result) exec" where
  "with_transaction c into f e =
     bind_exec (inc_transaction_level c e) (\<lambda>(e, guard).
     case guard of
       Err _ \<Rightarrow> Done (e, Err (into LimitReached))
     | Ok _ \<Rightarrow>
         bind_exec (in_transaction storage_start_transaction storage_commit_transaction
           storage_rollback_transaction f e) (\<lambda>(e, res).
         bind_exec (dec_transaction_level c e) (\<lambda>e. Done (e, res))))"

definition with_transaction_unchecked ::
  "u32 codec \<Rightarrow> (ext \<Rightarrow> (ext \<times> 'r transaction_outcome) exec) \<Rightarrow> ext \<Rightarrow> (ext \<times> 'r) exec" where
  "with_transaction_unchecked c f e =
     bind_exec (inc_transaction_level c e) (\<lambda>(e, maybe_guard).
     bind_exec (in_transaction storage_start_transaction storage_commit_transaction
       storage_rollback_transaction f e) (\<lambda>(e, res).
     case maybe_guard of
       Ok _ \<Rightarrow> bind_exec (dec_transaction_level c e) (\<lambda>e. Done (e, res))
     | Err _ \<Rightarrow> Done (e, res)))"

definition outcome_of ::
  "('s \<Rightarrow> ('s \<times> ('a, 'e) result) exec) \<Rightarrow> 's \<Rightarrow> ('s \<times> ('a, 'e) result transaction_outcome) exec" where
  "outcome_of f s = bind_exec (f s) (\<lambda>(s, r). Done (s, if is_ok r then Commit r else Rollback r))"

definition with_storage_layer ::
  "u32 codec \<Rightarrow> (transactional_error \<Rightarrow> 'e) \<Rightarrow> (ext \<Rightarrow> (ext \<times> ('a, 'e) result) exec) \<Rightarrow>
   ext \<Rightarrow> (ext \<times> ('a, 'e) result) exec" where
  "with_storage_layer c into f = with_transaction c into (outcome_of f)"

definition in_storage_layer ::
  "u32 codec \<Rightarrow> (transactional_error \<Rightarrow> 'e) \<Rightarrow> (ext \<Rightarrow> (ext \<times> ('a, 'e) result) exec) \<Rightarrow>
   ext \<Rightarrow> (ext \<times> ('a, 'e) result) exec" where
  "in_storage_layer c into f e =
     bind_exec (is_transactional c e) (\<lambda>b. if b then f e else with_storage_layer c into f e)"

section \<open>Transactions over a snapshot store\<close>

text \<open>A body is balanced when it closes exactly the transactions it opens and so leaves every
  view below the top one alone.\<close>

definition balanced ::
  "('s \<Rightarrow> bool) \<Rightarrow> ('s \<Rightarrow> 'a list) \<Rightarrow> ('s \<Rightarrow> nat) \<Rightarrow> ('s \<Rightarrow> ('s \<times> 'r) exec) \<Rightarrow> bool" where
  "balanced good snaps level f \<longleftrightarrow>
     (\<forall>s s' r. good s \<longrightarrow> f s = Done (s', r) \<longrightarrow>
        good s' \<and> butlast (snaps s') = butlast (snaps s) \<and> level s' = level s)"

lemma balancedD:
  assumes "balanced good snaps level f" "good s" "f s = Done (s', r)"
  shows "good s'" "butlast (snaps s') = butlast (snaps s)" "level s' = level s"
  using assms by (auto simp: balanced_def)

context snapshot_store
begin

lemma in_transaction_Commit:
  assumes inv: "inv s" and bal: "balanced inv snaps level f" and f: "f (start s) = Done (s1, Commit r)"
  shows "\<exists>s'. in_transaction start commit rollback f s = Done (s', r) \<and> inv s' \<and> level s' = level s \<and>
    snaps s' = butlast (snaps s) @ [last (snaps s1)]"
proof -
  note st = start_law [OF inv]
  note b = balancedD [OF bal _ f]
  have "butlast (snaps s1) = snaps s" using b(2) st by simp
  then have "butlast (butlast (snaps s1)) = butlast (snaps s)" by simp
  moreover obtain s' where "commit s1 = Done (s', Ok ())" "inv s'"
    "snaps s' = butlast (butlast (snaps s1)) @ [last (snaps s1)]" "level s' = level s"
    using commit_law [OF b(1), of "level s"] b(3) st by auto
  ultimately show ?thesis
    using f by (simp add: in_transaction_def)
qed

lemma in_transaction_Rollback:
  assumes inv: "inv s" and bal: "balanced inv snaps level f" and f: "f (start s) = Done (s1, Rollback r)"
  shows "\<exists>s'. in_transaction start commit rollback f s = Done (s', r) \<and> inv s' \<and> level s' = level s \<and>
    snaps s' = snaps s"
proof -
  note st = start_law [OF inv]
  note b = balancedD [OF bal _ f]
  have "butlast (snaps s1) = snaps s" using b(2) st by simp
  moreover obtain s' where "rollback s1 = Done (s', Ok ())" "inv s'"
    "snaps s' = butlast (snaps s1)" "level s' = level s"
    using rollback_law [OF b(1), of "level s"] b(3) st by auto
  ultimately show ?thesis
    using f by (simp add: in_transaction_def)
qed

lemma in_transaction_balanced:
  assumes bal: "balanced inv snaps level f"
  shows "balanced inv snaps level (in_transaction start commit rollback f)"
  unfolding balanced_def
proof (intro allI impI)
  fix s s' r
  assume inv: "inv s" and run: "in_transaction start commit rollback f s = Done (s', r)"
  then obtain s1 oc where f: "f (start s) = Done (s1, oc)"
    by (auto simp: in_transaction_def)
  show "inv s' \<and> butlast (snaps s') = butlast (snaps s) \<and> level s' = level s"
  proof (cases oc)
    case (Commit r1)
    with in_transaction_Commit [OF inv bal] f run show ?thesis by fastforce
  next
    case (Rollback r1)
    with in_transaction_Rollback [OF inv bal] f run show ?thesis by fastforce
  qed
qed

end

section \<open>The externalities as a snapshot store\<close>

definition ext_inv :: "ext \<Rightarrow> bool" where
  "ext_inv e = lockstep (ext_overlay e)"

definition ext_views :: "ext \<Rightarrow> overlay_view list" where
  "ext_views e = views (ext_overlay e)"

definition ext_level :: "ext \<Rightarrow> nat" where
  "ext_level e = level_changes (ext_overlay e)"

text \<open>The value the runtime reads under a key: the overlay's, else the backend's.\<close>

definition storage_view :: "ext \<Rightarrow> bytes \<Rightarrow> bytes option" where
  "storage_view e k = (case fst (last (ext_views e)) k of Some v \<Rightarrow> v | None \<Rightarrow> ext_backend e k)"

interpretation ext_store: snapshot_store ext_inv ext_views ext_level storage_start_transaction
  storage_commit_transaction storage_rollback_transaction
proof (unfold_locales, goal_cases)
  case (1 s)
  then show ?case using overlay.snaps_ne by (simp add: ext_inv_def ext_views_def)
next
  case (2 s)
  then show ?case
    using overlay.start_law [of "ext_overlay s"]
    by (simp add: ext_inv_def ext_views_def ext_level_def storage_start_transaction_def)
next
  case (3 s n)
  then show ?case
    using overlay.commit_law [of "ext_overlay s" n]
    by (auto simp: ext_inv_def ext_views_def ext_level_def storage_commit_transaction_def)
next
  case (4 s n)
  then show ?case
    using overlay.rollback_law [of "ext_overlay s" n]
    by (auto simp: ext_inv_def ext_views_def ext_level_def storage_rollback_transaction_def)
qed

lemma fst_last_views: "fst (last (views oc)) = current (top_changes oc)"
  using nth_snapshots [of "transaction_depth (top_changes oc)" "top_changes oc"] last_snapshots [of "top_changes oc"]
  by (simp add: last_views view_at_def depth_changes_def last_conv_nth)

lemma ext_storage_view: "ext_inv e \<Longrightarrow> ext_storage k e = Done (storage_view e k)"
  by (simp add: ext_storage_def storage_view_def ext_inv_def ext_views_def storage_current fst_last_views)

text \<open>\<open>stored k v e e'\<close>: \<open>e'\<close> is \<open>e\<close> with \<open>v\<close> placed under \<open>k\<close>.\<close>

definition stored :: "bytes \<Rightarrow> bytes option \<Rightarrow> ext \<Rightarrow> ext \<Rightarrow> bool" where
  "stored k v e e' \<longleftrightarrow> ext_inv e' \<and> ext_level e' = ext_level e \<and> ext_backend e' = ext_backend e \<and>
     ext_views e' = butlast (ext_views e) @ [((fst (last (ext_views e)))(k \<mapsto> v), snd (last (ext_views e)))]"

lemma storedD:
  assumes "stored k v e e'"
  shows "ext_inv e'" "ext_level e' = ext_level e" "ext_backend e' = ext_backend e"
    "storage_view e' k' = (if k' = k then v else storage_view e k')"
    "butlast (ext_views e') = butlast (ext_views e)" "snd (last (ext_views e')) = snd (last (ext_views e))"
  using assms by (auto simp: stored_def storage_view_def split: option.splits)

lemma place_storage_stored:
  assumes "ext_inv e" "\<not> is_child_storage_key k"
  shows "\<exists>e'. place_storage c k v e = Done e' \<and> stored k v e e'"
proof -
  from assms(1) have l: "lockstep (ext_overlay e)" by (simp add: ext_inv_def)
  obtain t where t: "set_storage (decode c) k v (ext_overlay e) = Done ((ext_overlay e)\<lparr>top_changes := t\<rparr>)"
    "wrote k v (top_changes (ext_overlay e)) t"
    by (rule set_storage_Done [OF l])
  moreover have "closable_level t = closable_level (top_changes (ext_overlay e))"
    using t(2) wrote_depth [OF t(2)] by (simp add: wrote_def closable_level_def)
  ultimately have "stored k v e (e\<lparr>ext_overlay := (ext_overlay e)\<lparr>top_changes := t\<rparr>\<rparr>)"
    using views_top_wrote [OF l t(2)] lockstep_top_wrote [OF l t(2)]
    by (simp add: stored_def ext_inv_def ext_views_def ext_level_def level_changes_def)
  with t(1) assms(2) show ?thesis by (simp add: place_storage_def)
qed

section \<open>The layer counter\<close>

definition level_view :: "u32 codec \<Rightarrow> ext \<Rightarrow> u32" where
  "level_view c e = (case storage_view e TRANSACTION_LEVEL_KEY of
     None \<Rightarrow> 0 | Some b \<Rightarrow> (case decode c b of Some l \<Rightarrow> l | None \<Rightarrow> 0))"

lemma get_transaction_level_view: "ext_inv e \<Longrightarrow> get_transaction_level c e = Done (level_view c e)"
  by (simp add: get_transaction_level_def ext_storage_view level_view_def)

lemma level_key_not_child: "\<not> is_child_storage_key TRANSACTION_LEVEL_KEY"
  by (simp add: is_child_storage_key_def starts_with_def CHILD_STORAGE_KEY_PREFIX_def
      TRANSACTION_LEVEL_KEY_def str_bytes_def)

lemma stored_level:
  assumes "codec_ok c"
  shows "stored TRANSACTION_LEVEL_KEY (Some (encode c l)) e e' \<Longrightarrow> level_view c e' = l"
    "stored TRANSACTION_LEVEL_KEY None e e' \<Longrightarrow> level_view c e' = 0"
  using assms by (simp_all add: level_view_def storedD(4))

text \<open>\<open>relevel n e e'\<close>: \<open>e'\<close> is \<open>e\<close> with the layer counter at \<open>n\<close> and nothing else changed.\<close>

definition relevel :: "u32 codec \<Rightarrow> u32 \<Rightarrow> ext \<Rightarrow> ext \<Rightarrow> bool" where
  "relevel c n e e' \<longleftrightarrow> ext_inv e' \<and> ext_level e' = ext_level e \<and> ext_backend e' = ext_backend e \<and>
     level_view c e' = n \<and> (\<forall>k. k \<noteq> TRANSACTION_LEVEL_KEY \<longrightarrow> storage_view e' k = storage_view e k) \<and>
     butlast (ext_views e') = butlast (ext_views e) \<and> snd (last (ext_views e')) = snd (last (ext_views e))"

lemma relevel_refl: "ext_inv e \<Longrightarrow> relevel c (level_view c e) e e"
  by (simp add: relevel_def)

lemma stored_relevel:
  assumes "codec_ok c" "stored TRANSACTION_LEVEL_KEY v e e'"
    "v = Some (encode c n) \<or> v = None \<and> n = 0"
  shows "relevel c n e e'"
  using assms storedD [OF assms(2)] stored_level [OF assms(1)] by (auto simp: relevel_def)

lemma inc_transaction_level_Done:
  assumes c: "codec_ok c" and inv: "ext_inv e"
  shows "if level_view c e < TRANSACTIONAL_LIMIT
    then \<exists>e'. inc_transaction_level c e = Done (e', Ok ()) \<and> relevel c (level_view c e + 1) e e'
    else inc_transaction_level c e = Done (e, Err ())"
proof (cases "level_view c e < TRANSACTIONAL_LIMIT")
  case True
  obtain e' where e': "place_storage c TRANSACTION_LEVEL_KEY (Some (encode c (level_view c e + 1))) e = Done e'"
    "stored TRANSACTION_LEVEL_KEY (Some (encode c (level_view c e + 1))) e e'"
    using place_storage_stored [OF inv level_key_not_child] by blast
  with True show ?thesis
    using stored_relevel [OF c e'(2)]
    by (simp add: inc_transaction_level_def get_transaction_level_view inv set_transaction_level_def)
next
  case False
  then show ?thesis
    by (simp add: inc_transaction_level_def get_transaction_level_view inv)
qed

lemma dec_transaction_level_Done:
  assumes c: "codec_ok c" and inv: "ext_inv e"
  shows "\<exists>e'. dec_transaction_level c e = Done e' \<and>
    relevel c (if level_view c e = 0 then 0 else level_view c e - 1) e e'"
proof -
  let ?l = "level_view c e" and ?K = TRANSACTION_LEVEL_KEY
  consider "?l = 0" | "?l = 1" | "?l \<noteq> 0" "?l \<noteq> 1" by blast
  then show ?thesis
  proof cases
    case 1
    then show ?thesis
      using relevel_refl [OF inv, of c] by (simp add: dec_transaction_level_def get_transaction_level_view inv)
  next
    case 2
    obtain e' where e': "place_storage c ?K None e = Done e'" "stored ?K None e e'"
      using place_storage_stored [OF inv level_key_not_child] by blast
    with 2 show ?thesis
      using stored_relevel [OF c e'(2)]
      by (simp add: dec_transaction_level_def get_transaction_level_view inv kill_transaction_level_def)
  next
    case 3
    obtain e' where e': "place_storage c ?K (Some (encode c (?l - 1))) e = Done e'"
      "stored ?K (Some (encode c (?l - 1))) e e'"
      using place_storage_stored [OF inv level_key_not_child] by blast
    with 3 show ?thesis
      using stored_relevel [OF c e'(2)]
      by (simp add: dec_transaction_level_def get_transaction_level_view inv set_transaction_level_def)
  qed
qed

section \<open>What a storage layer guarantees\<close>

text \<open>A body that a layer may run: balanced, and without access to the backend.\<close>

definition layer_body :: "(ext \<Rightarrow> (ext \<times> 'r) exec) \<Rightarrow> bool" where
  "layer_body f \<longleftrightarrow> balanced ext_inv ext_views ext_level f \<and>
     (\<forall>e e' r. f e = Done (e', r) \<longrightarrow> ext_backend e' = ext_backend e)"

lemma balanced_outcome_of:
  "balanced good snaps level f \<Longrightarrow> balanced good snaps level (outcome_of f)"
  unfolding balanced_def by (auto simp: outcome_of_def)

lemma outcome_of_Done:
  "outcome_of f s = Done (s', out) \<longleftrightarrow> (\<exists>r. f s = Done (s', r) \<and> out = (if is_ok r then Commit r else Rollback r))"
  by (auto simp: outcome_of_def)

lemma ext_close_backend:
  "storage_commit_transaction e = Done (e', r) \<Longrightarrow> ext_backend e' = ext_backend e"
  "storage_rollback_transaction e = Done (e', r) \<Longrightarrow> ext_backend e' = ext_backend e"
  by (auto simp: storage_commit_transaction_def storage_rollback_transaction_def)

lemma in_transaction_backend:
  assumes "layer_body f"
    "in_transaction storage_start_transaction storage_commit_transaction storage_rollback_transaction
       (outcome_of f) e = Done (e', r)"
  shows "ext_backend e' = ext_backend e"
proof -
  from assms(2) obtain e1 out where e1: "outcome_of f (storage_start_transaction e) = Done (e1, out)"
    by (auto simp: in_transaction_def)
  then have "ext_backend e1 = ext_backend (storage_start_transaction e)"
    using assms(1) by (auto simp: outcome_of_Done layer_body_def simp del: all_simps ex_simps)
  then have "ext_backend e1 = ext_backend e"
    by (simp add: storage_start_transaction_def)
  with assms(2) e1 show ?thesis
    by (auto simp: in_transaction_def split: transaction_outcome.splits dest!: ext_close_backend)
qed

lemma same_views_relevel:
  "ext_inv e' \<Longrightarrow> ext_views e' = ext_views e \<Longrightarrow> ext_level e' = ext_level e \<Longrightarrow>
   ext_backend e' = ext_backend e \<Longrightarrow> relevel c (level_view c e) e e'"
  by (simp add: relevel_def level_view_def storage_view_def cong: option.case_cong)

lemma relevel_trans: "relevel c m e e1 \<Longrightarrow> relevel c n e1 e2 \<Longrightarrow> relevel c n e e2"
  by (auto simp: relevel_def)

lemma below_limit:
  assumes "l < TRANSACTIONAL_LIMIT"
  shows "l + 1 \<noteq> 0" "l + 1 - 1 = l"
proof -
  have "l \<noteq> - 1" using assms by (auto simp: TRANSACTIONAL_LIMIT_def)
  then show "l + 1 \<noteq> 0" by (simp add: eq_neg_iff_add_eq_0)
qed simp

lemma relevelD:
  assumes "relevel c n e e'"
  shows "ext_inv e'" "ext_level e' = ext_level e" "ext_backend e' = ext_backend e" "level_view c e' = n"
    "k \<noteq> TRANSACTION_LEVEL_KEY \<Longrightarrow> storage_view e' k = storage_view e k"
    "butlast (ext_views e') = butlast (ext_views e)" "snd (last (ext_views e')) = snd (last (ext_views e))"
  using assms by (auto simp: relevel_def)

text \<open>The transaction inside a layer, for each of the two results of the body.\<close>

lemma layer_transaction_Err:
  assumes inv: "ext_inv e" and body: "layer_body f" and f: "f (storage_start_transaction e) = Done (e2, Err x)"
  obtains e3 where "in_transaction storage_start_transaction storage_commit_transaction
      storage_rollback_transaction (outcome_of f) e = Done (e3, Err x)" "relevel c (level_view c e) e e3"
proof -
  have bal: "balanced ext_inv ext_views ext_level (outcome_of f)"
    using body by (simp add: layer_body_def balanced_outcome_of)
  have "outcome_of f (storage_start_transaction e) = Done (e2, Rollback (Err x))"
    using f by (simp add: outcome_of_def)
  from ext_store.in_transaction_Rollback [OF inv bal this] obtain e3 where
    e3: "in_transaction storage_start_transaction storage_commit_transaction
      storage_rollback_transaction (outcome_of f) e = Done (e3, Err x)"
      "ext_inv e3" "ext_level e3 = ext_level e" "ext_views e3 = ext_views e"
    by auto
  with in_transaction_backend [OF body e3(1)] that show ?thesis
    by (auto intro: same_views_relevel)
qed

lemma layer_transaction_Ok:
  assumes inv: "ext_inv e" and body: "layer_body f" and f: "f (storage_start_transaction e) = Done (e2, Ok v)"
  obtains e3 where "in_transaction storage_start_transaction storage_commit_transaction
      storage_rollback_transaction (outcome_of f) e = Done (e3, Ok v)" "ext_inv e3" "ext_level e3 = ext_level e"
    "ext_backend e3 = ext_backend e" "butlast (ext_views e3) = butlast (ext_views e)"
    "last (ext_views e3) = last (ext_views e2)" "storage_view e3 = storage_view e2"
proof -
  have bal: "balanced ext_inv ext_views ext_level (outcome_of f)"
    using body by (simp add: layer_body_def balanced_outcome_of)
  have "outcome_of f (storage_start_transaction e) = Done (e2, Commit (Ok v))"
    using f by (simp add: outcome_of_def)
  from ext_store.in_transaction_Commit [OF inv bal this] obtain e3 where
    e3: "in_transaction storage_start_transaction storage_commit_transaction
      storage_rollback_transaction (outcome_of f) e = Done (e3, Ok v)"
      "ext_inv e3" "ext_level e3 = ext_level e" "ext_views e3 = butlast (ext_views e) @ [last (ext_views e2)]"
    by auto
  have b: "ext_backend e3 = ext_backend e"
    by (rule in_transaction_backend [OF body e3(1)])
  moreover have "ext_backend e2 = ext_backend (storage_start_transaction e)"
    using body f by (auto simp: layer_body_def simp del: all_simps ex_simps)
  then have "storage_view e3 = storage_view e2"
    using e3(4) b by (intro ext) (simp add: storage_view_def storage_start_transaction_def cong: option.case_cong)
  ultimately show ?thesis
    using e3 by (intro that [of e3]) auto
qed

text \<open>Everything a call of \<open>with_storage_layer\<close> below the limit can do.\<close>

definition layer_effect ::
  "u32 codec \<Rightarrow> ext \<Rightarrow> ext \<Rightarrow> ('a, 'x) result \<Rightarrow> ext \<Rightarrow> bool" where
  "layer_effect c e e2 r e' \<longleftrightarrow>
     ext_inv e' \<and> ext_level e' = ext_level e \<and> ext_backend e' = ext_backend e \<and>
     butlast (ext_views e') = butlast (ext_views e) \<and>
     (case r of
        Err _ \<Rightarrow> relevel c (level_view c e) e e'
      | Ok _ \<Rightarrow> (\<forall>k. k \<noteq> TRANSACTION_LEVEL_KEY \<longrightarrow> storage_view e' k = storage_view e2 k) \<and>
          snd (last (ext_views e')) = snd (last (ext_views e2)) \<and>
          level_view c e' = (if level_view c e2 = 0 then 0 else level_view c e2 - 1))"

lemma with_storage_layer_run:
  assumes c: "codec_ok c" and inv: "ext_inv e" and body: "layer_body f"
    and lim: "level_view c e < TRANSACTIONAL_LIMIT"
  obtains e1 where "relevel c (level_view c e + 1) e e1"
    "f (storage_start_transaction e1) = Panic \<Longrightarrow> with_storage_layer c into f e = Panic"
    "\<And>e2 r. f (storage_start_transaction e1) = Done (e2, r) \<Longrightarrow>
       \<exists>e'. with_storage_layer c into f e = Done (e', r) \<and> layer_effect c e e2 r e'"
proof -
  obtain e1 where e1: "inc_transaction_level c e = Done (e1, Ok ())" "relevel c (level_view c e + 1) e e1"
    using inc_transaction_level_Done [OF c inv] lim by auto
  note inv1 = relevelD(1) [OF e1(2)]
  have "\<exists>e'. with_storage_layer c into f e = Done (e', r) \<and> layer_effect c e e2 r e'"
    if f: "f (storage_start_transaction e1) = Done (e2, r)" for e2 r
  proof (cases r)
    case (Ok v)
    obtain e3 where e3: "in_transaction storage_start_transaction storage_commit_transaction
        storage_rollback_transaction (outcome_of f) e1 = Done (e3, Ok v)" "ext_inv e3" "ext_level e3 = ext_level e1"
      "ext_backend e3 = ext_backend e1" "butlast (ext_views e3) = butlast (ext_views e1)"
      "last (ext_views e3) = last (ext_views e2)" "storage_view e3 = storage_view e2"
      by (rule layer_transaction_Ok [OF inv1 body f [unfolded Ok]])
    obtain e' where "dec_transaction_level c e3 = Done e'"
      "relevel c (if level_view c e3 = 0 then 0 else level_view c e3 - 1) e3 e'"
      using dec_transaction_level_Done [OF c e3(2)] by auto
    moreover have "level_view c e3 = level_view c e2"
      using e3(7) by (simp add: level_view_def)
    ultimately show ?thesis
      using Ok e1 e3 relevelD [OF e1(2)]
      by (auto simp: with_storage_layer_def with_transaction_def layer_effect_def dest: relevelD)
  next
    case (Err x)
    obtain e3 where e3: "in_transaction storage_start_transaction storage_commit_transaction
        storage_rollback_transaction (outcome_of f) e1 = Done (e3, Err x)" "relevel c (level_view c e1) e1 e3"
      by (rule layer_transaction_Err [OF inv1 body f [unfolded Err], where c = c])
    obtain e' where e': "dec_transaction_level c e3 = Done e'" "relevel c (level_view c e) e3 e'"
      using dec_transaction_level_Done [OF c relevelD(1) [OF e3(2)]] relevelD(4) [OF e3(2)]
        relevelD(4) [OF e1(2)] below_limit [OF lim] by auto
    have "relevel c (level_view c e) e e'"
      using e1(2) e3(2) e'(2) by (blast intro: relevel_trans)
    then show ?thesis
      using Err e1(1) e3(1) e'(1)
      by (auto simp: with_storage_layer_def with_transaction_def layer_effect_def dest: relevelD)
  qed
  moreover have "f (storage_start_transaction e1) = Panic \<Longrightarrow> with_storage_layer c into f e = Panic"
    using e1(1) by (simp add: with_storage_layer_def with_transaction_def in_transaction_def outcome_of_def)
  ultimately show ?thesis
    using e1(2) that by blast
qed

lemma with_storage_layer_limit:
  assumes "codec_ok c" "ext_inv e" "\<not> level_view c e < TRANSACTIONAL_LIMIT"
  shows "with_storage_layer c into f e = Done (e, Err (into LimitReached))"
  using inc_transaction_level_Done [OF assms(1,2)] assms(3)
  by (simp add: with_storage_layer_def with_transaction_def)

lemma with_storage_layer_effect:
  assumes c: "codec_ok c" and inv: "ext_inv e" and body: "layer_body f"
    and lim: "level_view c e < TRANSACTIONAL_LIMIT" and run: "with_storage_layer c into f e = Done (e', r)"
  obtains e1 e2 where "relevel c (level_view c e + 1) e e1" "f (storage_start_transaction e1) = Done (e2, r)"
    "layer_effect c e e2 r e'"
proof -
  obtain e1 where e1: "relevel c (level_view c e + 1) e e1"
    "f (storage_start_transaction e1) = Panic \<Longrightarrow> with_storage_layer c into f e = Panic"
    "\<And>e2 r. f (storage_start_transaction e1) = Done (e2, r) \<Longrightarrow>
       \<exists>e'. with_storage_layer c into f e = Done (e', r) \<and> layer_effect c e e2 r e'"
    using with_storage_layer_run [OF c inv body lim, where into = into] by blast
  obtain e2 r2 where e2: "f (storage_start_transaction e1) = Done (e2, r2)"
    using e1(2) run by (cases "f (storage_start_transaction e1)") auto
  with e1(3) [OF e2] run e1(1) that show ?thesis by auto
qed

text \<open>Writing a key, and running a layer inside a layer, are bodies of a layer.\<close>

lemma layer_body_place:
  assumes "\<not> is_child_storage_key k"
  shows "layer_body (\<lambda>e. bind_exec (place_storage c k v e) (\<lambda>e. Done (e, r)))"
proof -
  have "ext_inv e' \<and> butlast (ext_views e') = butlast (ext_views e) \<and> ext_level e' = ext_level e"
    if "ext_inv e" "place_storage c k v e = Done e'" for e e'
    using place_storage_stored [OF that(1) assms, of c v] that(2) by (auto dest: storedD)
  moreover have "ext_backend e' = ext_backend e" if "place_storage c k v e = Done e'" for e e'
    using that by (auto simp: place_storage_def split: if_splits)
  ultimately show ?thesis
    by (auto simp: layer_body_def balanced_def)
qed

lemma with_storage_layer_backend:
  assumes "layer_body f" "with_storage_layer c into f e = Done (e', r)"
  shows "ext_backend e' = ext_backend e"
proof -
  have place: "place_storage c k v e = Done e' \<Longrightarrow> ext_backend e' = ext_backend e" for k v e e'
    by (auto simp: place_storage_def split: if_splits)
  have inc: "inc_transaction_level c e = Done (e', g) \<Longrightarrow> ext_backend e' = ext_backend e" for e e' g
    by (auto simp: inc_transaction_level_def set_transaction_level_def split: if_splits dest: place)
  have dec: "dec_transaction_level c e = Done e' \<Longrightarrow> ext_backend e' = ext_backend e" for e e'
    by (auto simp: dec_transaction_level_def set_transaction_level_def kill_transaction_level_def
        split: if_splits dest: place)
  from assms(2) obtain e1 g where g: "inc_transaction_level c e = Done (e1, g)"
    by (auto simp: with_storage_layer_def with_transaction_def)
  show ?thesis
    using assms(2) g inc [OF g]
    by (cases g) (auto simp: with_storage_layer_def with_transaction_def dest!: dec in_transaction_backend [OF assms(1)])
qed

lemma layer_body_with_storage_layer:
  assumes c: "codec_ok c" and body: "layer_body f"
  shows "layer_body (with_storage_layer c into f)"
proof -
  have "ext_inv e' \<and> butlast (ext_views e') = butlast (ext_views e) \<and> ext_level e' = ext_level e"
    if inv: "ext_inv e" and run: "with_storage_layer c into f e = Done (e', r)" for e e' r
  proof (cases "level_view c e < TRANSACTIONAL_LIMIT")
    case True
    show ?thesis
      by (rule with_storage_layer_effect [OF c inv body True run]) (simp add: layer_effect_def)
  next
    case False
    then show ?thesis
      using with_storage_layer_limit [OF c inv False, of into f] run inv by simp
  qed
  then show ?thesis
    using with_storage_layer_backend [OF body] by (auto simp: layer_body_def balanced_def)
qed

text \<open>
  C2: A storage layer is atomic.  When \<open>with_storage_layer\<close> returns an error, be it the error of the
  body or the layer limit, the state is the one before the call: every storage key reads
  as before, and so do child storage, the off-chain index, the enclosing transactions and the
  layer counter, whatever the body wrote.
\<close>

theorem storage_layer_err_restores:
  assumes c: "codec_ok c" and inv: "ext_inv e" and body: "layer_body f"
    and run: "with_storage_layer c into f e = Done (e', Err x)"
  shows "(\<forall>k. k \<noteq> TRANSACTION_LEVEL_KEY \<longrightarrow> storage_view e' k = storage_view e k) \<and>
    snd (last (ext_views e')) = snd (last (ext_views e)) \<and> butlast (ext_views e') = butlast (ext_views e) \<and>
    get_transaction_level c e' = get_transaction_level c e"
proof (cases "level_view c e < TRANSACTIONAL_LIMIT")
  case True
  have "relevel c (level_view c e) e e'"
    by (rule with_storage_layer_effect [OF c inv body True run]) (simp add: layer_effect_def)
  then show ?thesis
    using get_transaction_level_view [of e' c] relevelD(1,4) [of c _ e e']
    by (auto simp: get_transaction_level_view inv dest: relevelD)
next
  case False
  then show ?thesis
    using with_storage_layer_limit [OF c inv False, of into f] run by simp
qed

text \<open>
  C3: A storage layer commits.  When \<open>with_storage_layer\<close> returns \<open>Ok\<close>, the body ran once, on the state
  with the layer counter raised and a fresh transaction open, and everything it wrote to
  storage, child storage and the off-chain index is what the caller now sees, while the
  enclosing transactions are untouched.
\<close>

theorem storage_layer_ok_commits:
  assumes c: "codec_ok c" and inv: "ext_inv e" and body: "layer_body f"
    and run: "with_storage_layer c into f e = Done (e', Ok v)"
  shows "\<exists>e1 e2. ext_inv e1 \<and> (\<forall>k. k \<noteq> TRANSACTION_LEVEL_KEY \<longrightarrow> storage_view e1 k = storage_view e k) \<and>
    get_transaction_level c e1 = Done (level_view c e + 1) \<and>
    f (storage_start_transaction e1) = Done (e2, Ok v) \<and>
    (\<forall>k. k \<noteq> TRANSACTION_LEVEL_KEY \<longrightarrow> storage_view e' k = storage_view e2 k) \<and>
    snd (last (ext_views e')) = snd (last (ext_views e2)) \<and> butlast (ext_views e') = butlast (ext_views e)"
proof (cases "level_view c e < TRANSACTIONAL_LIMIT")
  case True
  obtain e1 e2 where e1: "relevel c (level_view c e + 1) e e1" "f (storage_start_transaction e1) = Done (e2, Ok v)"
    "layer_effect c e e2 (Ok v :: ('a, 'b) result) e'"
    by (rule with_storage_layer_effect [OF c inv body True run])
  with relevelD(1,4,5) [OF e1(1)] show ?thesis
    by (intro exI [of _ e1] exI [of _ e2]) (auto simp: layer_effect_def get_transaction_level_view)
next
  case False
  then show ?thesis
    using with_storage_layer_limit [OF c inv False, of into f] run by simp
qed

text \<open>
  C4: A storage layer adds no way to fail beyond the limit.  Below 255 layers it panics only if its body
  does and otherwise returns the body's result; from 255 layers on it returns the limit error
  without running the body.
\<close>

theorem storage_layer_total:
  assumes c: "codec_ok c" and inv: "ext_inv e" and body: "layer_body f"
  shows "if level_view c e < 255
    then \<exists>e1. ext_inv e1 \<and> level_view c e1 = level_view c e + 1 \<and>
      (case f (storage_start_transaction e1) of
         Panic \<Rightarrow> with_storage_layer c into f e = Panic
       | Done (_, r) \<Rightarrow> \<exists>e'. with_storage_layer c into f e = Done (e', r))
    else with_storage_layer c into f e = Done (e, Err (into LimitReached))"
proof (cases "level_view c e < 255")
  case True
  then have lim: "level_view c e < TRANSACTIONAL_LIMIT" by (simp add: TRANSACTIONAL_LIMIT_def)
  obtain e1 where "relevel c (level_view c e + 1) e e1"
    "f (storage_start_transaction e1) = Panic \<Longrightarrow> with_storage_layer c into f e = Panic"
    "\<And>e2 r. f (storage_start_transaction e1) = Done (e2, r) \<Longrightarrow>
       \<exists>e'. with_storage_layer c into f e = Done (e', r) \<and> layer_effect c e e2 r e'"
    using with_storage_layer_run [OF c inv body lim, where into = into] by blast
  then have "ext_inv e1 \<and> level_view c e1 = level_view c e + 1 \<and>
      (case f (storage_start_transaction e1) of
         Panic \<Rightarrow> with_storage_layer c into f e = Panic
       | Done (_, r) \<Rightarrow> \<exists>e'. with_storage_layer c into f e = Done (e', r))"
    by (auto split: exec.split dest: relevelD)
  with True show ?thesis by auto
next
  case False
  then show ?thesis
    using with_storage_layer_limit [OF c inv, of into f] by (simp add: TRANSACTIONAL_LIMIT_def)
qed

text \<open>An empty chain, a body that writes and fails, and one that writes and succeeds.\<close>

definition empty_ext :: ext where
  "empty_ext = \<lparr>ext_overlay = default_changes, ext_backend = Map.empty\<rparr>"

definition write_then :: "(unit, transactional_error) result \<Rightarrow> ext \<Rightarrow> (ext \<times> (unit, transactional_error) result) exec" where
  "write_then r e = bind_exec (place_storage scale_u32 [7] (Some [1]) e) (\<lambda>e. Done (e, r))"

lemma empty_ext_inv: "ext_inv empty_ext"
  by (simp add: ext_inv_def empty_ext_def lockstep_default)

lemma empty_ext_view: "storage_view empty_ext k = None"
proof -
  have "current (default_map :: change_set) k = None"
    by (simp add: current_conv_get)
  then show ?thesis
    by (simp add: storage_view_def ext_views_def empty_ext_def fst_last_views default_changes_def)
qed

lemma empty_ext_level: "level_view c empty_ext = 0"
  by (simp add: level_view_def empty_ext_view)

lemma key7_not_child: "\<not> is_child_storage_key [7]"
  by (simp add: is_child_storage_key_def starts_with_def CHILD_STORAGE_KEY_PREFIX_def str_bytes_def)

lemma write_then_body: "layer_body (write_then r)"
  unfolding write_then_def by (rule layer_body_place [OF key7_not_child])

lemma write_then_run:
  assumes "ext_inv e"
  obtains e2 where "write_then r (storage_start_transaction e) = Done (e2, r)" "storage_view e2 [7] = Some [1]"
proof -
  have "ext_inv (storage_start_transaction e)"
    using ext_store.start_law assms by blast
  then obtain e2 where "place_storage scale_u32 [7] (Some [1]) (storage_start_transaction e) = Done e2"
    "stored [7] (Some [1]) (storage_start_transaction e) e2"
    using place_storage_stored [OF _ key7_not_child] by blast
  with that show ?thesis by (simp add: write_then_def storedD(4))
qed

lemma write_then_layer:
  obtains e' where "with_storage_layer scale_u32 id (write_then r) empty_ext = Done (e', r)"
proof -
  have lim: "level_view scale_u32 empty_ext < TRANSACTIONAL_LIMIT"
    by (simp add: empty_ext_level TRANSACTIONAL_LIMIT_def)
  obtain e1 where e1: "relevel scale_u32 (level_view scale_u32 empty_ext + 1) empty_ext e1"
    "write_then r (storage_start_transaction e1) = Panic \<Longrightarrow> with_storage_layer scale_u32 id (write_then r) empty_ext = Panic"
    "\<And>e2 r'. write_then r (storage_start_transaction e1) = Done (e2, r') \<Longrightarrow>
       \<exists>e'. with_storage_layer scale_u32 id (write_then r) empty_ext = Done (e', r') \<and> layer_effect scale_u32 empty_ext e2 r' e'"
    using with_storage_layer_run [OF scale_u32_ok empty_ext_inv write_then_body lim, where into = id] by blast
  obtain e2 where "write_then r (storage_start_transaction e1) = Done (e2, r)" "storage_view e2 [7] = Some [1]"
    by (rule write_then_run [OF relevelD(1) [OF e1(1)]])
  with e1(3) that show ?thesis by blast
qed

theorem storage_layer_err_restores_witness:
  "\<exists>e'. with_storage_layer scale_u32 id (write_then (Err NoLayer)) empty_ext = Done (e', Err NoLayer) \<and>
     storage_view e' [7] = None"
proof -
  obtain e' where run: "with_storage_layer scale_u32 id (write_then (Err NoLayer)) empty_ext = Done (e', Err NoLayer)"
    by (rule write_then_layer)
  have "[7] \<noteq> TRANSACTION_LEVEL_KEY"
    by (simp add: TRANSACTION_LEVEL_KEY_def str_bytes_def)
  with storage_layer_err_restores [OF scale_u32_ok empty_ext_inv write_then_body run] run show ?thesis
    by (auto simp: empty_ext_view)
qed

theorem storage_layer_ok_commits_witness:
  "\<exists>e'. with_storage_layer scale_u32 id (write_then (Ok ())) empty_ext = Done (e', Ok ()) \<and>
     storage_view e' [7] = Some [1]"
proof -
  obtain e' where run: "with_storage_layer scale_u32 id (write_then (Ok ())) empty_ext = Done (e', Ok ())"
    by (rule write_then_layer)
  have "[7] \<noteq> TRANSACTION_LEVEL_KEY"
    by (simp add: TRANSACTION_LEVEL_KEY_def str_bytes_def)
  then obtain e1 e2 where e2: "write_then (Ok ()) (storage_start_transaction e1) = Done (e2, Ok ())"
    "storage_view e' [7] = storage_view e2 [7]" "ext_inv e1"
    using storage_layer_ok_commits [OF scale_u32_ok empty_ext_inv write_then_body run] by blast
  obtain e3 where "write_then (Ok ()) (storage_start_transaction e1) = Done (e3, Ok ())" "storage_view e3 [7] = Some [1]"
    by (rule write_then_run [OF e2(3)])
  with e2 run show ?thesis by auto
qed

theorem storage_layer_total_witness:
  "level_view scale_u32 empty_ext < 255 \<and>
   (\<exists>e'. with_storage_layer scale_u32 id (write_then (Ok ())) empty_ext = Done (e', Ok ()))"
proof -
  have l: "level_view scale_u32 empty_ext < 255"
    by (simp add: empty_ext_level)
  then obtain e1 where e1: "ext_inv e1" "case write_then (Ok ()) (storage_start_transaction e1) of
      Panic \<Rightarrow> with_storage_layer scale_u32 id (write_then (Ok ())) empty_ext = Panic
    | Done (_, r) \<Rightarrow> \<exists>e'. with_storage_layer scale_u32 id (write_then (Ok ())) empty_ext = Done (e', r)"
    using storage_layer_total [OF scale_u32_ok empty_ext_inv write_then_body, where into = id] by auto
  obtain e2 where "write_then (Ok ()) (storage_start_transaction e1) = Done (e2, Ok ())" "storage_view e2 [7] = Some [1]"
    by (rule write_then_run [OF e1(1)])
  with e1(2) l show ?thesis by simp
qed

end
