(* ===== verification/Offchain_Types.thy ===== *)
theory Offchain_Types
  imports Prelude
begin

text \<open>
  The off-chain vocabulary of \<open>primitives/core/src/offchain/mod.rs\<close>: storage kinds, request
  statuses and their numeric codes, timestamps, capabilities, the IPFS requests and
  responses, and the capability check of \<open>LimitedExternalities\<close>; with it the capabilities of an
  execution context (\<open>primitives/core/src/lib.rs\<close>) and the extensions a context is given
  (\<open>client/api/src/execution_extensions.rs\<close>).
\<close>

section \<open>Storage kinds and HTTP statuses\<close>

datatype storage_kind = PERSISTENT | LOCAL

definition storage_kind_to_u32 :: "storage_kind \<Rightarrow> u32" where
  "storage_kind_to_u32 c = (case c of PERSISTENT \<Rightarrow> 1 | LOCAL \<Rightarrow> 2)"

definition storage_kind_try_from :: "u32 \<Rightarrow> (storage_kind, unit) result" where
  "storage_kind_try_from kind =
     (if kind = 1 then Ok PERSISTENT else if kind = 2 then Ok LOCAL else Err ())"

datatype http_error = HttpError_DeadlineReached | HttpError_IoError | HttpError_Invalid

definition http_error_to_u32 :: "http_error \<Rightarrow> u32" where
  "http_error_to_u32 c =
     (case c of HttpError_DeadlineReached \<Rightarrow> 1 | HttpError_IoError \<Rightarrow> 2 | HttpError_Invalid \<Rightarrow> 3)"

definition http_error_try_from :: "u32 \<Rightarrow> (http_error, unit) result" where
  "http_error_try_from e =
     (if e = 1 then Ok HttpError_DeadlineReached
      else if e = 2 then Ok HttpError_IoError
      else if e = 3 then Ok HttpError_Invalid
      else Err ())"

datatype http_request_status = Http_DeadlineReached | Http_IoError | Http_Invalid | Http_Finished u16

definition http_status_to_u32 :: "http_request_status \<Rightarrow> u32" where
  "http_status_to_u32 status =
     (case status of
        Http_Invalid \<Rightarrow> 0
      | Http_DeadlineReached \<Rightarrow> 10
      | Http_IoError \<Rightarrow> 20
      | Http_Finished code \<Rightarrow> ucast code)"

definition http_status_try_from :: "u32 \<Rightarrow> (http_request_status, unit) result" where
  "http_status_try_from status =
     (if status = 0 then Ok Http_Invalid
      else if status = 10 then Ok Http_DeadlineReached
      else if status = 20 then Ok Http_IoError
      else if 100 \<le> status \<and> status \<le> 999 then Ok (Http_Finished (ucast status))
      else Err ())"

section \<open>Time\<close>

type_synonym timestamp = u64
type_synonym duration = u64

definition timestamp_add :: "timestamp \<Rightarrow> duration \<Rightarrow> timestamp" where
  "timestamp_add t d = saturating_add t d"

definition timestamp_sub :: "timestamp \<Rightarrow> duration \<Rightarrow> timestamp" where
  "timestamp_sub t d = saturating_sub t d"

definition timestamp_diff :: "timestamp \<Rightarrow> timestamp \<Rightarrow> duration" where
  "timestamp_diff t other = saturating_sub t other"

section \<open>IPFS requests and responses\<close>

type_synonym opaque_multiaddr = bytes

datatype ipfs_request =
    Rq_Addrs
  | Rq_AddBytes bytes byte
  | Rq_AddListeningAddr opaque_multiaddr
  | Rq_BitswapStats
  | Rq_CatBytes bytes
  | Rq_Connect opaque_multiaddr
  | Rq_Disconnect opaque_multiaddr
  | Rq_GetBlock bytes
  | Rq_FindPeer bytes
  | Rq_GetClosestPeers bytes
  | Rq_GetProviders bytes
  | Rq_Identity
  | Rq_InsertPin bytes bool
  | Rq_LocalAddrs
  | Rq_LocalRefs
  | Rq_Peers
  | Rq_Publish bytes bytes
  | Rq_RemoveBlock
  | Rq_RemoveListeningAddr opaque_multiaddr
  | Rq_RemovePin bytes bool
  | Rq_Subscribe bytes
  | Rq_SubscriptionList
  | Rq_Unsubscribe bytes

record bitswap_stats =
  blocks_sent :: u64
  data_sent :: u64
  blocks_received :: u64
  data_received :: u64
  dup_blks_received :: u64
  dup_data_received :: u64
  stat_peers :: "bytes list"
  stat_wantlist :: "(bytes \<times> 32 word) list"

datatype ipfs_response =
    Rs_Addrs "(bytes \<times> opaque_multiaddr list) list"
  | Rs_AddBytes bytes
  | Rs_BitswapStats bitswap_stats
  | Rs_CatBytes bytes
  | Rs_FindPeer "opaque_multiaddr list"
  | Rs_GetClosestPeers "bytes list"
  | Rs_GetProviders "bytes list"
  | Rs_Identity bytes "opaque_multiaddr list"
  | Rs_LocalAddrs "opaque_multiaddr list"
  | Rs_LocalRefs "bytes list"
  | Rs_Peers "opaque_multiaddr list"
  | Rs_RemoveBlock bytes
  | Rs_Success

datatype ipfs_request_status =
    St_DeadlineReached
  | St_IoError bytes
  | St_Invalid
  | St_Finished ipfs_response

type_synonym ipfs_request_id = u16

section \<open>Capabilities\<close>

type_synonym capabilities = u32

definition TRANSACTION_POOL :: capabilities where "TRANSACTION_POOL = 0x001"
definition HTTP :: capabilities where "HTTP = 0x002"
definition KEYSTORE :: capabilities where "KEYSTORE = 0x004"
definition RANDOMNESS :: capabilities where "RANDOMNESS = 0x008"
definition NETWORK_STATE :: capabilities where "NETWORK_STATE = 0x010"
definition OFFCHAIN_DB_READ :: capabilities where "OFFCHAIN_DB_READ = 0x020"
definition OFFCHAIN_DB_WRITE :: capabilities where "OFFCHAIN_DB_WRITE = 0x040"
definition NODE_AUTHORIZATION :: capabilities where "NODE_AUTHORIZATION = 0x080"
definition TIME :: capabilities where "TIME = 0x100"
definition IPFS :: capabilities where "IPFS = 0x0ff"

lemmas capability_defs =
  TRANSACTION_POOL_def HTTP_def KEYSTORE_def RANDOMNESS_def NETWORK_STATE_def OFFCHAIN_DB_READ_def
  OFFCHAIN_DB_WRITE_def NODE_AUTHORIZATION_def TIME_def IPFS_def

definition contains :: "capabilities \<Rightarrow> capabilities \<Rightarrow> bool" where
  "contains self other = (self AND other = other)"

definition rich_offchain_call :: capabilities where
  "rich_offchain_call = TRANSACTION_POOL OR KEYSTORE OR OFFCHAIN_DB_READ"

text \<open>The methods of the \<open>Externalities\<close> and \<open>DbExternalities\<close> traits that
  \<open>LimitedExternalities\<close> guards.\<close>

datatype ext_call =
    Call_is_validator
  | Call_network_state
  | Call_timestamp
  | Call_sleep_until
  | Call_random_seed
  | Call_http_request_start
  | Call_http_request_add_header
  | Call_http_request_write_body
  | Call_http_response_wait
  | Call_http_response_headers
  | Call_http_response_read_body
  | Call_ipfs_request_start
  | Call_ipfs_response_wait
  | Call_set_authorized_nodes
  | Call_local_storage_set
  | Call_local_storage_clear
  | Call_local_storage_compare_and_set
  | Call_local_storage_get

fun required_capability :: "ext_call \<Rightarrow> capabilities" where
  "required_capability Call_is_validator = KEYSTORE"
| "required_capability Call_network_state = NETWORK_STATE"
| "required_capability Call_timestamp = TIME"
| "required_capability Call_sleep_until = TIME"
| "required_capability Call_random_seed = RANDOMNESS"
| "required_capability Call_http_request_start = HTTP"
| "required_capability Call_http_request_add_header = HTTP"
| "required_capability Call_http_request_write_body = HTTP"
| "required_capability Call_http_response_wait = HTTP"
| "required_capability Call_http_response_headers = HTTP"
| "required_capability Call_http_response_read_body = HTTP"
| "required_capability Call_ipfs_request_start = IPFS"
| "required_capability Call_ipfs_response_wait = IPFS"
| "required_capability Call_set_authorized_nodes = NODE_AUTHORIZATION"
| "required_capability Call_local_storage_set = OFFCHAIN_DB_WRITE"
| "required_capability Call_local_storage_clear = OFFCHAIN_DB_WRITE"
| "required_capability Call_local_storage_compare_and_set = OFFCHAIN_DB_WRITE"
| "required_capability Call_local_storage_get = OFFCHAIN_DB_READ"

definition check :: "capabilities \<Rightarrow> capabilities \<Rightarrow> unit exec" where
  "check capabilities capability = (if contains capabilities capability then Done () else Panic)"

text \<open>A call through \<open>LimitedExternalities\<close>: the check, then the wrapped method.\<close>

definition limited :: "capabilities \<Rightarrow> ext_call \<Rightarrow> ('s \<Rightarrow> 'r) \<Rightarrow> 's \<Rightarrow> 'r exec" where
  "limited caps call inner s = bind_exec (check caps (required_capability call)) (\<lambda>_. Done (inner s))"

section \<open>Execution contexts\<close>

datatype execution_context = Importing | Syncing | BlockConstruction | OffchainCall "capabilities option"

definition context_capabilities :: "execution_context \<Rightarrow> capabilities" where
  "context_capabilities ctx =
     (case ctx of
        OffchainCall None \<Rightarrow> KEYSTORE OR OFFCHAIN_DB_READ OR TRANSACTION_POOL
      | OffchainCall (Some caps) \<Rightarrow> caps
      | _ \<Rightarrow> 0)"

datatype extension = KeystoreExt | TransactionPoolExt | OffchainDbExt capabilities | OffchainWorkerExt capabilities

record execution_extensions =
  ee_keystore :: bool
  ee_offchain_db :: bool
  ee_transaction_pool :: bool

text \<open>The extensions registered for a context; the flags say which services the node was started
  with, and the extensions of the factory come first.\<close>

definition extensions :: "execution_extensions \<Rightarrow> extension list \<Rightarrow> execution_context \<Rightarrow> extension list" where
  "extensions ee factory_exts ctx =
     (let caps = context_capabilities ctx in
      factory_exts @
      (if contains caps KEYSTORE \<and> ee_keystore ee then [KeystoreExt] else []) @
      (if contains caps TRANSACTION_POOL \<and> ee_transaction_pool ee then [TransactionPoolExt] else []) @
      (if (contains caps OFFCHAIN_DB_READ \<or> contains caps OFFCHAIN_DB_WRITE) \<and> ee_offchain_db ee
       then [OffchainDbExt caps] else []) @
      (case ctx of OffchainCall (Some _) \<Rightarrow> [OffchainWorkerExt caps] | _ \<Rightarrow> []))"

section \<open>Properties\<close>

lemma contains_iff_bits: "contains a b \<longleftrightarrow> (\<forall>n. bit b n \<longrightarrow> bit a n)"
proof
  assume "contains a b"
  then have "bit (a AND b) n = bit b n" for n by (simp add: contains_def)
  then show "\<forall>n. bit b n \<longrightarrow> bit a n" by (auto simp: bit_and_iff)
next
  assume "\<forall>n. bit b n \<longrightarrow> bit a n"
  then show "contains a b"
    unfolding contains_def by (intro bit_eqI) (auto simp: bit_and_iff)
qed

lemma contains_trans: "contains a b \<Longrightarrow> contains b c \<Longrightarrow> contains a c"
  by (auto simp: contains_iff_bits)

lemma contains_or: "contains a (b OR c) \<longleftrightarrow> contains a b \<and> contains a c"
  by (auto simp: contains_iff_bits bit_or_iff)

lemma IPFS_as_union:
  "IPFS = TRANSACTION_POOL OR HTTP OR KEYSTORE OR RANDOMNESS OR NETWORK_STATE OR OFFCHAIN_DB_READ OR
     OFFCHAIN_DB_WRITE OR NODE_AUTHORIZATION"
  by (simp add: capability_defs)

lemma check_Done_iff: "check caps cap = Done () \<longleftrightarrow> contains caps cap"
  by (simp add: check_def)

lemma unat_ucast_u16_u32: "unat (ucast (c :: u16) :: u32) = unat c"
  using unsigned_less [of c, where 'a = nat] by (simp add: unsigned_ucast_eq take_bit_nat_eq_self_iff)

lemma ucast_u16_u32_u16: "ucast (ucast (c :: u16) :: u32) = c"
  by (rule bit_eqI) (simp add: bit_simps)

text \<open>
  Numeric codes are faithful.  Every storage kind and HTTP error, and every HTTP status whose
  code is a three-digit one, survives the conversion to \<open>u32\<close> and back.
\<close>

theorem numeric_codes_roundtrip:
  assumes "\<And>code. status = Http_Finished code \<Longrightarrow> 100 \<le> code \<and> code \<le> 999"
  shows "storage_kind_try_from (storage_kind_to_u32 kind) = Ok kind \<and>
    http_error_try_from (http_error_to_u32 err) = Ok err \<and>
    http_status_try_from (http_status_to_u32 status) = Ok status"
proof (intro conjI)
  show "storage_kind_try_from (storage_kind_to_u32 kind) = Ok kind"
    by (cases kind) (simp_all add: storage_kind_try_from_def storage_kind_to_u32_def)
  show "http_error_try_from (http_error_to_u32 err) = Ok err"
    by (cases err) (simp_all add: http_error_try_from_def http_error_to_u32_def)
  show "http_status_try_from (http_status_to_u32 status) = Ok status"
  proof (cases status)
    case (Http_Finished code)
    then have "100 \<le> code" "code \<le> 999" using assms by auto
    then have n: "100 \<le> unat code" "unat code \<le> 999"
      by (simp_all add: word_le_nat_alt)
    have u: "unat (ucast code :: u32) = unat code"
      by (rule unat_ucast_u16_u32)
    have "(ucast code :: u32) \<noteq> 0" "(ucast code :: u32) \<noteq> 10" "(ucast code :: u32) \<noteq> 20"
      "100 \<le> (ucast code :: u32)" "(ucast code :: u32) \<le> 999"
      using n u by (auto simp: word_le_nat_alt dest: arg_cong [where f = unat])
    then show ?thesis
      by (simp add: Http_Finished http_status_try_from_def http_status_to_u32_def ucast_u16_u32_u16)
  qed (simp_all add: http_status_try_from_def http_status_to_u32_def)
qed

theorem numeric_codes_roundtrip_witness:
  "storage_kind_try_from (storage_kind_to_u32 LOCAL) = Ok LOCAL \<and>
   http_error_try_from (http_error_to_u32 HttpError_Invalid) = Ok HttpError_Invalid \<and>
   http_status_try_from (http_status_to_u32 (Http_Finished 404)) = Ok (Http_Finished 404)"
  by (rule numeric_codes_roundtrip) simp

text \<open>
  C22: The IPFS capability is not an independent one.  Any capability set that lets an
  off-chain worker start an IPFS request also lets it make every other guarded
  call except reading the clock and sleeping: HTTP, network state, randomness, node
  authorisation, the keystore check and all reads and writes of the off-chain database.
  Conversely a set that allows those calls and submitting transactions allows IPFS requests.
\<close>

theorem ipfs_capability_overlaps:
  "(check caps (required_capability Call_ipfs_request_start) = Done () \<longleftrightarrow>
      contains caps TRANSACTION_POOL \<and>
      (\<forall>call. required_capability call \<noteq> TIME \<and> required_capability call \<noteq> IPFS \<longrightarrow>
         check caps (required_capability call) = Done ()))"
proof -
  have "check caps (required_capability Call_ipfs_request_start) = Done () \<longleftrightarrow>
      contains caps TRANSACTION_POOL \<and> contains caps HTTP \<and> contains caps KEYSTORE \<and>
      contains caps RANDOMNESS \<and> contains caps NETWORK_STATE \<and> contains caps OFFCHAIN_DB_READ \<and>
      contains caps OFFCHAIN_DB_WRITE \<and> contains caps NODE_AUTHORIZATION"
    by (simp add: check_Done_iff IPFS_as_union contains_or conj_ac)
  also have "\<dots> \<longleftrightarrow> contains caps TRANSACTION_POOL \<and>
      (\<forall>call. required_capability call \<noteq> TIME \<and> required_capability call \<noteq> IPFS \<longrightarrow>
         check caps (required_capability call) = Done ())" (is "_ \<longleftrightarrow> _ \<and> ?all")
  proof -
    have "contains caps (required_capability call)" if "?all" "required_capability call \<notin> {TIME, IPFS}" for call
      using that by (simp add: check_Done_iff)
    from this [of Call_http_request_start] this [of Call_is_validator] this [of Call_random_seed]
      this [of Call_network_state] this [of Call_local_storage_get] this [of Call_local_storage_set]
      this [of Call_set_authorized_nodes]
    have "?all \<Longrightarrow> contains caps HTTP \<and> contains caps KEYSTORE \<and> contains caps RANDOMNESS \<and>
        contains caps NETWORK_STATE \<and> contains caps OFFCHAIN_DB_READ \<and> contains caps OFFCHAIN_DB_WRITE \<and>
        contains caps NODE_AUTHORIZATION"
      by (simp add: capability_defs)
    moreover have "check caps (required_capability call) = Done ()"
      if "contains caps HTTP" "contains caps KEYSTORE" "contains caps RANDOMNESS"
        "contains caps NETWORK_STATE" "contains caps OFFCHAIN_DB_READ" "contains caps OFFCHAIN_DB_WRITE"
        "contains caps NODE_AUTHORIZATION" "required_capability call \<noteq> TIME" "required_capability call \<noteq> IPFS" for call
      using that by (cases call) (simp_all add: check_Done_iff)
    ultimately show ?thesis by blast
  qed
  finally show ?thesis .
qed

theorem ipfs_capability_overlaps_witness:
  "check IPFS (required_capability Call_ipfs_request_start) = Done () \<and>
   check IPFS (required_capability Call_set_authorized_nodes) = Done ()"
proof -
  have "check IPFS (required_capability Call_ipfs_request_start) = Done ()"
    by (simp add: check_Done_iff contains_def)
  moreover have "required_capability Call_set_authorized_nodes \<noteq> TIME \<and> required_capability Call_set_authorized_nodes \<noteq> IPFS"
    by (simp add: capability_defs)
  ultimately show ?thesis
    using ipfs_capability_overlaps [of IPFS] by blast
qed

text \<open>No context in which blocks are built or imported is given the off-chain database or the
  off-chain worker extension.\<close>

lemma onchain_extensions:
  assumes "ctx = Importing \<or> ctx = Syncing \<or> ctx = BlockConstruction"
  shows "extensions ee factory_exts ctx = factory_exts"
  using assms by (auto simp: extensions_def context_capabilities_def contains_def capability_defs)

end
