(* ===== verification/Offchain_Db.thy ===== *)
theory Offchain_Db
  imports Overlay Offchain_Types
begin

text \<open>
  The off-chain database from the bottom up: the in-memory \<open>Database\<close>
  (\<open>primitives/database/src/mem.rs\<close>), the two implementations of the \<open>OffchainStorage\<close> trait
  (\<open>primitives/core/src/offchain/storage.rs\<close> and \<open>client/db/src/offchain.rs\<close>), the \<open>Db\<close>
  externalities on top of them (\<open>client/offchain/src/api.rs\<close>), the host functions
  (\<open>primitives/io/src/lib.rs\<close>), \<open>StorageValueRef\<close> (\<open>primitives/runtime/src/offchain/storage.rs\<close>) and
  the block import step that writes the off-chain index into the database
  (\<open>client/db/src/lib.rs\<close>).  The contract of the trait is a locale, interpreted on both
  implementations; \<open>Db\<close> and \<open>StorageValueRef\<close> are proved against the contract.
\<close>

section \<open>The in-memory database\<close>

type_synonym column_id = u32

datatype db_change =
    Change_Set column_id bytes bytes
  | Change_Remove column_id bytes
  | Change_Store column_id bytes bytes
  | Change_Reference column_id bytes
  | Change_Release column_id bytes

type_synonym mem_db = "column_id \<Rightarrow> bytes \<Rightarrow> (u32 \<times> bytes) option"

definition OFFCHAIN :: column_id where
  "OFFCHAIN = 9"

definition set_entry :: "column_id \<Rightarrow> bytes \<Rightarrow> (u32 \<times> bytes) option \<Rightarrow> mem_db \<Rightarrow> mem_db" where
  "set_entry col key v s = s(col := (s col)(key := v))"

fun apply_change :: "db_change \<Rightarrow> mem_db \<Rightarrow> mem_db" where
  "apply_change (Change_Set col key v) s = set_entry col key (Some (1, v)) s"
| "apply_change (Change_Remove col key) s = set_entry col key None s"
| "apply_change (Change_Store col hash v) s =
     (case s col hash of
        Some (c, old) \<Rightarrow> set_entry col hash (Some (c + 1, old)) s
      | None \<Rightarrow> set_entry col hash (Some (1, v)) s)"
| "apply_change (Change_Reference col hash) s =
     (case s col hash of
        Some (c, old) \<Rightarrow> set_entry col hash (Some (c + 1, old)) s
      | None \<Rightarrow> s)"
| "apply_change (Change_Release col hash) s =
     (case s col hash of
        Some (c, old) \<Rightarrow>
          if c - 1 = 0 then set_entry col hash None s else set_entry col hash (Some (c - 1, old)) s
      | None \<Rightarrow> s)"

definition db_commit :: "db_change list \<Rightarrow> mem_db \<Rightarrow> mem_db \<times> (unit, unit) result" where
  "db_commit transaction s = (fold apply_change transaction s, Ok ())"

definition db_get :: "column_id \<Rightarrow> bytes \<Rightarrow> mem_db \<Rightarrow> bytes option" where
  "db_get col key s = map_option snd (s col key)"

section \<open>Off-chain storages\<close>

text \<open>The \<open>OffchainStorage\<close> trait as a record of its methods.\<close>

record 's storage_ops =
  so_set :: "bytes \<Rightarrow> bytes \<Rightarrow> bytes \<Rightarrow> 's \<Rightarrow> 's"
  so_remove :: "bytes \<Rightarrow> bytes \<Rightarrow> 's \<Rightarrow> 's"
  so_get :: "bytes \<Rightarrow> bytes \<Rightarrow> 's \<Rightarrow> bytes option"
  so_compare_and_set :: "bytes \<Rightarrow> bytes \<Rightarrow> bytes option \<Rightarrow> bytes \<Rightarrow> 's \<Rightarrow> 's \<times> bool"

type_synonym in_mem = "bytes \<Rightarrow> bytes option"

definition in_mem_set :: "bytes \<Rightarrow> bytes \<Rightarrow> bytes \<Rightarrow> in_mem \<Rightarrow> in_mem" where
  "in_mem_set prefix key v s = s(prefix @ key \<mapsto> v)"

definition in_mem_remove :: "bytes \<Rightarrow> bytes \<Rightarrow> in_mem \<Rightarrow> in_mem" where
  "in_mem_remove prefix key s = s(prefix @ key := None)"

definition in_mem_get :: "bytes \<Rightarrow> bytes \<Rightarrow> in_mem \<Rightarrow> bytes option" where
  "in_mem_get prefix key s = s (prefix @ key)"

definition in_mem_compare_and_set ::
  "bytes \<Rightarrow> bytes \<Rightarrow> bytes option \<Rightarrow> bytes \<Rightarrow> in_mem \<Rightarrow> in_mem \<times> bool" where
  "in_mem_compare_and_set prefix key old_value new_value s =
     (case s (prefix @ key) of
        None \<Rightarrow> if old_value = None then (s(prefix @ key \<mapsto> new_value), True) else (s, False)
      | Some e \<Rightarrow> if Some e = old_value then (s(prefix @ key \<mapsto> new_value), True) else (s, False))"

definition in_mem_ops :: "in_mem storage_ops" where
  "in_mem_ops = \<lparr>so_set = in_mem_set, so_remove = in_mem_remove, so_get = in_mem_get,
     so_compare_and_set = in_mem_compare_and_set\<rparr>"

text \<open>
  \<open>LocalStorage\<close>: a database and the table of key locks.  An entry of the lock table counts
  the clones of the lock handed out beside the table's own; \<open>Arc::get_mut\<close> succeeds when there is none.
\<close>

record local_storage =
  ls_db :: mem_db
  ls_locks :: "bytes \<Rightarrow> nat option"

definition concatenate_prefix_and_key :: "bytes \<Rightarrow> bytes \<Rightarrow> bytes" where
  "concatenate_prefix_and_key prefix key = prefix @ key"

definition local_set :: "bytes \<Rightarrow> bytes \<Rightarrow> bytes \<Rightarrow> local_storage \<Rightarrow> local_storage" where
  "local_set prefix key v s =
     s\<lparr>ls_db := fst (db_commit [Change_Set OFFCHAIN (concatenate_prefix_and_key prefix key) v] (ls_db s))\<rparr>"

definition local_remove :: "bytes \<Rightarrow> bytes \<Rightarrow> local_storage \<Rightarrow> local_storage" where
  "local_remove prefix key s =
     s\<lparr>ls_db := fst (db_commit [Change_Remove OFFCHAIN (concatenate_prefix_and_key prefix key)] (ls_db s))\<rparr>"

definition local_get :: "bytes \<Rightarrow> bytes \<Rightarrow> local_storage \<Rightarrow> bytes option" where
  "local_get prefix key s = db_get OFFCHAIN (concatenate_prefix_and_key prefix key) (ls_db s)"

definition take_lock :: "bytes \<Rightarrow> local_storage \<Rightarrow> local_storage" where
  "take_lock key s =
     s\<lparr>ls_locks := (ls_locks s)(key \<mapsto> Suc (case ls_locks s key of Some n \<Rightarrow> n | None \<Rightarrow> 0))\<rparr>"

definition release_lock :: "bytes \<Rightarrow> local_storage \<Rightarrow> local_storage" where
  "release_lock key s =
     (case ls_locks s key of
        None \<Rightarrow> s
      | Some n \<Rightarrow>
          if n - 1 = 0 then s\<lparr>ls_locks := (ls_locks s)(key := None)\<rparr>
          else s\<lparr>ls_locks := (ls_locks s)(key \<mapsto> n - 1)\<rparr>)"

definition local_compare_and_set ::
  "bytes \<Rightarrow> bytes \<Rightarrow> bytes option \<Rightarrow> bytes \<Rightarrow> local_storage \<Rightarrow> local_storage \<times> bool" where
  "local_compare_and_set prefix item_key old_value new_value s =
     (let key = concatenate_prefix_and_key prefix item_key;
          s = take_lock key s;
          is_set = (db_get OFFCHAIN key (ls_db s) = old_value);
          s = (if is_set then local_set prefix item_key new_value s else s)
      in (release_lock key s, is_set))"

definition local_ops :: "local_storage storage_ops" where
  "local_ops = \<lparr>so_set = local_set, so_remove = local_remove, so_get = local_get,
     so_compare_and_set = local_compare_and_set\<rparr>"

section \<open>Externalities and host functions\<close>

definition local_storage_set :: "'s storage_ops \<Rightarrow> storage_kind \<Rightarrow> bytes \<Rightarrow> bytes \<Rightarrow> 's \<Rightarrow> 's" where
  "local_storage_set ops kind key v s =
     (case kind of PERSISTENT \<Rightarrow> so_set ops STORAGE_PREFIX key v s | LOCAL \<Rightarrow> s)"

definition local_storage_clear :: "'s storage_ops \<Rightarrow> storage_kind \<Rightarrow> bytes \<Rightarrow> 's \<Rightarrow> 's" where
  "local_storage_clear ops kind key s =
     (case kind of PERSISTENT \<Rightarrow> so_remove ops STORAGE_PREFIX key s | LOCAL \<Rightarrow> s)"

definition local_storage_compare_and_set ::
  "'s storage_ops \<Rightarrow> storage_kind \<Rightarrow> bytes \<Rightarrow> bytes option \<Rightarrow> bytes \<Rightarrow> 's \<Rightarrow> 's \<times> bool" where
  "local_storage_compare_and_set ops kind key old_value new_value s =
     (case kind of
        PERSISTENT \<Rightarrow> so_compare_and_set ops STORAGE_PREFIX key old_value new_value s
      | LOCAL \<Rightarrow> (s, False))"

definition local_storage_get :: "'s storage_ops \<Rightarrow> storage_kind \<Rightarrow> bytes \<Rightarrow> 's \<Rightarrow> bytes option" where
  "local_storage_get ops kind key s =
     (case kind of PERSISTENT \<Rightarrow> so_get ops STORAGE_PREFIX key s | LOCAL \<Rightarrow> None)"

text \<open>
  What a runtime call sees of the database: nothing, when no \<open>OffchainDbExt\<close> is registered, or
  the capabilities it was registered with and the database.
\<close>

type_synonym 's db_ext = "(capabilities \<times> 's) option"

definition io_local_storage_get ::
  "'s storage_ops \<Rightarrow> storage_kind \<Rightarrow> bytes \<Rightarrow> 's db_ext \<Rightarrow> bytes option exec" where
  "io_local_storage_get ops kind key ext =
     bind_exec (expect ext) (\<lambda>(caps, s).
     limited caps Call_local_storage_get (local_storage_get ops kind key) s)"

definition io_local_storage_set ::
  "'s storage_ops \<Rightarrow> storage_kind \<Rightarrow> bytes \<Rightarrow> bytes \<Rightarrow> 's db_ext \<Rightarrow> 's db_ext exec" where
  "io_local_storage_set ops kind key v ext =
     bind_exec (expect ext) (\<lambda>(caps, s).
     bind_exec (limited caps Call_local_storage_set (local_storage_set ops kind key v) s) (\<lambda>s.
     Done (Some (caps, s))))"

definition io_local_storage_clear ::
  "'s storage_ops \<Rightarrow> storage_kind \<Rightarrow> bytes \<Rightarrow> 's db_ext \<Rightarrow> 's db_ext exec" where
  "io_local_storage_clear ops kind key ext =
     bind_exec (expect ext) (\<lambda>(caps, s).
     bind_exec (limited caps Call_local_storage_clear (local_storage_clear ops kind key) s) (\<lambda>s.
     Done (Some (caps, s))))"

definition io_local_storage_compare_and_set ::
  "'s storage_ops \<Rightarrow> storage_kind \<Rightarrow> bytes \<Rightarrow> bytes option \<Rightarrow> bytes \<Rightarrow> 's db_ext \<Rightarrow> ('s db_ext \<times> bool) exec" where
  "io_local_storage_compare_and_set ops kind key old_value new_value ext =
     bind_exec (expect ext) (\<lambda>(caps, s).
     bind_exec (limited caps Call_local_storage_compare_and_set
       (local_storage_compare_and_set ops kind key old_value new_value) s) (\<lambda>(s, b).
     Done (Some (caps, s), b)))"

section \<open>Storage value references\<close>

record storage_value_ref =
  sv_key :: bytes
  sv_kind :: storage_kind

datatype storage_retrieval_error = Undecodable

datatype ('a, 'e) mutate_storage_error = ConcurrentModification 'a | ValueFunctionFailed 'e

definition persistent :: "bytes \<Rightarrow> storage_value_ref" where
  "persistent key = \<lparr>sv_key = key, sv_kind = PERSISTENT\<rparr>"

definition local_ref :: "bytes \<Rightarrow> storage_value_ref" where
  "local_ref key = \<lparr>sv_key = key, sv_kind = LOCAL\<rparr>"

definition sv_set :: "'s storage_ops \<Rightarrow> 'a codec \<Rightarrow> storage_value_ref \<Rightarrow> 'a \<Rightarrow> 's db_ext \<Rightarrow> 's db_ext exec" where
  "sv_set ops c r v ext = io_local_storage_set ops (sv_kind r) (sv_key r) (encode c v) ext"

definition sv_clear :: "'s storage_ops \<Rightarrow> storage_value_ref \<Rightarrow> 's db_ext \<Rightarrow> 's db_ext exec" where
  "sv_clear ops r ext = io_local_storage_clear ops (sv_kind r) (sv_key r) ext"

definition decode_stored :: "'a codec \<Rightarrow> bytes option \<Rightarrow> ('a option, storage_retrieval_error) result" where
  "decode_stored c v =
     (case v of
        None \<Rightarrow> Ok None
      | Some b \<Rightarrow> (case decode c b of Some x \<Rightarrow> Ok (Some x) | None \<Rightarrow> Err Undecodable))"

definition sv_get ::
  "'s storage_ops \<Rightarrow> 'a codec \<Rightarrow> storage_value_ref \<Rightarrow> 's db_ext \<Rightarrow> ('a option, storage_retrieval_error) result exec" where
  "sv_get ops c r ext =
     bind_exec (io_local_storage_get ops (sv_kind r) (sv_key r) ext) (\<lambda>v. Done (decode_stored c v))"

text \<open>\<open>mutate\<close> is not atomic as a whole: other workers may use the database between its read and its
  compare-and-set.  \<open>env\<close> is what they do to it in between.\<close>

definition sv_mutate ::
  "'s storage_ops \<Rightarrow> 'a codec \<Rightarrow> storage_value_ref \<Rightarrow>
   (('a option, storage_retrieval_error) result \<Rightarrow> ('a, 'e) result) \<Rightarrow> ('s db_ext \<Rightarrow> 's db_ext) \<Rightarrow> 's db_ext \<Rightarrow>
   ('s db_ext \<times> ('a, ('a, 'e) mutate_storage_error) result) exec" where
  "sv_mutate ops c r mutate_val env ext =
     bind_exec (io_local_storage_get ops (sv_kind r) (sv_key r) ext) (\<lambda>v.
     case mutate_val (decode_stored c v) of
       Err err \<Rightarrow> Done (ext, Err (ValueFunctionFailed err))
     | Ok val \<Rightarrow>
         bind_exec (io_local_storage_compare_and_set ops (sv_kind r) (sv_key r) v (encode c val) (env ext))
           (\<lambda>(ext, is_set).
         Done (ext, if is_set then Ok val else Err (ConcurrentModification val))))"

section \<open>Importing the off-chain index\<close>

definition apply_offchain ::
  "((bytes \<times> bytes) \<times> offchain_overlayed_change) list \<Rightarrow> db_change list" where
  "apply_offchain updates = map (\<lambda>((prefix, key), operation).
     case operation of
       SetValue val \<Rightarrow> Change_Set OFFCHAIN (concatenate_prefix_and_key prefix key) val
     | Remove \<Rightarrow> Change_Remove OFFCHAIN (concatenate_prefix_and_key prefix key)) updates"

text \<open>The off-chain part of importing a block: the drained changes are committed when the
  indexing API is enabled and dropped otherwise.\<close>

definition import_offchain ::
  "bool \<Rightarrow> ((bytes \<times> bytes) \<times> offchain_overlayed_change) list \<Rightarrow> local_storage \<Rightarrow> local_storage" where
  "import_offchain indexing_api updates s =
     (if indexing_api then s\<lparr>ls_db := fst (db_commit (apply_offchain updates) (ls_db s))\<rparr> else s)"

section \<open>The contract of an off-chain storage\<close>

locale offchain_storage =
  fixes ops :: "'s storage_ops"
    and good :: "'s \<Rightarrow> bool"
  assumes get_set: "good s \<Longrightarrow> so_get ops p' k' (so_set ops p k v s) = (if p' @ k' = p @ k then Some v else so_get ops p' k' s)"
    and get_remove: "good s \<Longrightarrow> so_get ops p' k' (so_remove ops p k s) = (if p' @ k' = p @ k then None else so_get ops p' k' s)"
    and cas_flag: "good s \<Longrightarrow> snd (so_compare_and_set ops p k old v s) \<longleftrightarrow> so_get ops p k s = old"
    and get_cas: "good s \<Longrightarrow> so_get ops p' k' (fst (so_compare_and_set ops p k old v s)) =
      (if p' @ k' = p @ k \<and> so_get ops p k s = old then Some v else so_get ops p' k' s)"
    and good_set: "good s \<Longrightarrow> good (so_set ops p k v s)"
    and good_remove: "good s \<Longrightarrow> good (so_remove ops p k s)"
    and good_cas: "good s \<Longrightarrow> good (fst (so_compare_and_set ops p k old v s))"
begin

lemma db_get_set:
  "good s \<Longrightarrow> local_storage_get ops kind k' (local_storage_set ops kind k v s) =
     (if kind = PERSISTENT \<and> k' = k then Some v else local_storage_get ops kind k' s)"
  by (cases kind) (simp_all add: local_storage_get_def local_storage_set_def get_set)

lemma db_get_clear:
  "good s \<Longrightarrow> local_storage_get ops kind k' (local_storage_clear ops kind k s) =
     (if kind = PERSISTENT \<and> k' = k then None else local_storage_get ops kind k' s)"
  by (cases kind) (simp_all add: local_storage_get_def local_storage_clear_def get_remove)

lemma db_cas:
  assumes "good s" "local_storage_compare_and_set ops kind k old v s = (s', b)"
  shows "b \<longleftrightarrow> kind = PERSISTENT \<and> local_storage_get ops kind k s = old"
    "local_storage_get ops kind k' s' = (if b \<and> k' = k then Some v else local_storage_get ops kind k' s)"
    "good s'"
  using assms cas_flag [of s STORAGE_PREFIX k old v] get_cas [of s STORAGE_PREFIX k' STORAGE_PREFIX k old v]
    good_cas [of s STORAGE_PREFIX k old v]
  by (cases kind; auto simp: local_storage_compare_and_set_def local_storage_get_def)+

lemma mutate_cases:
  assumes good: "good s2" and env: "env (Some (caps, s)) = Some (caps, s2)"
    and run: "sv_mutate ops c r f env (Some (caps, s)) = Done (ext', res)"
  defines "seen \<equiv> local_storage_get ops (sv_kind r) (sv_key r) s"
  shows "case res of
      Ok val \<Rightarrow> f (decode_stored c seen) = Ok val \<and> sv_kind r = PERSISTENT \<and>
        (\<exists>s'. ext' = Some (caps, s') \<and> good s' \<and> local_storage_get ops PERSISTENT (sv_key r) s2 = seen \<and>
          (\<forall>k. local_storage_get ops PERSISTENT k s' =
             (if k = sv_key r then Some (encode c val) else local_storage_get ops PERSISTENT k s2)))
    | Err (ConcurrentModification val) \<Rightarrow> f (decode_stored c seen) = Ok val \<and>
        (sv_kind r = PERSISTENT \<longrightarrow> local_storage_get ops PERSISTENT (sv_key r) s2 \<noteq> seen) \<and>
        (\<exists>s'. ext' = Some (caps, s') \<and>
          (\<forall>k. local_storage_get ops PERSISTENT k s' = local_storage_get ops PERSISTENT k s2))
    | Err (ValueFunctionFailed e) \<Rightarrow> f (decode_stored c seen) = Err e \<and> ext' = Some (caps, s)"
proof (cases "f (decode_stored c seen)")
  case (Err e)
  with run show ?thesis
    by (auto simp: sv_mutate_def io_local_storage_get_def limited_def check_def seen_def split: if_splits)
next
  case (Ok val)
  let ?cas = "local_storage_compare_and_set ops (sv_kind r) (sv_key r) seen (encode c val) s2"
  obtain s' b where cas: "?cas = (s', b)" by (cases ?cas)
  from run Ok env cas have "ext' = Some (caps, s')" "res = (if b then Ok val else Err (ConcurrentModification val))"
    by (auto simp: sv_mutate_def io_local_storage_get_def io_local_storage_compare_and_set_def limited_def
        check_def seen_def split: if_splits)
  moreover have "local_storage_get ops PERSISTENT k s' = local_storage_get ops PERSISTENT k s2" if "sv_kind r = LOCAL" for k
    using cas that by (simp add: local_storage_compare_and_set_def)
  ultimately show ?thesis
    using Ok db_cas [OF good cas] by (cases "sv_kind r") auto
qed

end

interpretation in_mem: offchain_storage in_mem_ops "\<lambda>_. True"
  by unfold_locales
    (auto simp: in_mem_ops_def in_mem_set_def in_mem_remove_def in_mem_get_def in_mem_compare_and_set_def
      split: option.splits)

lemma db_get_set_entry [simp]:
  "db_get col k (set_entry col' k' v s) = (if col = col' \<and> k = k' then map_option snd v else db_get col k s)"
  by (simp add: db_get_def set_entry_def)

lemma lock_steps_db [simp]: "ls_db (take_lock k s) = ls_db s" "ls_db (release_lock k s) = ls_db s"
  by (simp_all add: take_lock_def release_lock_def split: option.split)

lemma local_get_set:
  "local_get p' k' (local_set p k v s) = (if p' @ k' = p @ k then Some v else local_get p' k' s)"
  by (simp add: local_get_def local_set_def db_commit_def concatenate_prefix_and_key_def)

lemma local_get_cas:
  "local_get p' k' (fst (local_compare_and_set p k old v s)) =
     (if p' @ k' = p @ k \<and> local_get p k s = old then Some v else local_get p' k' s)"
  "snd (local_compare_and_set p k old v s) \<longleftrightarrow> local_get p k s = old"
  by (auto simp: local_compare_and_set_def Let_def local_get_def local_set_def db_commit_def
      concatenate_prefix_and_key_def)

interpretation local_db: offchain_storage local_ops "\<lambda>_. True"
  by unfold_locales
    (simp_all add: local_ops_def local_get_set local_get_cas,
     simp_all add: local_get_def local_remove_def db_commit_def concatenate_prefix_and_key_def)

section \<open>Properties\<close>

lemma into_values_Done:
  assumes "\<And>kv. kv \<in> set kvs \<Longrightarrow> transactions (snd kv) \<noteq> []"
  shows "into_values kvs = Done (map (\<lambda>(k, e). (k, iv_value (last (transactions e)))) kvs)"
  using assms by (induction kvs) (auto simp: into_value_def)

lemma offchain_into_iter_Done:
  assumes inv: "overlay_inv m"
  obtains kvs where "offchain_into_iter m = Done kvs" "map_of kvs = current m" "distinct (map fst kvs)"
proof -
  let ?f = "\<lambda>(k, e). (k, iv_value (last (transactions e)))"
  have ne: "transactions (snd kv) \<noteq> []" if "kv \<in> set (changes_iter m)" for kv
    using that overlay_invD(3) [OF inv, of "fst kv"] get_in_changes [OF inv, of "fst kv" "snd kv"] by auto
  have "offchain_into_iter m = Done (map ?f (changes_iter m))"
    unfolding offchain_into_iter_def by (rule into_values_Done) (rule ne)
  moreover have "map_of (map ?f (changes_iter m)) k = current m k" for k
    using map_of_changes_iter(1) [OF inv, of k] overlay_invD(3) [OF inv, of k]
    by (auto simp: map_of_map current_conv_get split: option.splits)
  moreover have "distinct (map fst (map ?f (changes_iter m)))"
    using map_of_changes_iter(2) [OF inv] by (simp add: comp_def case_prod_unfold)
  ultimately show ?thesis
    using that by blast
qed

lemma db_get_apply_offchain:
  assumes "distinct (map fst kvs)" "\<And>kv. kv \<in> set kvs \<Longrightarrow> fst (fst kv) = p"
  shows "db_get OFFCHAIN (p @ k) (fold apply_change (apply_offchain kvs) db) =
    (case map_of kvs (p, k) of
       Some (SetValue v) \<Rightarrow> Some v | Some Remove \<Rightarrow> None | None \<Rightarrow> db_get OFFCHAIN (p @ k) db)"
  using assms
proof (induction kvs arbitrary: db)
  case Nil
  then show ?case by (simp add: apply_offchain_def)
next
  case (Cons kv kvs)
  obtain k0 x where kv: "kv = ((p, k0), x)"
    using Cons.prems(2) [of kv] by (cases kv) auto
  have none: "map_of kvs (p, k0) = None"
    using Cons.prems(1) kv by (auto simp: map_of_eq_None_iff)
  have "fold apply_change (apply_offchain (kv # kvs)) db =
      fold apply_change (apply_offchain kvs) (apply_change (case x of
        SetValue v \<Rightarrow> Change_Set OFFCHAIN (p @ k0) v | Remove \<Rightarrow> Change_Remove OFFCHAIN (p @ k0)) db)"
    by (simp add: apply_offchain_def kv concatenate_prefix_and_key_def)
  with Cons none kv show ?case
    by (cases x) (auto split: option.splits offchain_overlayed_change.splits)
qed

lemma drain_import:
  assumes "changeset_inv m" and "\<And>k. current m k \<noteq> None \<Longrightarrow> fst k = STORAGE_PREFIX"
  shows "\<exists>kvs m'. offchain_drain m = Done (kvs, m') \<and> import_offchain False kvs s = s \<and>
    (\<forall>key. local_storage_get local_ops PERSISTENT key (import_offchain True kvs s) =
       (case current m (STORAGE_PREFIX, key) of
          Some (SetValue v) \<Rightarrow> Some v
        | Some Remove \<Rightarrow> None
        | None \<Rightarrow> local_storage_get local_ops PERSISTENT key s))"
proof -
  obtain kvs where kvs: "offchain_into_iter m = Done kvs" "map_of kvs = current m" "distinct (map fst kvs)"
    by (rule offchain_into_iter_Done [OF changeset_invD [OF assms(1)]])
  have "fst (fst kv) = STORAGE_PREFIX" if "kv \<in> set kvs" for kv
  proof -
    have "map_of kvs (fst kv) \<noteq> None" using that by (auto simp: map_of_eq_None_iff)
    then show ?thesis using assms(2) [of "fst kv"] kvs(2) by simp
  qed
  then have "local_storage_get local_ops PERSISTENT key (import_offchain True kvs s) =
      (case current m (STORAGE_PREFIX, key) of
          Some (SetValue v) \<Rightarrow> Some v
        | Some Remove \<Rightarrow> None
        | None \<Rightarrow> local_storage_get local_ops PERSISTENT key s)" for key
    using db_get_apply_offchain [OF kvs(3), of STORAGE_PREFIX key] kvs(2)
    by (simp add: local_storage_get_def local_ops_def local_get_def import_offchain_def db_commit_def
        concatenate_prefix_and_key_def cong: option.case_cong)
  with kvs(1) show ?thesis
    by (auto simp: offchain_drain_def import_offchain_def)
qed



text \<open>
  The key locks of \<open>LocalStorage\<close> do not leak: a compare-and-set leaves the lock table exactly as
  it found it, whether or not the value was set, for every table without entries that nobody holds.
\<close>

theorem compare_and_set_releases_locks:
  assumes "\<And>k. ls_locks s k \<noteq> Some 0"
  shows "ls_locks (fst (local_compare_and_set prefix key old_value new_value s)) = ls_locks s"
  using assms [of "prefix @ key"]
  by (auto simp: local_compare_and_set_def Let_def local_set_def take_lock_def release_lock_def
      concatenate_prefix_and_key_def fun_upd_idem_iff split: option.splits)

section \<open>Concrete instances\<close>

definition empty_local :: local_storage where
  "empty_local = \<lparr>ls_db = (\<lambda>_ _. None), ls_locks = (\<lambda>_. None)\<rparr>"

definition one_index_write :: offchain_overlayed_changes where
  "one_index_write = \<lparr>
     changes = [((STORAGE_PREFIX, [1]), \<lparr>transactions = [\<lparr>iv_value = SetValue [9], iv_extrinsics = []\<rparr>]\<rparr>)],
     dirty_keys = [], num_client_transactions = 0, execution_mode = Client\<rparr>"

lemma empty_local_get: "local_storage_get local_ops kind k empty_local = None"
  by (cases kind) (simp_all add: local_storage_get_def local_ops_def local_get_def db_get_def empty_local_def)



theorem compare_and_set_releases_locks_witness:
  "ls_locks (fst (local_compare_and_set [] [5] None [1] (empty_local\<lparr>ls_locks := [[5] \<mapsto> 2]\<rparr>))) [5] = Some 2"
  using compare_and_set_releases_locks [of "empty_local\<lparr>ls_locks := [[5] \<mapsto> 2]\<rparr>"] by simp


section \<open>The off-chain index of a block\<close>

text \<open>What the block being executed has in the off-chain index; all of it is under the storage prefix.\<close>

definition index_view :: "overlayed_changes \<Rightarrow> bytes \<Rightarrow> offchain_overlayed_change option" where
  "index_view oc key = current (offchain oc) (STORAGE_PREFIX, key)"

definition index_ok :: "overlayed_changes \<Rightarrow> bool" where
  "index_ok oc \<longleftrightarrow> lockstep oc \<and> (\<forall>k. current (offchain oc) k \<noteq> None \<longrightarrow> fst k = STORAGE_PREFIX)"

lemma set_offchain_storage_view:
  assumes "index_ok oc"
  obtains oc' where "set_offchain_storage key v oc = Done oc'" "index_ok oc'"
    "index_view oc' = (index_view oc)(key \<mapsto> (case v of Some x \<Rightarrow> SetValue x | None \<Rightarrow> Remove))"
proof -
  have l: "lockstep oc" using assms by (simp add: index_ok_def)
  obtain f where f: "set_offchain_storage key v oc = Done (oc\<lparr>offchain := f\<rparr>)"
    "wrote (STORAGE_PREFIX, key) (case v of Some x \<Rightarrow> SetValue x | None \<Rightarrow> Remove) (offchain oc) f"
    by (rule set_offchain_storage_Done [OF l])
  have "index_ok (oc\<lparr>offchain := f\<rparr>)"
    using assms lockstep_offchain_wrote [OF l f(2)] wrote_current [OF f(2)] by (auto simp: index_ok_def)
  moreover have "index_view (oc\<lparr>offchain := f\<rparr>) =
      (index_view oc)(key \<mapsto> (case v of Some x \<Rightarrow> SetValue x | None \<Rightarrow> Remove))"
    by (rule ext) (simp add: index_view_def wrote_current [OF f(2)])
  ultimately show ?thesis using f(1) that by blast
qed

text \<open>The database after the import of a block.\<close>

lemma import_view:
  assumes "index_ok oc"
  obtains kvs m' where "offchain_drain (offchain oc) = Done (kvs, m')"
    "\<forall>key. local_storage_get local_ops PERSISTENT key (import_offchain True kvs s) =
       (case index_view oc key of
          Some (SetValue v) \<Rightarrow> Some v
        | Some Remove \<Rightarrow> None
        | None \<Rightarrow> local_storage_get local_ops PERSISTENT key s)"
proof -
  have inv: "changeset_inv (offchain oc)" "current (offchain oc) k \<noteq> None \<Longrightarrow> fst k = STORAGE_PREFIX" for k
    using assms unfolding index_ok_def by (simp add: lockstepD, blast)
  from drain_import [OF inv, of s] that show ?thesis unfolding index_view_def by metis
qed

section \<open>The persistent database as a map\<close>

abbreviation db_lookup :: "bytes \<Rightarrow> local_storage \<Rightarrow> bytes option" where
  "db_lookup key s \<equiv> local_storage_get local_ops PERSISTENT key s"

lemma sv_get_local:
  "contains caps OFFCHAIN_DB_READ \<Longrightarrow>
   sv_get local_ops c (persistent key) (Some (caps, s)) = Done (decode_stored c (db_lookup key s))"
  by (simp add: sv_get_def io_local_storage_get_def limited_def check_def persistent_def)

lemma sv_set_local:
  assumes "contains caps OFFCHAIN_DB_WRITE"
  obtains s' where "sv_set local_ops c (persistent key) v (Some (caps, s)) = Done (Some (caps, s'))"
    "\<And>k. db_lookup k s' = (if k = key then Some (encode c v) else db_lookup k s)"
proof -
  let ?s = "local_storage_set local_ops PERSISTENT key (encode c v) s"
  have "sv_set local_ops c (persistent key) v (Some (caps, s)) = Done (Some (caps, ?s))"
    using assms by (simp add: sv_set_def io_local_storage_set_def limited_def check_def persistent_def)
  moreover have "db_lookup k ?s = (if k = key then Some (encode c v) else db_lookup k s)" for k
    by (simp add: local_db.db_get_set [OF TrueI])
  ultimately show ?thesis by (rule that)
qed

lemma sv_mutate_local:
  assumes caps: "contains caps OFFCHAIN_DB_READ" "contains caps OFFCHAIN_DB_WRITE"
  shows "f (decode_stored c (db_lookup key s)) = Err e \<Longrightarrow>
      sv_mutate local_ops c (persistent key) f id (Some (caps, s)) = Done (Some (caps, s), Err (ValueFunctionFailed e))"
    and "f (decode_stored c (db_lookup key s)) = Ok val \<Longrightarrow>
      \<exists>s'. sv_mutate local_ops c (persistent key) f id (Some (caps, s)) = Done (Some (caps, s'), Ok val) \<and>
        (\<forall>k. db_lookup k s' = (if k = key then Some (encode c val) else db_lookup k s))"
proof -
  have get: "io_local_storage_get local_ops PERSISTENT key (Some (caps, s)) = Done (db_lookup key s)"
    using caps by (simp add: io_local_storage_get_def limited_def check_def)
  then show "f (decode_stored c (db_lookup key s)) = Err e \<Longrightarrow>
      sv_mutate local_ops c (persistent key) f id (Some (caps, s)) = Done (Some (caps, s), Err (ValueFunctionFailed e))"
    by (simp add: sv_mutate_def persistent_def)
  assume ok: "f (decode_stored c (db_lookup key s)) = Ok val"
  obtain s' b where cas: "local_storage_compare_and_set local_ops PERSISTENT key (db_lookup key s) (encode c val) s = (s', b)"
    by (cases "local_storage_compare_and_set local_ops PERSISTENT key (db_lookup key s) (encode c val) s") auto
  from local_db.db_cas [OF TrueI cas] have b: "b" "\<And>k. db_lookup k s' = (if k = key then Some (encode c val) else db_lookup k s)"
    by auto
  have "sv_mutate local_ops c (persistent key) f id (Some (caps, s)) = Done (Some (caps, s'), Ok val)"
    using caps cas b(1) ok get
    by (simp add: sv_mutate_def persistent_def io_local_storage_compare_and_set_def limited_def check_def)
  with b(2) show "\<exists>s'. sv_mutate local_ops c (persistent key) f id (Some (caps, s)) = Done (Some (caps, s'), Ok val) \<and>
        (\<forall>k. db_lookup k s' = (if k = key then Some (encode c val) else db_lookup k s))" by blast
qed

end
