(* ===== verification/Storage_Lock.thy ===== *)
theory Storage_Lock
  imports Offchain_Db
begin

text \<open>
  The persisted lock of \<open>primitives/runtime/src/offchain/storage_lock.rs\<close>.  A \<open>Lockable\<close> is a record
  of its three methods, each reading the clock it is given; the laws the lock relies on form
  a locale, interpreted on the two lockables of the source.  Workers that compete for a lock are
  a transition system over one shared \<open>LocalStorage\<close>, in which the read and the compare-and-set of an
  attempt are separate steps.
\<close>

section \<open>Lockables\<close>

text \<open>What \<open>offchain::timestamp\<close> and \<open>current_block_number\<close> return at one moment.\<close>

record clock =
  clk_now :: timestamp
  clk_block :: u32

record ('l, 'd) lockable =
  lk_deadline :: "'l \<Rightarrow> clock \<Rightarrow> 'd"
  lk_has_expired :: "'d \<Rightarrow> clock \<Rightarrow> bool"
  lk_snooze :: "'d \<Rightarrow> clock \<Rightarrow> timestamp"

definition STORAGE_LOCK_DEFAULT_EXPIRY_DURATION :: duration where
  "STORAGE_LOCK_DEFAULT_EXPIRY_DURATION = 20000"

definition STORAGE_LOCK_DEFAULT_EXPIRY_BLOCKS :: u32 where
  "STORAGE_LOCK_DEFAULT_EXPIRY_BLOCKS = 4"

definition STORAGE_LOCK_PER_CHECK_ITERATION_SNOOZE_MIN :: duration where
  "STORAGE_LOCK_PER_CHECK_ITERATION_SNOOZE_MIN = 10"

definition STORAGE_LOCK_PER_CHECK_ITERATION_SNOOZE_MAX :: duration where
  "STORAGE_LOCK_PER_CHECK_ITERATION_SNOOZE_MAX = 100"

definition clamp :: "'a::linorder \<Rightarrow> 'a \<Rightarrow> 'a \<Rightarrow> 'a" where
  "clamp x lo hi = (if x < lo then lo else if hi < x then hi else x)"

record time =
  tm_expiration_duration :: duration

definition default_time :: time where
  "default_time = \<lparr>tm_expiration_duration = STORAGE_LOCK_DEFAULT_EXPIRY_DURATION\<rparr>"

definition time_deadline :: "time \<Rightarrow> clock \<Rightarrow> timestamp" where
  "time_deadline self clk = timestamp_add (clk_now clk) (tm_expiration_duration self)"

definition time_has_expired :: "timestamp \<Rightarrow> clock \<Rightarrow> bool" where
  "time_has_expired deadline clk = (deadline < clk_now clk)"

text \<open>The instant \<open>snooze\<close> sleeps until.\<close>

definition time_snooze :: "timestamp \<Rightarrow> clock \<Rightarrow> timestamp" where
  "time_snooze deadline clk =
     (let now = clk_now clk;
          remainder = timestamp_diff now deadline;
          snooze = clamp remainder STORAGE_LOCK_PER_CHECK_ITERATION_SNOOZE_MIN
            STORAGE_LOCK_PER_CHECK_ITERATION_SNOOZE_MAX
      in timestamp_add now snooze)"

definition time_lockable :: "(time, timestamp) lockable" where
  "time_lockable = \<lparr>lk_deadline = time_deadline, lk_has_expired = time_has_expired, lk_snooze = time_snooze\<rparr>"

record block_and_time_deadline =
  dl_block_number :: u32
  dl_timestamp :: timestamp

record block_and_time =
  bt_expiration_block_number_offset :: u32
  bt_expiration_duration :: duration

definition default_block_and_time_deadline :: "clock \<Rightarrow> block_and_time_deadline" where
  "default_block_and_time_deadline clk = \<lparr>
     dl_block_number = clk_block clk + STORAGE_LOCK_DEFAULT_EXPIRY_BLOCKS,
     dl_timestamp = timestamp_add (clk_now clk) STORAGE_LOCK_DEFAULT_EXPIRY_DURATION\<rparr>"

definition default_block_and_time :: block_and_time where
  "default_block_and_time = \<lparr>
     bt_expiration_block_number_offset = STORAGE_LOCK_DEFAULT_EXPIRY_BLOCKS,
     bt_expiration_duration = STORAGE_LOCK_DEFAULT_EXPIRY_DURATION\<rparr>"

definition block_and_time_deadline_of :: "block_and_time \<Rightarrow> clock \<Rightarrow> block_and_time_deadline" where
  "block_and_time_deadline_of self clk = \<lparr>
     dl_block_number = clk_block clk + bt_expiration_block_number_offset self,
     dl_timestamp = timestamp_add (clk_now clk) (bt_expiration_duration self)\<rparr>"

definition block_and_time_has_expired :: "block_and_time_deadline \<Rightarrow> clock \<Rightarrow> bool" where
  "block_and_time_has_expired deadline clk =
     (dl_timestamp deadline < clk_now clk \<and> dl_block_number deadline < clk_block clk)"

definition block_and_time_snooze :: "block_and_time_deadline \<Rightarrow> clock \<Rightarrow> timestamp" where
  "block_and_time_snooze deadline clk =
     (let now = clk_now clk;
          remainder = timestamp_diff now (dl_timestamp deadline);
          snooze = clamp remainder STORAGE_LOCK_PER_CHECK_ITERATION_SNOOZE_MIN
            STORAGE_LOCK_PER_CHECK_ITERATION_SNOOZE_MAX
      in timestamp_add now snooze)"

definition block_and_time_lockable :: "(block_and_time, block_and_time_deadline) lockable" where
  "block_and_time_lockable = \<lparr>lk_deadline = block_and_time_deadline_of,
     lk_has_expired = block_and_time_has_expired, lk_snooze = block_and_time_snooze\<rparr>"

section \<open>The lock\<close>

record 'l storage_lock =
  value_ref :: storage_value_ref
  lock_lockable :: 'l

definition with_lockable :: "bytes \<Rightarrow> 'l \<Rightarrow> 'l storage_lock" where
  "with_lockable key l = \<lparr>value_ref = persistent key, lock_lockable = l\<rparr>"

definition with_deadline :: "bytes \<Rightarrow> duration \<Rightarrow> time storage_lock" where
  "with_deadline key expiration_duration =
     \<lparr>value_ref = persistent key, lock_lockable = \<lparr>tm_expiration_duration = expiration_duration\<rparr>\<rparr>"

definition with_block_and_time_deadline :: "bytes \<Rightarrow> u32 \<Rightarrow> duration \<Rightarrow> block_and_time storage_lock" where
  "with_block_and_time_deadline key offset expiration_duration =
     \<lparr>value_ref = persistent key, lock_lockable = \<lparr>bt_expiration_block_number_offset = offset,
        bt_expiration_duration = expiration_duration\<rparr>\<rparr>"

definition with_block_deadline :: "bytes \<Rightarrow> u32 \<Rightarrow> block_and_time storage_lock" where
  "with_block_deadline key offset =
     \<lparr>value_ref = persistent key, lock_lockable = \<lparr>bt_expiration_block_number_offset = offset,
        bt_expiration_duration = STORAGE_LOCK_DEFAULT_EXPIRY_DURATION\<rparr>\<rparr>"

text \<open>The closures handed to \<open>mutate\<close>.\<close>

definition extend_val ::
  "('l, 'd) lockable \<Rightarrow> 'l \<Rightarrow> clock \<Rightarrow> ('d option, storage_retrieval_error) result \<Rightarrow> ('d, unit) result" where
  "extend_val L l clk s =
     (case s of
        Ok (Some deadline) \<Rightarrow> if \<not> lk_has_expired L deadline clk then Ok (lk_deadline L l clk) else Err ()
      | _ \<Rightarrow> Err ())"

definition try_lock_val ::
  "('l, 'd) lockable \<Rightarrow> 'd \<Rightarrow> clock \<Rightarrow> ('d option, storage_retrieval_error) result \<Rightarrow> ('d, 'd) result" where
  "try_lock_val L new_deadline clk s =
     (case s of
        Ok None \<Rightarrow> Ok new_deadline
      | Err _ \<Rightarrow> Ok new_deadline
      | Ok (Some deadline) \<Rightarrow> if lk_has_expired L deadline clk then Ok new_deadline else Err deadline)"

definition extend_active_lock ::
  "'s storage_ops \<Rightarrow> 'd codec \<Rightarrow> ('l, 'd) lockable \<Rightarrow> 'l storage_lock \<Rightarrow> clock \<Rightarrow> ('s db_ext \<Rightarrow> 's db_ext) \<Rightarrow>
   's db_ext \<Rightarrow> ('s db_ext \<times> ('d, unit) result) exec" where
  "extend_active_lock ops c L lock clk env ext =
     bind_exec (sv_mutate ops c (value_ref lock) (extend_val L (lock_lockable lock) clk) env ext) (\<lambda>(ext, res).
     Done (ext, case res of
         Ok deadline \<Rightarrow> Ok deadline
       | Err (ConcurrentModification _) \<Rightarrow> Err ()
       | Err (ValueFunctionFailed e) \<Rightarrow> Err e))"

definition try_lock_inner ::
  "'s storage_ops \<Rightarrow> 'd codec \<Rightarrow> ('l, 'd) lockable \<Rightarrow> 'l storage_lock \<Rightarrow> 'd \<Rightarrow> clock \<Rightarrow> ('s db_ext \<Rightarrow> 's db_ext) \<Rightarrow>
   's db_ext \<Rightarrow> ('s db_ext \<times> (unit, 'd) result) exec" where
  "try_lock_inner ops c L lock new_deadline clk env ext =
     bind_exec (sv_mutate ops c (value_ref lock) (try_lock_val L new_deadline clk) env ext) (\<lambda>(ext, res).
     Done (ext, case res of
         Ok _ \<Rightarrow> Ok ()
       | Err (ConcurrentModification deadline) \<Rightarrow> Err deadline
       | Err (ValueFunctionFailed e) \<Rightarrow> Err e))"

text \<open>A guard says whether it still refers to its lock.\<close>

datatype guard = Guard bool

definition try_lock ::
  "'s storage_ops \<Rightarrow> 'd codec \<Rightarrow> ('l, 'd) lockable \<Rightarrow> 'l storage_lock \<Rightarrow> clock \<Rightarrow> clock \<Rightarrow>
   ('s db_ext \<Rightarrow> 's db_ext) \<Rightarrow> 's db_ext \<Rightarrow> ('s db_ext \<times> (guard, 'd) result) exec" where
  "try_lock ops c L lock clk0 clk env ext =
     bind_exec (try_lock_inner ops c L lock (lk_deadline L (lock_lockable lock) clk0) clk env ext) (\<lambda>(ext, res).
     Done (ext, case res of Ok _ \<Rightarrow> Ok (Guard True) | Err d \<Rightarrow> Err d))"

text \<open>
  \<open>lock\<close> tries until it succeeds.  A round of the loop is given by the clock readings of the attempt,
  the interference during it and the interference while the worker sleeps; when the rounds
  run out the worker is still waiting, which is \<open>None\<close>.
\<close>

record 's lock_round =
  lr_clock0 :: clock
  lr_clock :: clock
  lr_env :: "'s db_ext \<Rightarrow> 's db_ext"
  lr_sleep :: "'s db_ext \<Rightarrow> 's db_ext"

primrec lock_loop ::
  "'s storage_ops \<Rightarrow> 'd codec \<Rightarrow> ('l, 'd) lockable \<Rightarrow> 'l storage_lock \<Rightarrow> 's lock_round list \<Rightarrow> 's db_ext \<Rightarrow>
   ('s db_ext \<times> guard) option exec" where
  "lock_loop ops c L lock [] ext = Done None"
| "lock_loop ops c L lock (r # rs) ext =
     bind_exec (try_lock_inner ops c L lock (lk_deadline L (lock_lockable lock) (lr_clock0 r)) (lr_clock r) (lr_env r) ext)
       (\<lambda>(ext, res).
     case res of
       Ok _ \<Rightarrow> Done (Some (ext, Guard True))
     | Err _ \<Rightarrow> lock_loop ops c L lock rs (lr_sleep r ext))"

definition unlock :: "'s storage_ops \<Rightarrow> 'l storage_lock \<Rightarrow> 's db_ext \<Rightarrow> 's db_ext exec" where
  "unlock ops lock ext = sv_clear ops (value_ref lock) ext"

definition guard_forget :: "guard \<Rightarrow> guard" where
  "guard_forget g = Guard False"

definition guard_extend_lock ::
  "'s storage_ops \<Rightarrow> 'd codec \<Rightarrow> ('l, 'd) lockable \<Rightarrow> 'l storage_lock \<Rightarrow> guard \<Rightarrow> clock \<Rightarrow> ('s db_ext \<Rightarrow> 's db_ext) \<Rightarrow>
   's db_ext \<Rightarrow> ('s db_ext \<times> ('d, unit) result) exec" where
  "guard_extend_lock ops c L lock g clk env ext =
     (case g of Guard True \<Rightarrow> extend_active_lock ops c L lock clk env ext | Guard False \<Rightarrow> Done (ext, Err ()))"

definition guard_drop :: "'s storage_ops \<Rightarrow> 'l storage_lock \<Rightarrow> guard \<Rightarrow> 's db_ext \<Rightarrow> 's db_ext exec" where
  "guard_drop ops lock g ext = (case g of Guard True \<Rightarrow> unlock ops lock ext | Guard False \<Rightarrow> Done ext)"

section \<open>The laws of a lockable\<close>

definition clock_le :: "clock \<Rightarrow> clock \<Rightarrow> bool" where
  "clock_le a b \<longleftrightarrow> clk_now a \<le> clk_now b \<and> clk_block a \<le> clk_block b"

text \<open>The cell of the database that holds the lock.\<close>

abbreviation lock_cell :: "bytes \<Rightarrow> local_storage \<Rightarrow> bytes option" where
  "lock_cell key db \<equiv> local_storage_get local_ops PERSISTENT key db"

text \<open>
  Workers that compete for the lock under \<open>key\<close>.  An attempt reads the cell, decides with the closure of
  \<open>try_lock_inner\<close>, and later compares and sets; a holder drops its guard or forgets it; time passes.
  \<open>timely\<close> says whether guards are only dropped before their deadline.
\<close>

datatype 'd worker = Idle | Attempt "bytes option" 'd | Holding 'd

record 'd lock_sys =
  sys_db :: local_storage
  sys_clock :: clock
  sys_workers :: "nat \<Rightarrow> 'd worker"

inductive lock_step ::
  "bool \<Rightarrow> ('l, 'd) lockable \<Rightarrow> 'l \<Rightarrow> 'd codec \<Rightarrow> bytes \<Rightarrow> 'd lock_sys \<Rightarrow> 'd lock_sys \<Rightarrow> bool"
  for timely :: bool and L :: "('l, 'd) lockable" and l :: 'l and c :: "'d codec" and key :: bytes
where
  step_read:
  "sys_workers s w = Idle \<Longrightarrow> clock_le clk0 (sys_clock s) \<Longrightarrow>
   try_lock_val L (lk_deadline L l clk0) (sys_clock s) (decode_stored c (lock_cell key (sys_db s))) = Ok d \<Longrightarrow>
   lock_step timely L l c key s
     (s\<lparr>sys_workers := (sys_workers s)(w := Attempt (lock_cell key (sys_db s)) d)\<rparr>)"
| step_acquire:
  "sys_workers s w = Attempt v d \<Longrightarrow>
   local_storage_compare_and_set local_ops PERSISTENT key v (encode c d) (sys_db s) = (db', True) \<Longrightarrow>
   lock_step timely L l c key s (s\<lparr>sys_db := db', sys_workers := (sys_workers s)(w := Holding d)\<rparr>)"
| step_lose:
  "sys_workers s w = Attempt v d \<Longrightarrow>
   local_storage_compare_and_set local_ops PERSISTENT key v (encode c d) (sys_db s) = (db', False) \<Longrightarrow>
   lock_step timely L l c key s (s\<lparr>sys_db := db', sys_workers := (sys_workers s)(w := Idle)\<rparr>)"
| step_drop:
  "sys_workers s w = Holding d \<Longrightarrow> (timely \<Longrightarrow> \<not> lk_has_expired L d (sys_clock s)) \<Longrightarrow>
   lock_step timely L l c key s (s\<lparr>sys_db := local_storage_clear local_ops PERSISTENT key (sys_db s),
     sys_workers := (sys_workers s)(w := Idle)\<rparr>)"
| step_forget:
  "sys_workers s w = Holding d \<Longrightarrow>
   lock_step timely L l c key s (s\<lparr>sys_workers := (sys_workers s)(w := Idle)\<rparr>)"
| step_tick:
  "clock_le (sys_clock s) clk \<Longrightarrow> lock_step timely L l c key s (s\<lparr>sys_clock := clk\<rparr>)"

inductive_cases lock_stepE: "lock_step timely L l c key s s'"

text \<open>A value read in an attempt that may be replaced: no lock, an unreadable one or an expired one.\<close>

definition replaceable :: "('l, 'd) lockable \<Rightarrow> 'd codec \<Rightarrow> clock \<Rightarrow> bytes option \<Rightarrow> bool" where
  "replaceable L c clk v \<longleftrightarrow> (\<forall>b d. v = Some b \<longrightarrow> decode c b = Some d \<longrightarrow> lk_has_expired L d clk)"

definition active :: "('l, 'd) lockable \<Rightarrow> 'd lock_sys \<Rightarrow> nat \<Rightarrow> 'd \<Rightarrow> bool" where
  "active L s w d \<longleftrightarrow> sys_workers s w = Holding d \<and> \<not> lk_has_expired L d (sys_clock s)"

definition lock_inv :: "('l, 'd) lockable \<Rightarrow> 'd codec \<Rightarrow> bytes \<Rightarrow> 'd lock_sys \<Rightarrow> bool" where
  "lock_inv L c key s \<longleftrightarrow>
     (\<forall>w v d. sys_workers s w = Attempt v d \<longrightarrow> replaceable L c (sys_clock s) v) \<and>
     (\<forall>w d. active L s w d \<longrightarrow> lock_cell key (sys_db s) = Some (encode c d)) \<and>
     (\<forall>w w' d d'. active L s w d \<longrightarrow> active L s w' d' \<longrightarrow> w = w')"

lemma lock_invD:
  assumes "lock_inv L c key s"
  shows "sys_workers s w = Attempt v d \<Longrightarrow> replaceable L c (sys_clock s) v"
    "active L s w d \<Longrightarrow> lock_cell key (sys_db s) = Some (encode c d)"
    "active L s w d \<Longrightarrow> active L s w' d' \<Longrightarrow> w = w'"
  using assms unfolding lock_inv_def by blast+

lemma lock_inv_weaken:
  assumes inv: "lock_inv L c key s" and cell: "lock_cell key (sys_db s') = lock_cell key (sys_db s)"
    and act: "\<And>w d. active L s' w d \<Longrightarrow> active L s w d"
    and att: "\<And>w v d. sys_workers s' w = Attempt v d \<Longrightarrow> replaceable L c (sys_clock s') v"
  shows "lock_inv L c key s'"
  unfolding lock_inv_def
proof (intro conjI allI impI)
  show "lock_cell key (sys_db s') = Some (encode c d)" if "active L s' w d" for w d
    using lock_invD(2) [OF inv act [OF that]] cell by simp
  show "w = w'" if "active L s' w d" "active L s' w' d'" for w w' d d'
    by (rule lock_invD(3) [OF inv act act]) (rule that)+
qed (rule att)

lemma try_lock_val_replaceable:
  "try_lock_val L nd clk (decode_stored c v) = Ok d \<Longrightarrow> replaceable L c clk v"
  by (auto simp: try_lock_val_def decode_stored_def replaceable_def split: option.splits if_splits)

locale lockable_laws =
  fixes L :: "('l, 'd) lockable"
  assumes fresh: "\<not> lk_has_expired L (lk_deadline L l clk) clk"
    and expire_mono: "clock_le clk clk' \<Longrightarrow> lk_has_expired L d clk \<Longrightarrow> lk_has_expired L d clk'"
begin

lemma replaceable_mono: "clock_le clk clk' \<Longrightarrow> replaceable L c clk v \<Longrightarrow> replaceable L c clk' v"
  using expire_mono by (auto simp: replaceable_def)

lemma no_active_when_replaceable:
  assumes "codec_ok c" "lock_inv L c key s" "replaceable L c (sys_clock s) (lock_cell key (sys_db s))"
  shows "\<not> active L s w d"
proof
  assume a: "active L s w d"
  with lock_invD(2) [OF assms(2)] have "lock_cell key (sys_db s) = Some (encode c d)" by blast
  with assms(1,3) have "lk_has_expired L d (sys_clock s)" by (simp add: replaceable_def)
  with a show False by (simp add: active_def)
qed

lemma lock_step_inv:
  assumes c: "codec_ok c" and step: "lock_step True L l c key s s'" and inv: "lock_inv L c key s"
  shows "lock_inv L c key s'"
  using step
proof cases
  case (step_read w clk0 d)
  then have "active L s' w' d' \<Longrightarrow> active L s w' d'" for w' d'
    by (cases "w' = w") (simp_all add: active_def)
  moreover have "replaceable L c (sys_clock s') v" if "sys_workers s' w' = Attempt v d'" for w' v d'
    using that step_read(1) lock_invD(1) [OF inv] try_lock_val_replaceable [OF step_read(4)]
    by (auto split: if_splits)
  ultimately show ?thesis
    by (intro lock_inv_weaken [OF inv]) (simp_all add: step_read(1))
next
  case (step_acquire w v d db')
  have cell: "lock_cell key (sys_db s) = v" "lock_cell key db' = Some (encode c d)"
    using local_db.db_cas [OF TrueI step_acquire(3)] by auto
  moreover have "replaceable L c (sys_clock s) v"
    using inv step_acquire(2) by (auto simp: lock_inv_def)
  ultimately have "\<not> active L s w' d'" for w' d'
    using no_active_when_replaceable [OF c inv] by simp
  then have only: "w' = w \<and> d' = d" if "active L s' w' d'" for w' d'
    using that step_acquire(1) by (cases "w' = w") (auto simp: active_def)
  moreover have "replaceable L c (sys_clock s') v" if "sys_workers s' w' = Attempt v d'" for w' v d'
    using that step_acquire(1) lock_invD(1) [OF inv] by (simp split: if_splits)
  moreover have "lock_cell key (sys_db s') = Some (encode c d)"
    using cell(2) step_acquire(1) by simp
  ultimately show ?thesis
    unfolding lock_inv_def by blast
next
  case (step_lose w v d db')
  have "lock_cell key db' = lock_cell key (sys_db s)"
    using local_db.db_cas(2) [OF TrueI step_lose(3), of key] by simp
  moreover have "active L s' w' d' \<Longrightarrow> active L s w' d'" for w' d'
    using step_lose(1) by (cases "w' = w") (simp_all add: active_def)
  moreover have "replaceable L c (sys_clock s') v" if "sys_workers s' w' = Attempt v d'" for w' v d'
    using that step_lose(1) lock_invD(1) [OF inv] by (simp split: if_splits)
  ultimately show ?thesis
    by (intro lock_inv_weaken [OF inv]) (simp_all add: step_lose(1))
next
  case (step_drop w d)
  then have "active L s w d" by (simp add: active_def)
  then have "\<not> active L s w' d'" if "w' \<noteq> w" for w' d'
    using lock_invD(3) [OF inv] that by blast
  then have "\<not> active L s' w' d'" for w' d'
    using step_drop(1) by (cases "w' = w") (simp_all add: active_def)
  moreover have "replaceable L c (sys_clock s') v" if "sys_workers s' w' = Attempt v d'" for w' v d'
    using that step_drop(1) lock_invD(1) [OF inv] by (simp split: if_splits)
  ultimately show ?thesis by (simp add: lock_inv_def)
next
  case (step_forget w d)
  then have "active L s' w' d' \<Longrightarrow> active L s w' d'" for w' d'
    by (cases "w' = w") (simp_all add: active_def)
  moreover have "replaceable L c (sys_clock s') v" if "sys_workers s' w' = Attempt v d'" for w' v d'
    using that step_forget(1) lock_invD(1) [OF inv] by (simp split: if_splits)
  ultimately show ?thesis
    by (intro lock_inv_weaken [OF inv]) (simp_all add: step_forget(1))
next
  case (step_tick clk)
  then have "active L s' w' d' \<Longrightarrow> active L s w' d'" for w' d'
    using expire_mono by (auto simp: active_def)
  moreover have "replaceable L c (sys_clock s') v" if "sys_workers s' w' = Attempt v d'" for w' v d'
    using that step_tick lock_invD(1) [OF inv] replaceable_mono by simp
  ultimately show ?thesis
    by (intro lock_inv_weaken [OF inv]) (simp_all add: step_tick(1))
qed

lemma lock_steps_inv:
  "(lock_step True L l c key)\<^sup>*\<^sup>* s s' \<Longrightarrow> codec_ok c \<Longrightarrow> lock_inv L c key s \<Longrightarrow> lock_inv L c key s'"
  by (induction rule: rtranclp_induct) (auto intro: lock_step_inv)

end

interpretation time: lockable_laws time_lockable
  by unfold_locales
    (auto simp: time_lockable_def time_deadline_def time_has_expired_def timestamp_add_def clock_le_def
      not_less saturating_add_ge)

interpretation block_and_time: lockable_laws block_and_time_lockable
  by unfold_locales
    (auto simp: block_and_time_lockable_def block_and_time_deadline_of_def block_and_time_has_expired_def
      timestamp_add_def clock_le_def not_less saturating_add_ge dest: less_le_trans)

section \<open>Properties\<close>

definition lock_start :: "local_storage \<Rightarrow> clock \<Rightarrow> 'd lock_sys" where
  "lock_start db clk = \<lparr>sys_db = db, sys_clock = clk, sys_workers = (\<lambda>_. Idle)\<rparr>"

lemma lock_start_inv: "lock_inv L c key (lock_start db clk)"
  by (simp add: lock_inv_def lock_start_def active_def)

text \<open>The read and the compare-and-set of the transition system are those of \<open>try_lock_inner\<close>.\<close>

lemma try_lock_inner_run:
  assumes caps: "contains caps OFFCHAIN_DB_READ" "contains caps OFFCHAIN_DB_WRITE"
    and env: "env (Some (caps, db)) = Some (caps, db2)"
    and key: "value_ref lock = persistent key"
  shows "try_lock_inner local_ops c L lock nd clk env (Some (caps, db)) =
    (case try_lock_val L nd clk (decode_stored c (lock_cell key db)) of
       Err d \<Rightarrow> Done (Some (caps, db), Err d)
     | Ok d \<Rightarrow>
         (case local_storage_compare_and_set local_ops PERSISTENT key (lock_cell key db) (encode c d) db2 of
            (db', b) \<Rightarrow> Done (Some (caps, db'), if b then Ok () else Err d)))"
  using assms
  by (auto simp: try_lock_inner_def sv_mutate_def io_local_storage_get_def io_local_storage_compare_and_set_def
      limited_def check_def persistent_def split: result.split prod.split)

lemma try_lock_val_Ok_iff:
  "try_lock_val L nd clk (decode_stored c v) = (if replaceable L c clk v then Ok nd else
     Err (the (decode c (the v))))"
  by (auto simp: try_lock_val_def decode_stored_def replaceable_def split: option.splits)

text \<open>
  A single attempt to lock.  With a readable and writable database it never panics; it
  succeeds exactly when the cell held no live lock as the attempt read it and still had that
  value when the attempt wrote, and then the cell holds the new deadline; otherwise
  the cell is what the other workers left in it.
\<close>

theorem try_lock_result:
  assumes "contains caps OFFCHAIN_DB_READ" and "contains caps OFFCHAIN_DB_WRITE"
    and "env (Some (caps, db)) = Some (caps, db2)"
  shows "\<exists>db' res. try_lock local_ops c L (with_lockable key l) clk0 clk env (Some (caps, db)) =
      Done (Some (caps, db'), res) \<and>
    (is_ok res \<longleftrightarrow> replaceable L c clk (lock_cell key db) \<and> lock_cell key db2 = lock_cell key db) \<and>
    (is_ok res \<longrightarrow> lock_cell key db' = Some (encode c (lk_deadline L l clk0))) \<and>
    (\<not> is_ok res \<and> replaceable L c clk (lock_cell key db) \<longrightarrow> lock_cell key db' = lock_cell key db2)"
proof -
  let ?lock = "with_lockable key l" and ?nd = "lk_deadline L l clk0"
  have key: "value_ref ?lock = persistent key" "lock_lockable ?lock = l"
    by (simp_all add: with_lockable_def)
  note run = try_lock_inner_run [where env = env and db = db, OF assms key(1), of c L ?nd clk, unfolded try_lock_val_Ok_iff]
  show ?thesis
  proof (cases "replaceable L c clk (lock_cell key db)")
    case False
    with run show ?thesis by (simp add: try_lock_def key)
  next
    case True
    obtain db' b where cas:
      "local_storage_compare_and_set local_ops PERSISTENT key (lock_cell key db) (encode c ?nd) db2 = (db', b)"
      by (cases "local_storage_compare_and_set local_ops PERSISTENT key (lock_cell key db) (encode c ?nd) db2")
    from local_db.db_cas [OF TrueI cas] True run cas show ?thesis
      by (cases b) (simp_all add: try_lock_def key)
  qed
qed


text \<open>
  The block-and-time lock excludes under the same conditions.
\<close>

theorem block_and_time_mutual_exclusion:
  assumes "codec_ok c" and "(lock_step True block_and_time_lockable l c key)\<^sup>*\<^sup>* (lock_start db clk) s"
    and "sys_workers s w = Holding d" and "\<not> block_and_time_has_expired d (sys_clock s)"
    and "sys_workers s w' = Holding d'" and "\<not> block_and_time_has_expired d' (sys_clock s)"
  shows "w = w'"
proof -
  have "lock_inv block_and_time_lockable c key s"
    by (rule block_and_time.lock_steps_inv [OF assms(2,1) lock_start_inv])
  then show ?thesis
    using assms(3-6) by (intro lock_invD(3)) (auto simp: active_def block_and_time_lockable_def)
qed

text \<open>
  Waiting for a held lock always sleeps the minimum.  As long as the deadline has not passed,
  both lockables snooze until 10 milliseconds from now, however far away the deadline is.
\<close>

theorem snooze_is_always_minimal:
  "(clk_now clk \<le> deadline \<longrightarrow> time_snooze deadline clk = timestamp_add (clk_now clk) 10) \<and>
   (clk_now clk \<le> dl_timestamp dl \<longrightarrow> block_and_time_snooze dl clk = timestamp_add (clk_now clk) 10)"
  by (auto simp: time_snooze_def block_and_time_snooze_def Let_def timestamp_diff_def saturating_sub_def clamp_def
      STORAGE_LOCK_PER_CHECK_ITERATION_SNOOZE_MIN_def STORAGE_LOCK_PER_CHECK_ITERATION_SNOOZE_MAX_def)

section \<open>Concrete runs\<close>

lemma lock_acquire:
  assumes "sys_workers s w = Idle" "replaceable L c (sys_clock s) (lock_cell key (sys_db s))"
  obtains s' where "(lock_step t L l c key)\<^sup>*\<^sup>* s s'"
    "sys_workers s' = (sys_workers s)(w := Holding (lk_deadline L l (sys_clock s)))"
    "sys_clock s' = sys_clock s" "lock_cell key (sys_db s') = Some (encode c (lk_deadline L l (sys_clock s)))"
proof -
  let ?d = "lk_deadline L l (sys_clock s)" and ?v = "lock_cell key (sys_db s)"
  let ?s1 = "s\<lparr>sys_workers := (sys_workers s)(w := Attempt ?v ?d)\<rparr>"
  obtain db' b where cas: "local_storage_compare_and_set local_ops PERSISTENT key ?v (encode c ?d) (sys_db s) = (db', b)"
    by (cases "local_storage_compare_and_set local_ops PERSISTENT key ?v (encode c ?d) (sys_db s)")
  then have b: "b" "lock_cell key db' = Some (encode c ?d)"
    using local_db.db_cas [OF TrueI cas] by auto
  have "lock_step t L l c key s ?s1"
    using assms by (intro step_read [where ?clk0.0 = "sys_clock s"]) (simp_all add: clock_le_def try_lock_val_Ok_iff)
  moreover have "lock_step t L l c key ?s1 (?s1\<lparr>sys_db := db', sys_workers := (sys_workers ?s1)(w := Holding ?d)\<rparr>)"
    using cas b(1) by (intro step_acquire) simp_all
  ultimately have "(lock_step t L l c key)\<^sup>*\<^sup>* s (?s1\<lparr>sys_db := db', sys_workers := (sys_workers ?s1)(w := Holding ?d)\<rparr>)"
    by (meson converse_rtranclp_into_rtranclp rtranclp.rtrancl_refl)
  with b(2) that show ?thesis by simp
qed

definition clock_at :: "timestamp \<Rightarrow> clock" where
  "clock_at t = \<lparr>clk_now = t, clk_block = 0\<rparr>"

definition ten_ms :: time where
  "ten_ms = \<lparr>tm_expiration_duration = 10\<rparr>"

lemma ten_ms_deadline: "t \<le> 100 \<Longrightarrow> lk_deadline time_lockable ten_ms (clock_at t) = t + 10"
proof -
  assume "t \<le> 100"
  then have "unat t \<le> 100" by (simp add: word_le_nat_alt)
  then show ?thesis
    by (simp add: time_lockable_def time_deadline_def ten_ms_def clock_at_def timestamp_add_def saturating_add_def)
qed


theorem snooze_is_always_minimal_witness:
  "time_snooze 20000 (clock_at 0) = 10 \<and>
   block_and_time_snooze \<lparr>dl_block_number = 4, dl_timestamp = 20000\<rparr> (clock_at 0) = 10"
  using snooze_is_always_minimal [of "clock_at 0" 20000 "\<lparr>dl_block_number = 4, dl_timestamp = 20000\<rparr>"]
  by (simp add: clock_at_def timestamp_add_def saturating_add_def)

theorem try_lock_result_witness:
  "\<exists>db' g. try_lock local_ops scale_u64 time_lockable (with_lockable [1] default_time) (clock_at 5) (clock_at 6) id
      (Some (OFFCHAIN_DB_READ OR OFFCHAIN_DB_WRITE, empty_local)) =
      Done (Some (OFFCHAIN_DB_READ OR OFFCHAIN_DB_WRITE, db'), Ok g) \<and>
    lock_cell [1] db' = Some (encode scale_u64 20005)"
proof -
  let ?caps = "OFFCHAIN_DB_READ OR OFFCHAIN_DB_WRITE"
  have caps: "contains ?caps OFFCHAIN_DB_READ" "contains ?caps OFFCHAIN_DB_WRITE"
    by (simp_all add: contains_def capability_defs)
  have r: "replaceable time_lockable scale_u64 (clock_at 6) (lock_cell [1] empty_local)"
    by (simp add: replaceable_def empty_local_get)
  have d: "lk_deadline time_lockable default_time (clock_at 5) = 20005"
    by (simp add: time_lockable_def time_deadline_def default_time_def clock_at_def timestamp_add_def
        saturating_add_def STORAGE_LOCK_DEFAULT_EXPIRY_DURATION_def)
  from try_lock_result [OF caps, of id empty_local empty_local scale_u64 time_lockable "[1]" default_time "clock_at 5" "clock_at 6"] r d
  show ?thesis by (auto simp: is_ok_iff)
qed


definition scale_deadline :: "block_and_time_deadline codec" where
  "scale_deadline = \<lparr>
     encode = (\<lambda>d. le_bytes32 (dl_block_number d) @ le_bytes64 (dl_timestamp d)),
     decode = (\<lambda>bs. case (le_word32 (take 4 bs), le_word64 (drop 4 bs)) of
        (Some b, Some t) \<Rightarrow> Some \<lparr>dl_block_number = b, dl_timestamp = t\<rparr> | _ \<Rightarrow> None)\<rparr>"

lemma scale_deadline_ok: "codec_ok scale_deadline"
proof -
  have "length (le_bytes32 x) = 4" for x by (simp add: le_bytes32_def)
  moreover have "le_word64 (le_bytes64 x) = Some x" for x
    using scale_u64_ok by (simp add: codec_ok_def scale_u64_def)
  ultimately show ?thesis
    by (simp add: codec_ok_def scale_deadline_def le_word32_le_bytes32)
qed

theorem block_and_time_mutual_exclusion_witness:
  "\<exists>s d. (lock_step True block_and_time_lockable default_block_and_time scale_deadline [1])\<^sup>*\<^sup>*
       (lock_start empty_local (clock_at 0)) s \<and>
     sys_workers s 3 = Holding d \<and>
     (\<forall>w d. sys_workers s w = Holding d \<and> \<not> block_and_time_has_expired d (sys_clock s) \<longrightarrow> 3 = w)"
proof -
  let ?s0 = "lock_start empty_local (clock_at 0) :: block_and_time_deadline lock_sys"
  let ?d = "lk_deadline block_and_time_lockable default_block_and_time (clock_at 0)"
  have r0: "replaceable block_and_time_lockable scale_deadline (sys_clock ?s0) (lock_cell [1] (sys_db ?s0))"
    by (simp add: replaceable_def lock_start_def empty_local_get)
  obtain s where s: "(lock_step True block_and_time_lockable default_block_and_time scale_deadline [1])\<^sup>*\<^sup>* ?s0 s"
    "sys_workers s = (\<lambda>_. Idle)(3 := Holding ?d)" "sys_clock s = clock_at 0"
    by (rule lock_acquire [OF _ r0, where w = 3 and t = True and l = default_block_and_time])
      (simp_all add: lock_start_def)
  have h: "sys_workers s 3 = Holding ?d" "\<not> block_and_time_has_expired ?d (sys_clock s)"
    using block_and_time.fresh [of default_block_and_time "clock_at 0"]
    by (simp_all add: s(2,3) block_and_time_lockable_def)
  show ?thesis
    using s(1) h block_and_time_mutual_exclusion [OF scale_deadline_ok s(1) h] by blast
qed

end
