(* ===== verification/Randomness_Flip.thy ===== *)
theory Randomness_Flip
  imports Prelude
begin

text \<open>
  The pallet \<open>frame/randomness-collective-flip\<close>: a ring buffer of the parent hashes of the last 81 blocks and the seed
  computed from it.  The hash function, the SCALE encoding of the hashed tuple and the \<open>safe_mix\<close> crate are
  parameters.
\<close>

definition RANDOM_MATERIAL_LEN :: u32 where
  "RANDOM_MATERIAL_LEN = 81"

text \<open>\<open>block_number - 1\<close> is plain \<open>u32\<close> arithmetic: at block 0 it panics with overflow checks and wraps without.\<close>

definition block_number_to_index :: "bool \<Rightarrow> u32 \<Rightarrow> nat exec" where
  "block_number_to_index checks block_number =
     (if checks \<and> block_number = 0 then Panic else Done (unat ((block_number - 1) mod RANDOM_MATERIAL_LEN)))"

text \<open>\<open>BoundedVec::try_push\<close> fails when the vector is full; then the slot of the block is overwritten (indexing out of
  range panics).\<close>

definition flip_on_initialize :: "bool \<Rightarrow> u32 \<Rightarrow> 'h \<Rightarrow> 'h list \<Rightarrow> 'h list exec" where
  "flip_on_initialize checks block_number parent_hash values =
     (if length values < unat RANDOM_MATERIAL_LEN then Done (values @ [parent_hash])
      else bind_exec (block_number_to_index checks block_number) (\<lambda>index.
        if index < length values then Done (values[index := parent_hash]) else Panic))"

text \<open>\<open>iter().cycle().skip(index).take(81)\<close> on a non-empty series.\<close>

definition cycled :: "nat \<Rightarrow> 'h list \<Rightarrow> 'h list" where
  "cycled index hash_series =
     map (\<lambda>i. hash_series ! ((index + i) mod length hash_series)) [0..<unat RANDOM_MATERIAL_LEN]"

definition flip_random ::
  "bool \<Rightarrow> (nat \<Rightarrow> bytes \<Rightarrow> 'h \<Rightarrow> 'h) \<Rightarrow> ('h list \<Rightarrow> 'h) \<Rightarrow> 'h \<Rightarrow> u32 \<Rightarrow> 'h list \<Rightarrow> bytes \<Rightarrow> ('h \<times> u32) exec" where
  "flip_random checks hash_encoded triplet_mix default_hash block_number hash_series subject =
     bind_exec (block_number_to_index checks block_number) (\<lambda>index.
     Done (if hash_series \<noteq> []
         then triplet_mix (map2 (\<lambda>i h. hash_encoded i subject h) [0..<unat RANDOM_MATERIAL_LEN] (cycled index hash_series))
         else default_hash,
       saturating_sub block_number RANDOM_MATERIAL_LEN))"

section \<open>The ring buffer\<close>

text \<open>Initialising the blocks 1 to \<open>n\<close>, with parent hash \<open>p b\<close> at block \<open>b\<close>.\<close>

primrec run_blocks :: "(nat \<Rightarrow> 'h) \<Rightarrow> nat \<Rightarrow> 'h list exec" where
  "run_blocks p 0 = Done []"
| "run_blocks p (Suc n) = bind_exec (run_blocks p n) (flip_on_initialize True (word_of_nat (Suc n)) (p (Suc n)))"

text \<open>The newest block up to \<open>n\<close> that uses slot \<open>i\<close>.\<close>

definition newest_for_slot :: "nat \<Rightarrow> nat \<Rightarrow> nat" where
  "newest_for_slot n i = n - (n - Suc i) mod 81"

lemma unat_len [simp]: "unat RANDOM_MATERIAL_LEN = 81"
  by (simp add: RANDOM_MATERIAL_LEN_def)

lemma block_index:
  assumes "Suc n < 2 ^ 32"
  shows "block_number_to_index True (word_of_nat (Suc n)) = Done (n mod 81)"
proof -
  have n: "unat (word_of_nat (Suc n) :: u32) = Suc n"
    using assms by (simp only: unat_of_nat) (simp add: take_bit_nat_eq_self_iff)
  then have ne: "(word_of_nat (Suc n) :: u32) \<noteq> 0" by (metis nat.distinct(1) unat_0)
  have "unat ((word_of_nat (Suc n) :: u32) - 1) = unat (word_of_nat n :: u32)" by simp
  also have "\<dots> = n" using assms by (simp only: unat_of_nat) (simp add: take_bit_nat_eq_self_iff)
  finally have "unat (((word_of_nat (Suc n) :: u32) - 1) mod RANDOM_MATERIAL_LEN) = n mod 81"
    by (simp add: unat_mod_distrib)
  with ne show ?thesis by (simp add: block_number_to_index_def)
qed

lemma newest_for_slot_step:
  assumes "i < 81" "i < n"
  shows "newest_for_slot (Suc n) i = (if i = n mod 81 then Suc n else newest_for_slot n i)"
proof -
  obtain d where d: "n = i + Suc d" using less_imp_Suc_add [OF assms(2)] by auto
  have a: "Suc n - Suc i = Suc d" "n - Suc i = d" using d by auto
  have "n mod 81 = i mod 81 \<longleftrightarrow> 81 dvd n - i" using assms(2) by (simp add: mod_eq_dvd_iff_nat)
  then have "i = n mod 81 \<longleftrightarrow> Suc d mod 81 = 0" using d assms(1) by (auto simp: mod_eq_0_iff_dvd)
  moreover have "Suc d mod 81 = (if Suc d mod 81 = 0 then 0 else Suc (d mod 81))" by (simp add: mod_Suc)
  moreover have "d mod 81 \<le> d" by simp
  ultimately show ?thesis unfolding newest_for_slot_def a using d by auto
qed

lemma run_blocks_spec:
  assumes "n < 2 ^ 32"
  shows "run_blocks p n = Done (map (\<lambda>i. p (newest_for_slot n i)) [0..<min n 81])"
  using assms
proof (induction n)
  case 0
  then show ?case by simp
next
  case (Suc n)
  then have ih: "run_blocks p n = Done (map (\<lambda>i. p (newest_for_slot n i)) [0..<min n 81])" by simp
  show ?case
  proof (cases "n < 81")
    case True
    have same: "newest_for_slot (Suc n) i = Suc i" "newest_for_slot n i = Suc i" if "i < n" for i
      using that True by (auto simp: newest_for_slot_def)
    have "newest_for_slot (Suc n) n = Suc n" by (simp add: newest_for_slot_def)
    with True same show ?thesis by (simp add: ih flip_on_initialize_def)
  next
    case False
    have "(map (\<lambda>i. p (newest_for_slot n i)) [0..<81])[n mod 81 := p (Suc n)] = map (\<lambda>i. p (newest_for_slot (Suc n) i)) [0..<81]"
      by (rule nth_equalityI) (use False newest_for_slot_step in \<open>auto simp: nth_list_update\<close>)
    moreover have "min n 81 = 81" "min (Suc n) 81 = 81" using False by auto
    ultimately show ?thesis
      using block_index [OF Suc.prems] by (simp add: ih flip_on_initialize_def del: of_nat_Suc)
  qed
qed

text \<open>C28: the random material is a ring buffer of the last 81 parent hashes.  After the blocks 1 to \<open>n\<close> it holds
  \<open>min n 81\<close> hashes, never panicking on the way; slot \<open>i\<close> has the parent hash of the newest block \<open>b \<le> n\<close> with
  \<open>(b - 1) mod 81 = i\<close>, which is one of the last 81 blocks.\<close>

theorem random_material_ring_buffer:
  assumes "n < 2 ^ 32"
  shows "\<exists>values. run_blocks p n = Done values \<and> length values = min n 81 \<and>
    (\<forall>i < min n 81. \<exists>b. values ! i = p b \<and> b \<le> n \<and> n < b + 81 \<and> 0 < b \<and> (b - 1) mod 81 = i)"
proof -
  have "\<exists>b. p (newest_for_slot n i) = p b \<and> b \<le> n \<and> n < b + 81 \<and> 0 < b \<and> (b - 1) mod 81 = i" if i: "i < min n 81" for i
  proof (intro exI [of _ "newest_for_slot n i"] conjI refl)
    obtain d where d: "n = i + Suc d" using less_imp_Suc_add [of i n] i by auto
    have b: "newest_for_slot n i = Suc i + 81 * (d div 81)"
    proof -
      have "newest_for_slot n i = n - d mod 81" using d by (simp add: newest_for_slot_def)
      moreover have "d = 81 * (d div 81) + d mod 81" by simp
      ultimately show ?thesis using d by linarith
    qed
    show "newest_for_slot n i \<le> n" by (simp add: newest_for_slot_def)
    have "(n - Suc i) mod 81 < 81" by simp
    then show "n < newest_for_slot n i + 81" unfolding newest_for_slot_def by linarith
    show "0 < newest_for_slot n i" by (simp add: b)
    show "(newest_for_slot n i - 1) mod 81 = i" using i by (simp add: b)
  qed
  then show ?thesis unfolding run_blocks_spec [OF assms] by auto
qed

theorem random_material_ring_buffer_witness:
  "\<exists>values. run_blocks id 100 = Done values \<and> length values = 81 \<and>
    (\<exists>b. values ! 18 = b \<and> b \<le> 100 \<and> 100 < b + 81 \<and> (b - 1) mod 81 = 18)"
  using random_material_ring_buffer [of 100 id] by fastforce

end
