(* ===== verification/Rust_Str.thy ===== *)
theory Rust_Str
  imports Prelude
begin

text \<open>
  What the sources use of Rust's \<open>str\<close>: UTF-8 validation with the text of its error, removal of every
  occurrence of a pattern (\<open>str::replace\<close> with an empty replacement), splitting at a byte, and prefix
  tests.  A \<open>str\<close> is modelled by its bytes.
\<close>

section \<open>UTF-8\<close>

text \<open>The width of a character from its first byte, as in \<open>core::str::validations\<close>; 0 for a byte that starts
  none.\<close>

definition utf8_char_width :: "byte \<Rightarrow> nat" where
  "utf8_char_width b =
     (if b < 0x80 then 1 else if 0xC2 \<le> b \<and> b \<le> 0xDF then 2 else if 0xE0 \<le> b \<and> b \<le> 0xEF then 3
      else if 0xF0 \<le> b \<and> b \<le> 0xF4 then 4 else 0)"

definition is_continuation :: "byte \<Rightarrow> bool" where
  "is_continuation b \<longleftrightarrow> 0x80 \<le> b \<and> b \<le> 0xBF"

text \<open>Which second bytes may follow a first byte of a character of width 3 or 4.\<close>

definition second3_ok :: "byte \<Rightarrow> byte \<Rightarrow> bool" where
  "second3_ok b c \<longleftrightarrow>
     (if b = 0xE0 then 0xA0 \<le> c \<and> c \<le> 0xBF else if b = 0xED then 0x80 \<le> c \<and> c \<le> 0x9F else is_continuation c)"

definition second4_ok :: "byte \<Rightarrow> byte \<Rightarrow> bool" where
  "second4_ok b c \<longleftrightarrow>
     (if b = 0xF0 then 0x90 \<le> c \<and> c \<le> 0xBF else if b = 0xF4 then 0x80 \<le> c \<and> c \<le> 0x8F else is_continuation c)"

text \<open>The first character: \<open>Ok n\<close> is its width, \<open>Err\<close> carries \<open>error_len\<close>.\<close>

definition first_char :: "byte \<Rightarrow> bytes \<Rightarrow> (nat, nat option) result" where
  "first_char b bs =
     (if utf8_char_width b = 1 then Ok 1
      else if utf8_char_width b = 2 then
        (case bs of [] \<Rightarrow> Err None | c # _ \<Rightarrow> if is_continuation c then Ok 2 else Err (Some 1))
      else if utf8_char_width b = 3 then
        (case bs of [] \<Rightarrow> Err None | c # cs \<Rightarrow>
           if \<not> second3_ok b c then Err (Some 1)
           else (case cs of [] \<Rightarrow> Err None | d # _ \<Rightarrow> if is_continuation d then Ok 3 else Err (Some 2)))
      else if utf8_char_width b = 4 then
        (case bs of [] \<Rightarrow> Err None | c # cs \<Rightarrow>
           if \<not> second4_ok b c then Err (Some 1)
           else (case cs of [] \<Rightarrow> Err None | d # ds \<Rightarrow>
             if \<not> is_continuation d then Err (Some 2)
             else (case ds of [] \<Rightarrow> Err None | e # _ \<Rightarrow> if is_continuation e then Ok 4 else Err (Some 3))))
      else Err (Some 1))"

lemma first_char_pos: "first_char b bs = Ok n \<Longrightarrow> 0 < n"
  by (auto simp: first_char_def split: if_splits list.splits)

text \<open>\<open>run_utf8_validation\<close> from offset \<open>i\<close>: the offset and length of the first error.\<close>

function utf8_error :: "nat \<Rightarrow> bytes \<Rightarrow> (nat \<times> nat option) option" where
  "utf8_error i [] = None"
| "utf8_error i (b # bs) =
     (case first_char b bs of
        Ok n \<Rightarrow> utf8_error (i + n) (drop n (b # bs))
      | Err len \<Rightarrow> Some (i, len))"
  by pat_completeness auto
termination
  by (relation "measure (\<lambda>(_, bs). length bs)") (auto dest: first_char_pos)

definition utf8_valid :: "bytes \<Rightarrow> bool" where
  "utf8_valid bs \<longleftrightarrow> utf8_error 0 bs = None"

fun decimal :: "nat \<Rightarrow> string" where
  "decimal n = (if n < 10 then [char_of (48 + n)] else decimal (n div 10) @ [char_of (48 + n mod 10)])"

declare decimal.simps [simp del]

text \<open>\<open>Display for Utf8Error\<close>.\<close>

definition utf8_error_text :: "nat \<times> nat option \<Rightarrow> bytes" where
  "utf8_error_text e =
     (case snd e of
        Some len \<Rightarrow> str_bytes (''invalid utf-8 sequence of '' @ decimal len @ '' bytes from index '' @ decimal (fst e))
      | None \<Rightarrow> str_bytes (''incomplete utf-8 byte sequence from index '' @ decimal (fst e)))"

definition from_utf8 :: "bytes \<Rightarrow> (bytes, bytes) result" where
  "from_utf8 bs = (case utf8_error 0 bs of None \<Rightarrow> Ok bs | Some e \<Rightarrow> Err (utf8_error_text e))"

lemma from_utf8_Ok_iff: "from_utf8 bs = Ok s \<longleftrightarrow> utf8_valid bs \<and> s = bs"
  by (auto simp: from_utf8_def utf8_valid_def split: option.splits)

lemma utf8_error_offset: "utf8_error i bs = None \<longleftrightarrow> utf8_error j bs = None"
proof (induction i bs arbitrary: j rule: utf8_error.induct)
  case (2 i b bs)
  show ?case
  proof (cases "first_char b bs")
    case (Ok n)
    with 2 [OF Ok, of "j + n"] show ?thesis by simp
  qed simp
qed simp

lemma utf8_valid_Nil [simp]: "utf8_valid []"
  by (simp add: utf8_valid_def)

lemma utf8_valid_Cons:
  "utf8_valid (b # bs) \<longleftrightarrow> (\<exists>n. first_char b bs = Ok n \<and> utf8_valid (drop n (b # bs)))"
  unfolding utf8_valid_def
proof (cases "first_char b bs")
  case (Ok n)
  with utf8_error_offset [of n "drop n (b # bs)" 0]
  show "(utf8_error 0 (b # bs) = None) = (\<exists>n. first_char b bs = Ok n \<and> utf8_error 0 (drop n (b # bs)) = None)" by simp
qed simp

lemma first_char_append: "first_char b bs = Ok n \<Longrightarrow> first_char b (bs @ cs) = Ok n \<and> n \<le> Suc (length bs)"
  by (auto simp: first_char_def split: if_splits list.splits)

lemma utf8_valid_append: "utf8_valid bs \<Longrightarrow> utf8_valid cs \<Longrightarrow> utf8_valid (bs @ cs)"
proof (induction "length bs" arbitrary: bs rule: less_induct)
  case less
  show ?case
  proof (cases bs)
    case Nil
    then show ?thesis using less.prems by simp
  next
    case (Cons b bs')
    with less.prems(1) obtain n where n: "first_char b bs' = Ok n" "utf8_valid (drop n bs)"
      by (auto simp: utf8_valid_Cons)
    from n(1) have n': "first_char b (bs' @ cs) = Ok n" "n \<le> length bs" "0 < n"
      by (auto simp: first_char_append Cons dest: first_char_pos)
    then have "length (drop n bs) < length bs" using Cons by simp
    from less.hyps [OF this n(2) less.prems(2)] n'(2) have "utf8_valid (drop n (bs @ cs))" by simp
    with n'(1) Cons show ?thesis by (simp add: utf8_valid_Cons)
  qed
qed

lemma utf8_valid_ascii: "\<forall>b\<in>set bs. b < 0x80 \<Longrightarrow> utf8_valid bs"
  by (induction bs) (auto simp: utf8_valid_Cons first_char_def utf8_char_width_def)

section \<open>Searching and splitting\<close>

text \<open>\<open>str::replace\<close> with an empty replacement: every non-overlapping occurrence is removed.\<close>

function remove_all :: "bytes \<Rightarrow> bytes \<Rightarrow> bytes" where
  "remove_all pat [] = []"
| "remove_all pat (b # bs) =
     (if pat \<noteq> [] \<and> take (length pat) (b # bs) = pat then remove_all pat (drop (length pat) (b # bs))
      else b # remove_all pat bs)"
  by pat_completeness auto
termination
  by (relation "measure (\<lambda>(_, bs). length bs)") auto

text \<open>\<open>str::split\<close> at a separator byte: always at least one piece.\<close>

primrec split_at :: "byte \<Rightarrow> bytes \<Rightarrow> bytes list" where
  "split_at sep [] = [[]]"
| "split_at sep (b # bs) =
     (if b = sep then [] # split_at sep bs
      else (case split_at sep bs of [] \<Rightarrow> [[b]] | p # ps \<Rightarrow> (b # p) # ps))"

text \<open>\<open>[T]::join\<close>.\<close>

fun join :: "bytes \<Rightarrow> bytes list \<Rightarrow> bytes" where
  "join sep [] = []"
| "join sep [p] = p"
| "join sep (p # q # ps) = p @ sep @ join sep (q # ps)"

lemma split_at_ne [simp]: "split_at sep bs \<noteq> []"
  by (induction bs) (auto split: list.split)

lemma split_at_append_sep: "sep \<notin> set p \<Longrightarrow> split_at sep (p @ sep # bs) = p # split_at sep bs"
  by (induction p) auto

lemma split_at_no_sep: "sep \<notin> set p \<Longrightarrow> split_at sep p = [p]"
  by (induction p) auto

lemma split_at_join:
  "ps \<noteq> [] \<Longrightarrow> \<forall>p\<in>set ps. sep \<notin> set p \<Longrightarrow> split_at sep (join [sep] ps) = ps"
proof (induction ps)
  case (Cons p ps)
  then show ?case by (cases ps) (auto simp: split_at_no_sep split_at_append_sep)
qed simp

lemma join_split_at: "join [sep] (split_at sep bs) = bs"
proof (induction bs)
  case (Cons b bs)
  obtain q qs where q: "split_at sep bs = q # qs" by (cases "split_at sep bs") auto
  with Cons show ?case by (cases qs) auto
qed simp

lemma split_at_pieces: "p \<in> set (split_at sep bs) \<Longrightarrow> sep \<notin> set p"
  by (induction bs arbitrary: p) (auto split: list.splits if_splits)

lemma join_append: "ps \<noteq> [] \<Longrightarrow> join sep (ps @ [q]) = join sep ps @ sep @ q"
  by (induction sep ps rule: join.induct) auto

lemma utf8_valid_join: "utf8_valid sep \<Longrightarrow> \<forall>p\<in>set ps. utf8_valid p \<Longrightarrow> utf8_valid (join sep ps)"
  by (induction sep ps rule: join.induct) (auto intro: utf8_valid_append)

end
