(* ===== verification/Ipfs_Api.thy ===== *)
theory Ipfs_Api
  imports Offchain_Types Rust_Str
begin

text \<open>
  The IPFS API of off-chain workers, \<open>client/offchain/src/api/ipfs.rs\<close>: the API half, which hands
  out request ids and waits for answers, and the worker half, which drives the futures of the
  embedded node.  The two exchange messages over unbounded channels.  The
  methods of the node, and the text forms of its identifiers, are parameters (a record of
  functions); a future is modelled by the request it runs, and a poll is told which futures are ready.
\<close>

section \<open>The node\<close>

datatype cid_version = V0 | V1

definition cid_version_from_raw :: "byte \<Rightarrow> cid_version" where
  "cid_version_from_raw raw_version = (if raw_version \<le> 0 then V0 else V1)"

datatype unixfs_status = ProgressStatus | FailedStatus | CompletedStatus bytes

record 'x node_bitswap_stats =
  nb_blocks_sent :: u64
  nb_data_sent :: u64
  nb_blocks_received :: u64
  nb_data_received :: u64
  nb_dup_blks_received :: u64
  nb_dup_data_received :: u64
  nb_peers :: "'x list"
  nb_wantlist :: "('x \<times> 32 word) list"

text \<open>Values of the node's own types (peer ids, addresses, CIDs, blocks, keys, connections,
  subscriptions) are of the type \<open>'x\<close>; an error of the node is the text it displays.\<close>

datatype 'x ipfs_native_response =
    Nt_Addrs "('x \<times> 'x list) list"
  | Nt_AddBytes 'x
  | Nt_AddListeningAddr 'x
  | Nt_BitswapStats "'x node_bitswap_stats"
  | Nt_CatBytes bytes
  | Nt_Connect
  | Nt_Disconnect
  | Nt_FindPeer "'x list"
  | Nt_GetBlock 'x
  | Nt_GetClosestPeers "'x list"
  | Nt_GetProviders "'x list"
  | Nt_Identity 'x "'x list"
  | Nt_InsertPin
  | Nt_LocalAddrs "'x list"
  | Nt_LocalRefs "'x list"
  | Nt_Peers "'x list"
  | Nt_Publish
  | Nt_RemoveListeningAddr
  | Nt_RemoveBlock
  | Nt_RemovePin
  | Nt_Subscribe 'x
  | Nt_SubscriptionList "bytes list"
  | Nt_Unsubscribe bool
  | Nt_Success

record 'x text_forms =
  peer_to_bytes :: "'x \<Rightarrow> bytes"
  peer_to_string :: "'x \<Rightarrow> bytes"
  addr_to_string :: "'x \<Rightarrow> bytes"
  cid_to_string :: "'x \<Rightarrow> bytes"
  cid_to_bytes :: "'x \<Rightarrow> bytes"
  key_to_peer_bytes :: "'x \<Rightarrow> bytes"
  conn_addr_string :: "'x \<Rightarrow> bytes"

record 'x ipfs_node =
  parse_addr :: "bytes \<Rightarrow> ('x, bytes) result"
  parse_addr_with_peer :: "bytes \<Rightarrow> ('x, bytes) result"
  peer_of_addr :: "'x \<Rightarrow> 'x"
  parse_path :: "bytes \<Rightarrow> ('x, bytes) result"
  parse_peer :: "bytes \<Rightarrow> ('x, bytes) result"
  parse_cid :: "bytes \<Rightarrow> ('x, bytes) result"
  cid_of_bytes :: "bytes \<Rightarrow> ('x, bytes) result"
  nd_addrs :: "(('x \<times> 'x list) list, bytes) result"
  nd_add_unixfs :: "cid_version \<Rightarrow> bytes \<Rightarrow> (unixfs_status list, bytes) result"
  nd_add_listening_address :: "'x \<Rightarrow> ('x, bytes) result"
  nd_bitswap_stats :: "('x node_bitswap_stats, bytes) result"
  nd_cat_unixfs :: "'x \<Rightarrow> ((bytes, bytes) result list, bytes) result"
  path_to_string :: "'x \<Rightarrow> bytes"
  nd_connect :: "'x \<Rightarrow> (unit, bytes) result"
  nd_disconnect :: "'x \<Rightarrow> (unit, bytes) result"
  nd_find_peer :: "'x \<Rightarrow> ('x list, bytes) result"
  nd_get_block :: "'x \<Rightarrow> ('x, bytes) result"
  nd_get_closest_peers :: "'x \<Rightarrow> ('x list, bytes) result"
  nd_get_providers :: "'x \<Rightarrow> ('x list, bytes) result"
  nd_identity :: "('x \<times> 'x list, bytes) result"
  nd_insert_pin :: "'x \<Rightarrow> bool \<Rightarrow> (unit, bytes) result"
  nd_addrs_local :: "('x list, bytes) result"
  nd_refs_local :: "('x list, bytes) result"
  nd_peers :: "('x list, bytes) result"
  nd_pubsub_publish :: "bytes \<Rightarrow> bytes \<Rightarrow> (unit, bytes) result"
  nd_remove_listening_address :: "'x \<Rightarrow> (unit, bytes) result"
  nd_remove_pin :: "'x \<Rightarrow> bool \<Rightarrow> (unit, bytes) result"
  nd_pubsub_subscribe :: "bytes \<Rightarrow> ('x, bytes) result"
  nd_pubsub_subscribed :: "(bytes list, bytes) result"
  nd_pubsub_unsubscribe :: "bytes \<Rightarrow> (bool, bytes) result"

text \<open>The \<open>?\<close> operator.\<close>

primrec try_bind :: "('a, 'e) result \<Rightarrow> ('a \<Rightarrow> ('b, 'e) result) \<Rightarrow> ('b, 'e) result" where
  "try_bind (Ok x) f = f x"
| "try_bind (Err e) f = Err e"

definition add_status ::
  "'x ipfs_node \<Rightarrow> unixfs_status \<Rightarrow> ('x, bytes) result \<Rightarrow> ('x, bytes) result" where
  "add_status node status result =
     (case status of
        ProgressStatus \<Rightarrow> result
      | FailedStatus \<Rightarrow> Err (str_bytes ''Error adding file'')
      | CompletedStatus path \<Rightarrow>
          (case parse_cid node (remove_all (str_bytes ''/ipfs/'') path) of
             Ok cid \<Rightarrow> Ok cid
           | Err _ \<Rightarrow> Err (str_bytes ''Unable to upload file'')))"

definition ipfs_add :: "'x ipfs_node \<Rightarrow> bytes \<Rightarrow> byte \<Rightarrow> ('x, bytes) result" where
  "ipfs_add node data version =
     try_bind (nd_add_unixfs node (cid_version_from_raw version) data) (\<lambda>stream.
     fold (add_status node) stream (Err (str_bytes ''Unknown error'')))"

primrec collect_chunks :: "bytes \<Rightarrow> (bytes, bytes) result list \<Rightarrow> bytes \<Rightarrow> (bytes, bytes) result" where
  "collect_chunks err [] data = Ok data"
| "collect_chunks err (c # cs) data =
     (case c of Ok bs \<Rightarrow> collect_chunks err cs (data @ bs) | Err _ \<Rightarrow> Err err)"

definition ipfs_get :: "'x ipfs_node \<Rightarrow> 'x \<Rightarrow> (bytes, bytes) result" where
  "ipfs_get node path =
     (case nd_cat_unixfs node path of
        Ok stream \<Rightarrow> collect_chunks (str_bytes ''Unable to cat file: '' @ path_to_string node path) stream []
      | Err _ \<Rightarrow> Err (str_bytes ''Unable to upload file''))"

fun run_ipfs_request :: "'x ipfs_node \<Rightarrow> ipfs_request \<Rightarrow> ('x ipfs_native_response, bytes) result" where
  "run_ipfs_request nd Rq_Addrs = try_bind (nd_addrs nd) (\<lambda>r. Ok (Nt_Addrs r))"
| "run_ipfs_request nd (Rq_AddBytes data version) = try_bind (ipfs_add nd data version) (\<lambda>c. Ok (Nt_AddBytes c))"
| "run_ipfs_request nd (Rq_AddListeningAddr addr) =
     try_bind (from_utf8 addr) (\<lambda>s. try_bind (parse_addr nd s) (\<lambda>a.
     try_bind (nd_add_listening_address nd a) (\<lambda>r. Ok (Nt_AddListeningAddr r))))"
| "run_ipfs_request nd Rq_BitswapStats = try_bind (nd_bitswap_stats nd) (\<lambda>r. Ok (Nt_BitswapStats r))"
| "run_ipfs_request nd (Rq_CatBytes cid) =
     try_bind (from_utf8 cid) (\<lambda>s. try_bind (parse_path nd s) (\<lambda>p.
     try_bind (ipfs_get nd p) (\<lambda>d. Ok (Nt_CatBytes d))))"
| "run_ipfs_request nd (Rq_Connect addr) =
     try_bind (from_utf8 addr) (\<lambda>s. try_bind (parse_addr_with_peer nd s) (\<lambda>a.
     try_bind (nd_connect nd a) (\<lambda>_. Ok Nt_Connect)))"
| "run_ipfs_request nd (Rq_Disconnect addr) =
     try_bind (from_utf8 addr) (\<lambda>s. try_bind (parse_addr_with_peer nd s) (\<lambda>a.
     try_bind (nd_disconnect nd (peer_of_addr nd a)) (\<lambda>_. Ok Nt_Disconnect)))"
| "run_ipfs_request nd (Rq_FindPeer peer_id) =
     try_bind (from_utf8 peer_id) (\<lambda>s. try_bind (parse_peer nd s) (\<lambda>p.
     try_bind (nd_find_peer nd p) (\<lambda>r. Ok (Nt_FindPeer r))))"
| "run_ipfs_request nd (Rq_GetBlock cid) =
     try_bind (cid_of_bytes nd cid) (\<lambda>c. try_bind (nd_get_block nd c) (\<lambda>r. Ok (Nt_GetBlock r)))"
| "run_ipfs_request nd (Rq_GetClosestPeers peer_id) =
     try_bind (from_utf8 peer_id) (\<lambda>s. try_bind (parse_peer nd s) (\<lambda>p.
     try_bind (nd_get_closest_peers nd p) (\<lambda>r. Ok (Nt_GetClosestPeers r))))"
| "run_ipfs_request nd (Rq_GetProviders cid) =
     try_bind (from_utf8 cid) (\<lambda>s. try_bind (parse_cid nd s) (\<lambda>c.
     try_bind (nd_get_providers nd c) (\<lambda>r. Ok (Nt_GetProviders r))))"
| "run_ipfs_request nd Rq_Identity =
     try_bind (nd_identity nd) (\<lambda>r. Ok (Nt_Identity (fst r) (snd r)))"
| "run_ipfs_request nd (Rq_InsertPin cid recursive) =
     try_bind (from_utf8 cid) (\<lambda>s. try_bind (parse_cid nd s) (\<lambda>c.
     try_bind (nd_insert_pin nd c recursive) (\<lambda>_. Ok Nt_InsertPin)))"
| "run_ipfs_request nd Rq_LocalAddrs = try_bind (nd_addrs_local nd) (\<lambda>r. Ok (Nt_LocalAddrs r))"
| "run_ipfs_request nd Rq_LocalRefs = try_bind (nd_refs_local nd) (\<lambda>r. Ok (Nt_LocalRefs r))"
| "run_ipfs_request nd Rq_Peers = try_bind (nd_peers nd) (\<lambda>r. Ok (Nt_Peers r))"
| "run_ipfs_request nd (Rq_Publish topic message) =
     try_bind (from_utf8 topic) (\<lambda>t. try_bind (nd_pubsub_publish nd t message) (\<lambda>_. Ok Nt_Publish))"
| "run_ipfs_request nd (Rq_RemoveListeningAddr addr) =
     try_bind (from_utf8 addr) (\<lambda>s. try_bind (parse_addr nd s) (\<lambda>a.
     try_bind (nd_remove_listening_address nd a) (\<lambda>_. Ok Nt_RemoveListeningAddr)))"
| "run_ipfs_request nd Rq_RemoveBlock = Ok Nt_RemoveBlock"
| "run_ipfs_request nd (Rq_RemovePin cid recursive) =
     try_bind (from_utf8 cid) (\<lambda>s. try_bind (parse_cid nd s) (\<lambda>c.
     try_bind (nd_remove_pin nd c recursive) (\<lambda>_. Ok Nt_RemovePin)))"
| "run_ipfs_request nd (Rq_Subscribe topic) =
     try_bind (from_utf8 topic) (\<lambda>t. try_bind (nd_pubsub_subscribe nd t) (\<lambda>r. Ok (Nt_Subscribe r)))"
| "run_ipfs_request nd Rq_SubscriptionList = try_bind (nd_pubsub_subscribed nd) (\<lambda>r. Ok (Nt_SubscriptionList r))"
| "run_ipfs_request nd (Rq_Unsubscribe topic) =
     try_bind (from_utf8 topic) (\<lambda>t. try_bind (nd_pubsub_unsubscribe nd t) (\<lambda>r. Ok (Nt_Unsubscribe r)))"

fun to_response :: "'x text_forms \<Rightarrow> 'x ipfs_native_response \<Rightarrow> ipfs_response" where
  "to_response tf (Nt_Addrs resp) =
     Rs_Addrs (map (\<lambda>(peer, addrs). (peer_to_bytes tf peer, map (addr_to_string tf) addrs)) resp)"
| "to_response tf (Nt_AddBytes cid) = Rs_AddBytes (cid_to_string tf cid)"
| "to_response tf (Nt_BitswapStats s) = Rs_BitswapStats \<lparr>
     blocks_sent = nb_blocks_sent s, data_sent = nb_data_sent s,
     blocks_received = nb_blocks_received s, data_received = nb_data_received s,
     dup_blks_received = nb_dup_blks_received s, dup_data_received = nb_dup_data_received s,
     stat_peers = map (peer_to_bytes tf) (nb_peers s),
     stat_wantlist = map (\<lambda>(cid, prio). (cid_to_bytes tf cid, prio)) (nb_wantlist s)\<rparr>"
| "to_response tf (Nt_CatBytes data) = Rs_CatBytes data"
| "to_response tf (Nt_GetClosestPeers ids) = Rs_GetClosestPeers (map (peer_to_string tf) ids)"
| "to_response tf (Nt_GetProviders ids) = Rs_GetProviders (map (peer_to_string tf) ids)"
| "to_response tf (Nt_FindPeer addrs) = Rs_FindPeer (map (addr_to_string tf) addrs)"
| "to_response tf (Nt_Identity pk addrs) =
     Rs_Identity (key_to_peer_bytes tf pk) (map (addr_to_string tf) addrs)"
| "to_response tf (Nt_LocalAddrs addrs) = Rs_LocalAddrs (map (addr_to_string tf) addrs)"
| "to_response tf (Nt_LocalRefs cids) = Rs_LocalRefs (map (cid_to_bytes tf) cids)"
| "to_response tf (Nt_Peers conns) = Rs_Peers (map (conn_addr_string tf) conns)"
| "to_response tf Nt_RemoveBlock = Rs_RemoveBlock []"
| "to_response tf _ = Rs_Success"

section \<open>The API half\<close>

datatype 'x ipfs_api_request = Dispatched | Response "'x ipfs_native_response" | Fail bytes

datatype 'x worker_to_api =
    W_Response ipfs_request_id "'x ipfs_native_response"
  | W_Fail ipfs_request_id bytes

text \<open>The sending half of the channel is the list of messages sent and not yet received.\<close>

record 'x ipfs_api =
  next_id :: ipfs_request_id
  api_requests :: "ipfs_request_id \<Rightarrow> 'x ipfs_api_request option"
  to_worker :: "(ipfs_request_id \<times> ipfs_request) list"

definition new_api :: "u16 \<Rightarrow> 'x ipfs_api" where
  "new_api random = \<lparr>next_id = random mod 2000, api_requests = Map.empty, to_worker = []\<rparr>"

definition request_start ::
  "ipfs_request \<Rightarrow> 'x ipfs_api \<Rightarrow> 'x ipfs_api \<times> (ipfs_request_id, unit) result" where
  "request_start request api =
     (case checked_add (next_id api) 1 of
        None \<Rightarrow> (api, Err ())
      | Some nid \<Rightarrow>
          (api\<lparr>next_id := nid, to_worker := to_worker api @ [(next_id api, request)],
               api_requests := (api_requests api)(next_id api \<mapsto> Dispatched)\<rparr>, Ok (next_id api)))"

text \<open>One pass over the ids: the statuses, the requests with the taken responses replaced by the
  placeholder, and whether some request is still running.\<close>

definition scan_one ::
  "'x text_forms \<Rightarrow> ipfs_request_id \<Rightarrow> ipfs_request_status \<Rightarrow> (ipfs_request_id \<Rightarrow> 'x ipfs_api_request option) \<Rightarrow>
   ipfs_request_status \<times> (ipfs_request_id \<Rightarrow> 'x ipfs_api_request option) \<times> bool" where
  "scan_one tf i out reqs =
     (case reqs i of
        None \<Rightarrow> (St_Invalid, reqs, False)
      | Some Dispatched \<Rightarrow> (out, reqs, True)
      | Some (Fail e) \<Rightarrow> (St_IoError e, reqs, False)
      | Some (Response Nt_Success) \<Rightarrow> (out, reqs, False)
      | Some (Response resp) \<Rightarrow> (St_Finished (to_response tf resp), reqs(i \<mapsto> Response Nt_Success), False))"

fun scan ::
  "'x text_forms \<Rightarrow> ipfs_request_id list \<Rightarrow> ipfs_request_status list \<Rightarrow>
   (ipfs_request_id \<Rightarrow> 'x ipfs_api_request option) \<Rightarrow>
   ipfs_request_status list \<times> (ipfs_request_id \<Rightarrow> 'x ipfs_api_request option) \<times> bool" where
  "scan tf (i # ids) (out # outs) reqs =
     (let (out, reqs, wait1) = scan_one tf i out reqs;
          (outs, reqs, wait2) = scan tf ids outs reqs
      in (out # outs, reqs, wait1 \<or> wait2))"
| "scan tf _ _ reqs = ([], reqs, False)"

primrec is_io_error :: "ipfs_request_status \<Rightarrow> bool" where
  "is_io_error St_DeadlineReached = False"
| "is_io_error (St_IoError _) = True"
| "is_io_error St_Invalid = False"
| "is_io_error (St_Finished _) = False"

definition purge ::
  "ipfs_request_id list \<Rightarrow> ipfs_request_status list \<Rightarrow> (ipfs_request_id \<Rightarrow> 'x ipfs_api_request option) \<Rightarrow>
   ipfs_request_id \<Rightarrow> 'x ipfs_api_request option" where
  "purge ids outs reqs =
     fold (\<lambda>(i, out) reqs. if is_io_error out then reqs(i := None) else reqs) (rev (zip ids outs)) reqs"

definition handle_message ::
  "'x worker_to_api \<Rightarrow> (ipfs_request_id \<Rightarrow> 'x ipfs_api_request option) \<Rightarrow> ipfs_request_id \<Rightarrow> 'x ipfs_api_request option" where
  "handle_message msg reqs =
     (case msg of
        W_Response i v \<Rightarrow>
          (case reqs i of Some Dispatched \<Rightarrow> reqs(i \<mapsto> Response v) | _ \<Rightarrow> reqs(i := None))
      | W_Fail i e \<Rightarrow>
          (case reqs i of Some Dispatched \<Rightarrow> reqs(i \<mapsto> Fail e) | _ \<Rightarrow> reqs(i := None)))"

text \<open>
  What \<open>block_on(select(next_msg, deadline))\<close> can return with: a message, the end of the channel, or
  the deadline.  A wait is given the events it sees; when they run out the caller
  is still blocked, which is \<open>None\<close>.
\<close>

datatype 'x wait_event = Got "'x worker_to_api" | Closed | Deadline

definition crash_text :: bytes where
  "crash_text = str_bytes ''The IPFS worker has crashed!''"

fun wait_loop ::
  "'x text_forms \<Rightarrow> ipfs_request_id list \<Rightarrow> bool \<Rightarrow> ipfs_request_status list \<Rightarrow> 'x ipfs_api \<Rightarrow> 'x wait_event list \<Rightarrow>
   ('x ipfs_api \<times> ipfs_request_status list \<times> 'x wait_event list) option" where
  "wait_loop tf ids done outs api events =
     (let (outs, reqs, must_wait_more) = scan tf ids outs (api_requests api) in
      if done \<or> \<not> must_wait_more
      then Some (api\<lparr>api_requests := purge ids outs reqs\<rparr>, outs, events)
      else
        (case events of
           [] \<Rightarrow> None
         | Deadline # es \<Rightarrow> wait_loop tf ids True outs (api\<lparr>api_requests := reqs\<rparr>) es
         | Got msg # es \<Rightarrow> wait_loop tf ids done outs (api\<lparr>api_requests := handle_message msg reqs\<rparr>) es
         | Closed # es \<Rightarrow> Some (api\<lparr>api_requests := reqs\<rparr>, map (\<lambda>_. St_IoError crash_text) ids, es)))"

declare wait_loop.simps [simp del]

definition response_wait ::
  "'x text_forms \<Rightarrow> ipfs_request_id list \<Rightarrow> 'x ipfs_api \<Rightarrow> 'x wait_event list \<Rightarrow>
   ('x ipfs_api \<times> ipfs_request_status list \<times> 'x wait_event list) option" where
  "response_wait tf ids api events = wait_loop tf ids False (map (\<lambda>_. St_DeadlineReached) ids) api events"

section \<open>The worker half\<close>

record 'x ipfs_worker =
  w_requests :: "(ipfs_request_id \<times> ipfs_request) list"
  to_api :: "'x worker_to_api list"

text \<open>One round of the loop in \<open>poll\<close>, at index \<open>n\<close>; \<open>ready\<close> says which futures complete when polled.\<close>

definition poll_one ::
  "'x ipfs_node \<Rightarrow> (ipfs_request_id \<Rightarrow> bool) \<Rightarrow> nat \<Rightarrow> 'x ipfs_worker \<Rightarrow> 'x ipfs_worker exec" where
  "poll_one nd ready n me =
     bind_exec (swap_remove n (w_requests me)) (\<lambda>((i, request), rest).
     if \<not> ready i then Done (me\<lparr>w_requests := rest @ [(i, request)]\<rparr>)
     else Done (me\<lparr>w_requests := rest, to_api := to_api me @
       [case run_ipfs_request nd request of Ok v \<Rightarrow> W_Response i v | Err e \<Rightarrow> W_Fail i e]\<rparr>))"

text \<open>\<open>for n in (0..len).rev()\<close>.\<close>

primrec poll_requests ::
  "'x ipfs_node \<Rightarrow> (ipfs_request_id \<Rightarrow> bool) \<Rightarrow> nat \<Rightarrow> 'x ipfs_worker \<Rightarrow> 'x ipfs_worker exec" where
  "poll_requests nd ready 0 me = Done me"
| "poll_requests nd ready (Suc n) me = bind_exec (poll_one nd ready n me) (poll_requests nd ready n)"

datatype poll_result = Pending | Ready

text \<open>\<open>inbox\<close> is the receiving half of the channel from the API, \<open>open\<close> whether its sender still lives.\<close>

definition poll ::
  "'x ipfs_node \<Rightarrow> (ipfs_request_id \<Rightarrow> bool) \<Rightarrow> bool \<Rightarrow> (ipfs_request_id \<times> ipfs_request) list \<Rightarrow> 'x ipfs_worker \<Rightarrow>
   ((ipfs_request_id \<times> ipfs_request) list \<times> 'x ipfs_worker \<times> poll_result) exec" where
  "poll nd ready is_open inbox me =
     bind_exec (poll_requests nd ready (length (w_requests me)) me) (\<lambda>me.
     Done (case inbox of
         [] \<Rightarrow> (inbox, me, if is_open then Pending else Ready)
       | m # rest \<Rightarrow> (rest, me\<lparr>w_requests := w_requests me @ [m]\<rparr>, Pending)))"


section \<open>The host functions and \<open>PendingRequest\<close>\<close>

text \<open>
  The host functions of the runtime (\<open>sp_io::offchain\<close>) as a record over a world \<open>'w\<close>.  A wait with a
  deadline always comes back; one without a deadline may block forever (\<open>None\<close>).
\<close>

record 'w ipfs_host =
  h_start :: "ipfs_request \<Rightarrow> 'w \<Rightarrow> 'w \<times> (ipfs_request_id, unit) result"
  h_wait_until :: "ipfs_request_id list \<Rightarrow> timestamp \<Rightarrow> 'w \<Rightarrow> 'w \<times> ipfs_request_status list"
  h_wait :: "ipfs_request_id list \<Rightarrow> 'w \<Rightarrow> ('w \<times> ipfs_request_status list) option"

record pending_request =
  pr_id :: ipfs_request_id
  pr_request :: ipfs_request

datatype ipfs_error = Er_DeadlineReached | Er_IoError | Er_Invalid

definition pending_new ::
  "'w ipfs_host \<Rightarrow> ipfs_request \<Rightarrow> 'w \<Rightarrow> 'w \<times> (pending_request, ipfs_error) result" where
  "pending_new h request w =
     (case h_start h request w of
        (w, Ok i) \<Rightarrow> (w, Ok \<lparr>pr_id = i, pr_request = request\<rparr>)
      | (w, Err _) \<Rightarrow> (w, Err Er_IoError))"

datatype wait_error = We_DeadlineReached | We_IoError bytes | We_Unknown

record ipfs_answer =
  ra_id :: ipfs_request_id
  ra_response :: ipfs_response

definition status_result ::
  "ipfs_request_status \<Rightarrow> pending_request \<Rightarrow> ((ipfs_answer, wait_error) result, pending_request) result" where
  "status_result status req =
     (case status of
        St_DeadlineReached \<Rightarrow> Err req
      | St_IoError e \<Rightarrow> Ok (Err (We_IoError e))
      | St_Invalid \<Rightarrow> Ok (Err We_Unknown)
      | St_Finished resp \<Rightarrow> Ok (Ok \<lparr>ra_id = pr_id req, ra_response = resp\<rparr>))"

definition try_wait_all ::
  "'w ipfs_host \<Rightarrow> pending_request list \<Rightarrow> timestamp \<Rightarrow> 'w \<Rightarrow>
   'w \<times> ((ipfs_answer, wait_error) result, pending_request) result list" where
  "try_wait_all h requests deadline w =
     (let (w, statuses) = h_wait_until h (map pr_id requests) deadline w
      in (w, map2 status_result statuses requests))"

text \<open>\<open>.pop().expect(..)\<close>.\<close>

definition try_wait ::
  "'w ipfs_host \<Rightarrow> pending_request \<Rightarrow> timestamp \<Rightarrow> 'w \<Rightarrow>
   ('w \<times> ((ipfs_answer, wait_error) result, pending_request) result) exec" where
  "try_wait h request deadline w =
     (let (w, rs) = try_wait_all h [request] deadline w
      in if rs = [] then Panic else Done (w, last rs))"

definition wait_all ::
  "'w ipfs_host \<Rightarrow> pending_request list \<Rightarrow> 'w \<Rightarrow> ('w \<times> (ipfs_answer, wait_error) result list) exec option" where
  "wait_all h requests w =
     map_option (\<lambda>(w, statuses).
       (let rs = map2 status_result statuses requests
        in if list_all is_ok rs then Done (w, map (\<lambda>r. case r of Ok x \<Rightarrow> x) rs) else Panic))
     (h_wait h (map pr_id requests) w)"

text \<open>
  The off-chain API over this module: \<open>ipfs\<close> is absent when the node runs without IPFS.  The world
  carries, for each wait to come, the events that wait will see.
\<close>

record 'x api_world =
  w_ipfs :: "'x ipfs_api option"
  w_events :: "'x wait_event list list"

definition ipfs_request_start ::
  "ipfs_request \<Rightarrow> 'x api_world \<Rightarrow> 'x api_world \<times> (ipfs_request_id, unit) result" where
  "ipfs_request_start request w =
     (case w_ipfs w of
        None \<Rightarrow> (w, Err ())
      | Some api \<Rightarrow> (let (api, r) = request_start request api in (w\<lparr>w_ipfs := Some api\<rparr>, r)))"

definition next_events :: "'x api_world \<Rightarrow> 'x wait_event list" where
  "next_events w = (case w_events w of [] \<Rightarrow> [] | evs # _ \<Rightarrow> evs)"

definition ipfs_response_wait ::
  "'x text_forms \<Rightarrow> ipfs_request_id list \<Rightarrow> timestamp option \<Rightarrow> 'x api_world \<Rightarrow>
   ('x api_world \<times> ipfs_request_status list) option" where
  "ipfs_response_wait tf ids deadline w =
     (case w_ipfs w of
        None \<Rightarrow> Some (w, [])
      | Some api \<Rightarrow>
          map_option (\<lambda>(api, outs, _). (w\<lparr>w_ipfs := Some api, w_events := tl (w_events w)\<rparr>, outs))
            (response_wait tf ids api
               (if deadline = None then filter (\<lambda>e. e \<noteq> Deadline) (next_events w)
                else next_events w @ [Deadline])))"

definition api_host :: "'x text_forms \<Rightarrow> 'x api_world ipfs_host" where
  "api_host tf = \<lparr>h_start = ipfs_request_start,
     h_wait_until = (\<lambda>ids deadline w. case ipfs_response_wait tf ids (Some deadline) w of
        Some r \<Rightarrow> r | None \<Rightarrow> (w, [])),
     h_wait = (\<lambda>ids w. ipfs_response_wait tf ids None w)\<rparr>"

section \<open>Waiting\<close>

lemma scan_length [simp]: "length ids = length outs \<Longrightarrow> length (fst (scan tf ids outs reqs)) = length ids"
  by (induction ids outs arbitrary: reqs rule: list_induct2) (simp_all add: split_def Let_def)

lemma scan_lengthD: "scan tf ids outs reqs = (outs', reqs', m) \<Longrightarrow> length ids = length outs \<Longrightarrow> length outs' = length ids"
  using scan_length [of ids outs tf reqs] by simp

lemma wait_loop_length:
  assumes "wait_loop tf ids dn outs api events = Some (api', outs', rest)" "length outs = length ids"
  shows "length outs' = length ids"
  using assms
proof (induction events arbitrary: dn outs api)
  case Nil
  then show ?case
    by (subst (asm) wait_loop.simps) (auto simp: Let_def split: prod.splits if_splits dest: scan_lengthD)
next
  case (Cons e es)
  obtain o1 r1 m1 where s: "scan tf ids outs (api_requests api) = (o1, r1, m1)"
    by (cases "scan tf ids outs (api_requests api)") auto
  with Cons.prems(2) have l: "length o1 = length ids" by (auto dest: scan_lengthD)
  from Cons.prems(1) l show ?case
    by (subst (asm) wait_loop.simps)
      (auto simp: s Let_def split: if_splits wait_event.splits dest: Cons.IH)
qed

lemma wait_loop_returns:
  assumes "Deadline \<in> set events \<or> Closed \<in> set events"
  shows "wait_loop tf ids dn outs api events \<noteq> None"
  using assms
proof (induction events arbitrary: dn outs api)
  case Nil
  then show ?case by simp
next
  case (Cons e es)
  have done_returns: "wait_loop tf ids True o' a' ev \<noteq> None" for o' a' ev
    by (subst wait_loop.simps) (simp add: Let_def split: prod.split)
  obtain o1 r1 m1 where s: "scan tf ids outs (api_requests api) = (o1, r1, m1)"
    by (cases "scan tf ids outs (api_requests api)") auto
  show ?case
    using Cons done_returns
    by (subst wait_loop.simps) (cases e; simp add: s Let_def)
qed

lemma response_wait_length:
  "response_wait tf ids api events = Some (api', outs, rest) \<Longrightarrow> length outs = length ids"
  unfolding response_wait_def by (rule wait_loop_length) auto

lemma response_wait_returns:
  "Deadline \<in> set events \<or> Closed \<in> set events \<Longrightarrow> response_wait tf ids api events \<noteq> None"
  unfolding response_wait_def by (rule wait_loop_returns)


section \<open>Waiting for answers\<close>

primrec msg_id :: "'x worker_to_api \<Rightarrow> ipfs_request_id" where
  "msg_id (W_Response i v) = i"
| "msg_id (W_Fail i e) = i"

primrec msg_status :: "'x text_forms \<Rightarrow> 'x worker_to_api \<Rightarrow> ipfs_request_status" where
  "msg_status tf (W_Response i v) = St_Finished (to_response tf v)"
| "msg_status tf (W_Fail i e) = St_IoError e"

text \<open>The placeholder is not an answer of the node.\<close>

primrec proper_msg :: "'x worker_to_api \<Rightarrow> bool" where
  "proper_msg (W_Response i v) = (v \<noteq> Nt_Success)"
| "proper_msg (W_Fail i e) = True"

definition dispatched :: "'x ipfs_api \<Rightarrow> ipfs_request_id set" where
  "dispatched api = {i. api_requests api i = Some Dispatched}"

text \<open>The state of one slot of a wait whose outcome is to be \<open>E i\<close>: still running with its answer
  among the messages to come, answered, or answered and already taken.\<close>

definition slot ::
  "'x text_forms \<Rightarrow> (ipfs_request_id \<Rightarrow> ipfs_request_status) \<Rightarrow> 'x worker_to_api list \<Rightarrow>
   (ipfs_request_id \<Rightarrow> 'x ipfs_api_request option) \<Rightarrow> ipfs_request_id \<Rightarrow> ipfs_request_status \<Rightarrow> bool" where
  "slot tf E msgs reqs i out =
     (case reqs i of
        Some Dispatched \<Rightarrow> \<exists>m\<in>set msgs. msg_id m = i \<and> msg_status tf m = E i
      | Some (Fail e) \<Rightarrow> E i = St_IoError e
      | Some (Response v) \<Rightarrow> if v = Nt_Success then out = E i else E i = St_Finished (to_response tf v)
      | None \<Rightarrow> False)"

lemma scan_one_other: "scan_one tf i out reqs = (out', reqs', m) \<Longrightarrow> j \<noteq> i \<Longrightarrow> reqs' j = reqs j"
  by (auto simp: scan_one_def split: option.splits ipfs_api_request.splits ipfs_native_response.splits)

lemma scan_one_dispatched:
  "scan_one tf i out reqs = (out', reqs', m) \<Longrightarrow> (reqs' j = Some Dispatched) = (reqs j = Some Dispatched)"
  by (auto simp: scan_one_def split: option.splits ipfs_api_request.splits ipfs_native_response.splits if_splits)

lemma scan_one_slot:
  "scan_one tf i out reqs = (out', reqs', m) \<Longrightarrow> slot tf E msgs reqs i out \<Longrightarrow>
   slot tf E msgs reqs' i out' \<and> (m \<longleftrightarrow> reqs' i = Some Dispatched) \<and> (\<not> m \<longrightarrow> out' = E i)"
  by (auto simp: scan_one_def slot_def split: option.splits ipfs_api_request.splits ipfs_native_response.splits if_splits)

lemma slot_cong: "reqs' i = reqs i \<Longrightarrow> slot tf E msgs reqs' i out = slot tf E msgs reqs i out"
  by (simp add: slot_def)

lemma scan_other:
  "length ids = length outs \<Longrightarrow> scan tf ids outs reqs = (outs', reqs', m) \<Longrightarrow> j \<notin> set ids \<Longrightarrow> reqs' j = reqs j"
  by (induction ids outs arbitrary: reqs outs' m rule: list_induct2)
    (auto simp: Let_def split: prod.splits dest!: scan_one_other)

lemma scan_dispatched:
  "length ids = length outs \<Longrightarrow> scan tf ids outs reqs = (outs', reqs', m) \<Longrightarrow>
   (reqs' j = Some Dispatched) = (reqs j = Some Dispatched)"
  by (induction ids outs arbitrary: reqs outs' m rule: list_induct2)
    (auto simp: Let_def split: prod.splits dest: scan_one_dispatched)

lemma scan_slots:
  assumes "length ids = length outs" "distinct ids" "scan tf ids outs reqs = (outs', reqs', m)"
    and "list_all2 (slot tf E msgs reqs) ids outs"
  shows "list_all2 (slot tf E msgs reqs') ids outs' \<and> (m \<longleftrightarrow> (\<exists>i\<in>set ids. reqs' i = Some Dispatched)) \<and>
    (\<not> m \<longrightarrow> outs' = map E ids)"
  using assms
proof (induction ids outs arbitrary: reqs outs' reqs' m rule: list_induct2)
  case Nil
  then show ?case by simp
next
  case (Cons i ids out outs)
  obtain o1 r1 m1 where s1: "scan_one tf i out reqs = (o1, r1, m1)"
    by (cases "scan_one tf i out reqs") auto
  obtain o2 r2 m2 where s2: "scan tf ids outs r1 = (o2, r2, m2)"
    by (cases "scan tf ids outs r1") auto
  from Cons.prems s1 s2 have res: "outs' = o1 # o2" "reqs' = r2" "m = (m1 \<or> m2)" by auto
  have other: "r1 j = reqs j" if "j \<in> set ids" for j
    using scan_one_other [OF s1, of j] that Cons.prems(1) by (cases "j = i") auto
  have "list_all2 (slot tf E msgs reqs) ids outs" using Cons.prems(3) by simp
  then have "list_all2 (slot tf E msgs r1) ids outs"
    by (rule list.rel_mono_strong) (simp add: slot_cong [OF other])
  with Cons.IH [OF _ s2] Cons.prems(1) have rest: "list_all2 (slot tf E msgs r2) ids o2"
    "m2 \<longleftrightarrow> (\<exists>i\<in>set ids. r2 i = Some Dispatched)" "\<not> m2 \<longrightarrow> o2 = map E ids" by auto
  have keep: "r2 i = r1 i" using scan_other [OF Cons.hyps s2] Cons.prems(1) by auto
  have "slot tf E msgs r1 i o1 \<and> (m1 \<longleftrightarrow> r1 i = Some Dispatched) \<and> (\<not> m1 \<longrightarrow> o1 = E i)"
    using scan_one_slot [OF s1] Cons.prems(3) by auto
  with rest keep res show ?case by (auto simp: slot_cong [of r2 i r1])
qed

lemma handle_message_slot:
  assumes "slot tf E (m # msgs) reqs i out" "reqs (msg_id m) = Some Dispatched" "proper_msg m"
    and "msg_id m \<notin> msg_id ` set msgs"
  shows "slot tf E msgs (handle_message m reqs) i out"
  using assms by (cases m) (auto simp: slot_def handle_message_def split: option.splits ipfs_api_request.splits)

lemma handle_message_other: "j \<noteq> msg_id m \<Longrightarrow> handle_message m reqs j = reqs j"
  by (cases m) (auto simp: handle_message_def split: option.splits ipfs_api_request.splits)

lemma wait_loop_answers:
  assumes "distinct ids" "length ids = length outs" "list_all2 (slot tf E msgs (api_requests api)) ids outs"
    and "distinct (map msg_id msgs)" "\<forall>m\<in>set msgs. proper_msg m \<and> api_requests api (msg_id m) = Some Dispatched"
  shows "\<exists>api' rest. wait_loop tf ids False outs api (map Got msgs @ evs) = Some (api', map E ids, rest)"
  using assms
proof (induction msgs arbitrary: outs api)
  case (Nil outs api)
  obtain o1 r1 m1 where s: "scan tf ids outs (api_requests api) = (o1, r1, m1)"
    by (cases "scan tf ids outs (api_requests api)") auto
  have all: "list_all2 (slot tf E [] r1) ids o1" "m1 \<longleftrightarrow> (\<exists>i\<in>set ids. r1 i = Some Dispatched)"
    "\<not> m1 \<longrightarrow> o1 = map E ids"
    using scan_slots [OF Nil.prems(2,1) s Nil.prems(3)] by auto
  have "r1 i \<noteq> Some Dispatched" if "i \<in> set ids" for i
    using all(1) that by (auto simp: list_all2_conv_all_nth in_set_conv_nth slot_def)
  with all have "\<not> m1" "o1 = map E ids" by auto
  then show ?case by (subst wait_loop.simps) (simp add: s Let_def)
next
  case (Cons m msgs outs api)
  obtain o1 r1 m1 where s: "scan tf ids outs (api_requests api) = (o1, r1, m1)"
    by (cases "scan tf ids outs (api_requests api)") auto
  have all: "list_all2 (slot tf E (m # msgs) r1) ids o1" "\<not> m1 \<longrightarrow> o1 = map E ids"
    using scan_slots [OF Cons.prems(2,1) s Cons.prems(3)] by auto
  have disp: "r1 (msg_id x) = Some Dispatched" if "x \<in> set (m # msgs)" for x
    using scan_dispatched [OF Cons.prems(2) s] Cons.prems(5) that by blast
  let ?api = "api\<lparr>api_requests := handle_message m r1\<rparr>"
  have "list_all2 (slot tf E msgs (api_requests ?api)) ids o1"
    using all(1) by (rule list.rel_mono_strong)
      (use disp [of m] Cons.prems(4,5) in \<open>auto intro: handle_message_slot\<close>)
  moreover have "\<forall>x\<in>set msgs. proper_msg x \<and> api_requests ?api (msg_id x) = Some Dispatched"
  proof
    fix x assume "x \<in> set msgs"
    moreover from this have "msg_id x \<in> msg_id ` set msgs" by simp
    then have "msg_id x \<noteq> msg_id m" using Cons.prems(4) by auto
    ultimately show "proper_msg x \<and> api_requests ?api (msg_id x) = Some Dispatched"
      using disp [of x] Cons.prems(5) handle_message_other [of "msg_id x" m r1] by simp
  qed
  ultimately obtain api' rest where
    "wait_loop tf ids False o1 ?api (map Got msgs @ evs) = Some (api', map E ids, rest)"
    using Cons.IH [of o1 ?api] Cons.prems(1,2,4) scan_lengthD [OF s Cons.prems(2)] by auto
  with all(2) show ?case by (subst wait_loop.simps) (auto simp: s Let_def)
qed


section \<open>What a wait keeps\<close>

lemma dom_scan_one: "scan_one tf i out reqs = (out', reqs', m) \<Longrightarrow> dom reqs' = dom reqs"
  by (auto simp: scan_one_def split: option.splits ipfs_api_request.splits ipfs_native_response.splits if_splits)

lemma dom_scan: "length ids = length outs \<Longrightarrow> scan tf ids outs reqs = (outs', reqs', m) \<Longrightarrow> dom reqs' = dom reqs"
  by (induction ids outs arbitrary: reqs outs' reqs' m rule: list_induct2)
    (auto simp: Let_def split: prod.splits dest!: dom_scan_one)

lemma purge_spec: "purge ids outs reqs j = (if \<exists>out. (j, out) \<in> set (zip ids outs) \<and> is_io_error out then None else reqs j)"
proof -
  have "fold (\<lambda>(i, out) reqs. if is_io_error out then reqs(i := None) else reqs) ps reqs j =
    (if \<exists>out. (j, out) \<in> set ps \<and> is_io_error out then None else reqs j)" for ps
    by (induction ps arbitrary: reqs) auto
  from this [of "rev (zip ids outs)"] show ?thesis by (simp add: purge_def)
qed

lemma dom_handle_message: "dom (handle_message m reqs) \<subseteq> dom reqs"
  by (cases m) (auto simp: handle_message_def split: option.splits ipfs_api_request.splits if_splits)

lemma handle_message_dispatched:
  "(handle_message m reqs j = Some Dispatched) = (reqs j = Some Dispatched \<and> j \<noteq> msg_id m)"
  by (cases m) (auto simp: handle_message_def split: option.splits ipfs_api_request.splits)

text \<open>A slot whose request still runs has not been given an outcome yet.\<close>

definition untouched ::
  "(ipfs_request_id \<Rightarrow> 'x ipfs_api_request option) \<Rightarrow> ipfs_request_id \<Rightarrow> ipfs_request_status \<Rightarrow> bool" where
  "untouched reqs i out = (reqs i = Some Dispatched \<longrightarrow> out = St_DeadlineReached)"

lemma scan_one_out: "scan_one tf i out reqs = (out', reqs', m) \<Longrightarrow> reqs i = Some Dispatched \<Longrightarrow> out' = out"
  by (simp add: scan_one_def)

lemma scan_untouched:
  "length ids = length outs \<Longrightarrow> scan tf ids outs reqs = (outs', reqs', m) \<Longrightarrow>
   list_all2 (untouched reqs) ids outs \<Longrightarrow> list_all2 (untouched reqs') ids outs'"
proof (induction ids outs arbitrary: reqs outs' reqs' m rule: list_induct2)
  case Nil
  then show ?case by simp
next
  case (Cons i ids out outs)
  obtain o1 r1 m1 where s1: "scan_one tf i out reqs = (o1, r1, m1)"
    by (cases "scan_one tf i out reqs") auto
  obtain o2 r2 m2 where s2: "scan tf ids outs r1 = (o2, r2, m2)"
    by (cases "scan tf ids outs r1") auto
  from Cons.prems s1 s2 have res: "outs' = o1 # o2" "reqs' = r2" by auto
  have "list_all2 (untouched r1) ids outs"
    using Cons.prems(2) scan_one_dispatched [OF s1] by (auto simp: untouched_def [abs_def])
  from Cons.IH [OF s2 this] show ?case
    using Cons.prems(2) scan_one_dispatched [OF s1] scan_dispatched [OF Cons.hyps s2] scan_one_out [OF s1]
    by (auto simp: res untouched_def)
qed

lemma purge_dispatched:
  assumes "list_all2 (untouched reqs) ids outs"
  shows "(purge ids outs reqs j = Some Dispatched) = (reqs j = Some Dispatched)"
proof -
  have "\<not> is_io_error out" if "(j, out) \<in> set (zip ids outs)" "reqs j = Some Dispatched" for out
    using assms that by (auto simp: list_all2_iff untouched_def)
  then show ?thesis by (auto simp: purge_spec)
qed

lemma wait_loop_done:
  "scan tf ids outs (api_requests api) = (o1, r1, m1) \<Longrightarrow> dn \<or> \<not> m1 \<Longrightarrow>
   wait_loop tf ids dn outs api evs = Some (api\<lparr>api_requests := purge ids o1 r1\<rparr>, o1, evs)"
  by (subst wait_loop.simps) (simp add: Let_def)

lemma wait_loop_step:
  "scan tf ids outs (api_requests api) = (o1, r1, True) \<Longrightarrow> \<not> dn \<Longrightarrow>
   wait_loop tf ids dn outs api evs =
     (case evs of
        [] \<Rightarrow> None
      | Deadline # es \<Rightarrow> wait_loop tf ids True o1 (api\<lparr>api_requests := r1\<rparr>) es
      | Got msg # es \<Rightarrow> wait_loop tf ids False o1 (api\<lparr>api_requests := handle_message msg r1\<rparr>) es
      | Closed # es \<Rightarrow> Some (api\<lparr>api_requests := r1\<rparr>, map (\<lambda>_. St_IoError crash_text) ids, es))"
  by (subst wait_loop.simps) (simp add: Let_def split: list.split wait_event.split)

lemma wait_loop_effect:
  assumes "wait_loop tf ids dn outs api (map Got ms @ evs) = Some (api', outs', [])" "evs = [] \<or> evs = [Deadline]"
    and "length ids = length outs" "list_all2 (untouched (api_requests api)) ids outs"
  shows "next_id api' = next_id api \<and> to_worker api' = to_worker api \<and>
    dom (api_requests api') \<subseteq> dom (api_requests api) \<and>
    dispatched api' = dispatched api - msg_id ` set ms \<and> list_all2 (untouched (api_requests api')) ids outs'"
  using assms
proof (induction ms arbitrary: dn outs api)
  case (Nil dn outs api)
  obtain o1 r1 m1 where s: "scan tf ids outs (api_requests api) = (o1, r1, m1)"
    by (cases "scan tf ids outs (api_requests api)") auto
  note un = scan_untouched [OF Nil.prems(3) s Nil.prems(4)]
  let ?a = "api\<lparr>api_requests := r1\<rparr>"
  have base: "next_id a' = next_id api \<and> to_worker a' = to_worker api \<and> dom (api_requests a') \<subseteq> dom (api_requests api) \<and>
     dispatched a' = dispatched api \<and> list_all2 (untouched (api_requests a')) ids o2"
    if "scan tf ids o1' r1' = (o2, r2, m2)" "length ids = length o1'" "list_all2 (untouched r1') ids o1'"
      "a' = api\<lparr>api_requests := purge ids o2 r2\<rparr>" "dom r1' = dom (api_requests api)"
      "\<And>j. (r1' j = Some Dispatched) = (api_requests api j = Some Dispatched)" for o1' r1' o2 r2 m2 a'
  proof -
    note u = scan_untouched [OF that(2,1,3)]
    have "list_all2 (untouched (purge ids o2 r2)) ids o2"
      using u by (rule list.rel_mono_strong) (simp add: untouched_def purge_dispatched [OF u])
    moreover have "dom (purge ids o2 r2) \<subseteq> dom r2" by (auto simp: purge_spec split: if_splits)
    ultimately show ?thesis
      using that dom_scan [OF that(2,1)] scan_dispatched [OF that(2,1)] purge_dispatched [OF u]
      by (auto simp: dispatched_def)
  qed
  obtain o2 r2 m2 where s2: "scan tf ids o1 r1 = (o2, r2, m2)"
    by (cases "scan tf ids o1 r1") auto
  consider "api' = api\<lparr>api_requests := purge ids o1 r1\<rparr>" "outs' = o1"
    | "api' = api\<lparr>api_requests := purge ids o2 r2\<rparr>" "outs' = o2"
  proof (cases "dn \<or> \<not> m1")
    case True
    have "Some (api', outs', []) = Some (api\<lparr>api_requests := purge ids o1 r1\<rparr>, o1, evs)"
      using Nil.prems(1) by (simp only: list.map append_Nil wait_loop_done [OF s True])
    then show ?thesis by (metis that(1) option.inject prod.inject)
  next
    case False
    with s have s': "scan tf ids outs (api_requests api) = (o1, r1, True)" "\<not> dn" by auto
    then have evs: "evs = [Deadline]"
      using Nil.prems(1,2) wait_loop_step [OF s', of evs] by auto
    have "wait_loop tf ids True o1 (api\<lparr>api_requests := r1\<rparr>) [] =
        Some (api\<lparr>api_requests := purge ids o2 r2\<rparr>, o2, [])"
      using wait_loop_done [of tf ids o1 "api\<lparr>api_requests := r1\<rparr>" o2 r2 m2 True "[]"] s2 by simp
    moreover have "wait_loop tf ids True o1 (api\<lparr>api_requests := r1\<rparr>) [] = Some (api', outs', [])"
      using Nil.prems(1) unfolding evs list.map append_Nil wait_loop_step [OF s'] list.case wait_event.case .
    ultimately show ?thesis by (metis that(2) option.inject prod.inject)
  qed
  then show ?case
  proof cases
    case 1
    show ?thesis using base [OF s Nil.prems(3,4) 1(1) refl refl] unfolding 1(2) by simp
  next
    case 2
    show ?thesis
      using base [OF s2 scan_lengthD [OF s Nil.prems(3), symmetric] un 2(1) dom_scan [OF Nil.prems(3) s]
        scan_dispatched [OF Nil.prems(3) s]] unfolding 2(2) by simp
  qed
next
  case (Cons m ms dn outs api)
  obtain o1 r1 m1 where s: "scan tf ids outs (api_requests api) = (o1, r1, m1)"
    by (cases "scan tf ids outs (api_requests api)") auto
  note un = scan_untouched [OF Cons.prems(3) s Cons.prems(4)]
  let ?a = "api\<lparr>api_requests := handle_message m r1\<rparr>"
  have run: "wait_loop tf ids dn o1 ?a (map Got ms @ evs) = Some (api', outs', [])"
  proof (cases "dn \<or> \<not> m1")
    case True
    from Cons.prems(1) wait_loop_done [OF s this, of "map Got (m # ms) @ evs"] show ?thesis by simp
  next
    case False
    with s have s': "scan tf ids outs (api_requests api) = (o1, r1, True)" "\<not> dn" by auto
    from Cons.prems(1) wait_loop_step [OF s', of "map Got (m # ms) @ evs"] s'(2) show ?thesis by simp
  qed
  have "list_all2 (untouched (api_requests ?a)) ids o1"
    using un by (rule list.rel_mono_strong) (simp add: untouched_def handle_message_dispatched)
  with Cons.IH [OF run Cons.prems(2)] scan_lengthD [OF s Cons.prems(3)]
  have ih: "next_id api' = next_id api" "to_worker api' = to_worker api" "dom (api_requests api') \<subseteq> dom (api_requests ?a)"
    "dispatched api' = dispatched ?a - msg_id ` set ms" "list_all2 (untouched (api_requests api')) ids outs'" by auto
  have "dom (api_requests api') \<subseteq> dom (api_requests api)"
    using ih(3) dom_handle_message [of m r1] dom_scan [OF Cons.prems(3) s] by (simp add: subset_trans)
  moreover have "dispatched ?a = dispatched api - {msg_id m}"
    using scan_dispatched [OF Cons.prems(3) s] by (auto simp: dispatched_def handle_message_dispatched)
  ultimately show ?case using ih(1,2,4,5) by auto
qed

section \<open>The worker\<close>

definition worker_answer :: "'x ipfs_node \<Rightarrow> ipfs_request_id \<times> ipfs_request \<Rightarrow> 'x worker_to_api" where
  "worker_answer nd r = (case run_ipfs_request nd (snd r) of Ok v \<Rightarrow> W_Response (fst r) v | Err e \<Rightarrow> W_Fail (fst r) e)"

lemma msg_id_worker_answer [simp]: "msg_id (worker_answer nd r) = fst r"
  by (simp add: worker_answer_def split: result.split)

lemma try_bind_Ok_iff: "try_bind r f = Ok y \<longleftrightarrow> (\<exists>x. r = Ok x \<and> f x = Ok y)"
  by (cases r) auto

lemma run_ipfs_request_not_placeholder: "run_ipfs_request nd rq \<noteq> Ok Nt_Success"
  by (cases rq) (auto simp: try_bind_Ok_iff)

lemma proper_worker_answer [simp]: "proper_msg (worker_answer nd r)"
  by (auto simp: worker_answer_def run_ipfs_request_not_placeholder split: result.split)

lemma swap_remove_middle:
  "\<exists>q'. swap_remove (length p) (p @ x # q) = Done (x, p @ q') \<and> mset q' = mset q"
proof (cases q rule: rev_cases)
  case Nil
  then show ?thesis by (simp add: swap_remove_def)
next
  case (snoc ys z)
  then show ?thesis
    by (intro exI [of _ "z # ys"]) (simp add: swap_remove_def list_update_append butlast_append)
qed

lemma poll_requests_spec:
  assumes "w_requests me = p @ q"
  shows "\<exists>me'. poll_requests nd ready (length p) me = Done me' \<and>
    mset (w_requests me') = mset q + mset (filter (\<lambda>r. \<not> ready (fst r)) p) \<and>
    mset (to_api me') = mset (to_api me) + mset (map (worker_answer nd) (filter (\<lambda>r. ready (fst r)) p))"
  using assms
proof (induction p arbitrary: q me rule: rev_induct)
  case Nil
  then show ?case by simp
next
  case (snoc x p)
  obtain q' where q': "swap_remove (length p) (p @ x # q) = Done (x, p @ q')" "mset q' = mset q"
    using swap_remove_middle [of p x q] by auto
  obtain i rq where x: "x = (i, rq)" by (cases x)
  define me1 where "me1 = (if ready i then me\<lparr>w_requests := p @ q', to_api := to_api me @ [worker_answer nd x]\<rparr>
    else me\<lparr>w_requests := p @ q' @ [x]\<rparr>)"
  have step: "poll_one nd ready (length p) me = Done me1"
    using snoc.prems q'(1) by (simp add: poll_one_def me1_def x worker_answer_def exec_simps cong: result.case_cong)
  have "w_requests me1 = p @ (if ready i then q' else q' @ [x])" by (simp add: me1_def)
  from snoc.IH [OF this] obtain me' where me': "poll_requests nd ready (length p) me1 = Done me'"
    "mset (w_requests me') = mset (if ready i then q' else q' @ [x]) + mset (filter (\<lambda>r. \<not> ready (fst r)) p)"
    "mset (to_api me') = mset (to_api me1) + mset (map (worker_answer nd) (filter (\<lambda>r. ready (fst r)) p))"
    by blast
  show ?case
    by (intro exI [of _ me']) (use me' q'(2) step in \<open>simp add: me1_def x exec_simps\<close>)
qed

end
