(* ===== verification/Ipfs_System.thy ===== *)
theory Ipfs_System
  imports Ipfs_Api
begin

text \<open>
  The two halves of \<open>client/offchain/src/api/ipfs.rs\<close> together: the API and the worker with the
  channels between them, as a transition system over requests started, polls of the worker and
  waits.  The invariant is that a running request is in exactly one place (the channel to the
  worker, the worker's list, or the channel back), so the two sides never disagree; from it follows
  that a request that was started is answered once the worker has been polled.  The last part is
  \<open>PendingRequest\<close>, the runtime's view, over an interface of the host functions.
\<close>

section \<open>The composed system\<close>

record 'x ipfs_sys =
  s_api :: "'x ipfs_api"
  s_worker :: "'x ipfs_worker"

definition init_sys :: "u16 \<Rightarrow> 'x ipfs_sys" where
  "init_sys random = \<lparr>s_api = new_api random, s_worker = \<lparr>w_requests = [], to_api = []\<rparr>\<rparr>"

text \<open>
  A wait receives a prefix of the messages the worker has sent and may end with the deadline.  What
  the worker sends while the API waits is in the channel beforehand here: the API sends nothing
  while it waits, so the worker does not see the difference.
\<close>

inductive sys_step :: "'x ipfs_node \<Rightarrow> 'x text_forms \<Rightarrow> 'x ipfs_sys \<Rightarrow> 'x ipfs_sys \<Rightarrow> bool"
  for nd tf where
  start: "request_start request (s_api s) = (api, r) \<Longrightarrow> sys_step nd tf s (s\<lparr>s_api := api\<rparr>)"
| work: "poll nd ready True (to_worker (s_api s)) (s_worker s) = Done (inbox, w, r) \<Longrightarrow>
    sys_step nd tf s \<lparr>s_api = (s_api s)\<lparr>to_worker := inbox\<rparr>, s_worker = w\<rparr>"
| wait: "to_api (s_worker s) = ms @ rest \<Longrightarrow> evs = [] \<or> evs = [Deadline] \<Longrightarrow>
    response_wait tf ids (s_api s) (map Got ms @ evs) = Some (api, outs, []) \<Longrightarrow>
    sys_step nd tf s \<lparr>s_api = api, s_worker = (s_worker s)\<lparr>to_api := rest\<rparr>\<rparr>"

inductive sys_reach :: "'x ipfs_node \<Rightarrow> 'x text_forms \<Rightarrow> 'x ipfs_sys \<Rightarrow> bool"
  for nd tf where
  init: "sys_reach nd tf (init_sys random)"
| step: "sys_reach nd tf s \<Longrightarrow> sys_step nd tf s s' \<Longrightarrow> sys_reach nd tf s'"

inductive_cases sys_stepE: "sys_step nd tf s s'"

definition flight :: "'x ipfs_sys \<Rightarrow> ipfs_request_id list" where
  "flight s = map fst (to_worker (s_api s)) @ map fst (w_requests (s_worker s)) @ map msg_id (to_api (s_worker s))"

text \<open>Every running request is in one place, once.\<close>

definition sys_inv :: "'x ipfs_sys \<Rightarrow> bool" where
  "sys_inv s \<longleftrightarrow> distinct (flight s) \<and> set (flight s) = dispatched (s_api s) \<and>
     (\<forall>i\<in>dom (api_requests (s_api s)). i < next_id (s_api s)) \<and>
     (\<forall>m\<in>set (to_api (s_worker s)). proper_msg m)"

lemma sys_inv_init: "sys_inv (init_sys random)"
  by (simp add: sys_inv_def flight_def init_sys_def new_api_def dispatched_def)

lemma request_start_cases [consumes 1, case_names overflow started]:
  assumes "request_start request api = (api', r)"
  obtains (overflow) "api' = api" "r = Err ()" "unat (next_id api) = 2 ^ 16 - 1"
  | (started) "r = Ok (next_id api)" "next_id api < next_id api'"
      "to_worker api' = to_worker api @ [(next_id api, request)]"
      "api_requests api' = (api_requests api)(next_id api \<mapsto> Dispatched)"
proof (cases "checked_add (next_id api) 1")
  case None
  then have "2 ^ 16 \<le> unat (next_id api) + 1" by (simp add: checked_add_def split: if_splits)
  moreover have "unat (next_id api) < 2 ^ 16" using unsigned_less [of "next_id api"] by simp
  ultimately have "unat (next_id api) = 2 ^ 16 - 1" by simp
  with None assms overflow show ?thesis by (simp add: request_start_def)
next
  case (Some n)
  then have "next_id api < n" using checked_add_SomeD [OF Some] by (simp add: word_less_nat_alt)
  with Some assms started show ?thesis by (auto simp: request_start_def)
qed

lemma poll_flight:
  assumes "poll nd ready is_open inbox me = Done (inbox', me', r)"
  shows "mset (map fst inbox' @ map fst (w_requests me') @ map msg_id (to_api me')) =
      mset (map fst inbox @ map fst (w_requests me) @ map msg_id (to_api me))"
    and "(\<forall>m\<in>set (to_api me). proper_msg m) \<longrightarrow> (\<forall>m\<in>set (to_api me'). proper_msg m)"
proof -
  obtain me1 where me1: "poll_requests nd ready (length (w_requests me)) me = Done me1"
    "mset (w_requests me1) = mset (filter (\<lambda>r. \<not> ready (fst r)) (w_requests me))"
    "mset (to_api me1) = mset (to_api me) + mset (map (worker_answer nd) (filter (\<lambda>r. ready (fst r)) (w_requests me)))"
    using poll_requests_spec [of me "w_requests me" "[]" nd ready] by auto
  have to_api: "to_api me' = to_api me1" and
    reqs: "mset inbox' + mset (w_requests me') = mset inbox + mset (w_requests me1)"
    using assms by (auto simp: poll_def me1(1) exec_simps split: list.splits)
  have ids: "image_mset msg_id (mset (to_api me1)) =
      image_mset msg_id (mset (to_api me)) + image_mset fst (mset (filter (\<lambda>r. ready (fst r)) (w_requests me)))"
    by (simp add: me1(3) image_mset.compositionality comp_def)
  have inbox: "image_mset fst (mset inbox') + image_mset fst (mset (w_requests me')) =
      image_mset fst (mset inbox) + image_mset fst (mset (w_requests me1))"
    using reqs by (metis image_mset_union)
  have "mset (w_requests me) =
      mset (filter (\<lambda>r. \<not> ready (fst r)) (w_requests me)) + mset (filter (\<lambda>r. ready (fst r)) (w_requests me))"
    by (simp add: add.commute flip: multiset_partition)
  then have part: "image_mset fst (mset (w_requests me)) = image_mset fst (mset (w_requests me1)) +
      image_mset fst (mset (filter (\<lambda>r. ready (fst r)) (w_requests me)))"
    unfolding me1(2) by (metis image_mset_union)
  have "mset (map fst inbox' @ map fst (w_requests me') @ map msg_id (to_api me')) =
      (image_mset fst (mset inbox') + image_mset fst (mset (w_requests me'))) + image_mset msg_id (mset (to_api me1))"
    by (simp add: to_api add.assoc)
  also have "\<dots> = mset (map fst inbox @ map fst (w_requests me) @ map msg_id (to_api me))"
    unfolding inbox ids by (simp add: part ac_simps)
  finally show "mset (map fst inbox' @ map fst (w_requests me') @ map msg_id (to_api me')) =
      mset (map fst inbox @ map fst (w_requests me) @ map msg_id (to_api me))" .
  have "set_mset (mset (to_api me1)) = set (to_api me) \<union> worker_answer nd ` {r \<in> set (w_requests me). ready (fst r)}"
    unfolding me1(3) by auto
  then show "(\<forall>m\<in>set (to_api me). proper_msg m) \<longrightarrow> (\<forall>m\<in>set (to_api me'). proper_msg m)"
    by (auto simp: to_api)
qed

lemma response_wait_effect:
  assumes "response_wait tf ids api (map Got ms @ evs) = Some (api', outs, [])" "evs = [] \<or> evs = [Deadline]"
  shows "next_id api' = next_id api" "to_worker api' = to_worker api"
    "dom (api_requests api') \<subseteq> dom (api_requests api)" "dispatched api' = dispatched api - msg_id ` set ms"
    "list_all2 (untouched (api_requests api')) ids outs"
proof -
  have "list_all2 (untouched (api_requests api)) ids (map (\<lambda>_. St_DeadlineReached) ids)"
    by (simp add: untouched_def list_all2_conv_all_nth)
  from wait_loop_effect [OF assms(1) [unfolded response_wait_def] assms(2) _ this]
  show "next_id api' = next_id api" "to_worker api' = to_worker api"
    "dom (api_requests api') \<subseteq> dom (api_requests api)" "dispatched api' = dispatched api - msg_id ` set ms"
    "list_all2 (untouched (api_requests api')) ids outs" by auto
qed

lemma sys_inv_step:
  assumes "sys_step nd tf s s'" "sys_inv s"
  shows "sys_inv s'"
  using assms
proof cases
  case (start request api r)
  from start(2) show ?thesis
  proof (cases rule: request_start_cases)
    case overflow
    with start(1) assms(2) show ?thesis by simp
  next
    case started
    have new: "api_requests (s_api s) (next_id (s_api s)) = None"
      using assms(2) by (auto simp: sys_inv_def)
    then have "next_id (s_api s) \<notin> set (flight s)" using assms(2) by (simp add: sys_inv_def dispatched_def)
    moreover have "dispatched api = insert (next_id (s_api s)) (dispatched (s_api s))"
      by (auto simp: dispatched_def started(4))
    moreover have "\<forall>i\<in>dom (api_requests api). i < next_id api"
      using assms(2) started(2,4) by (auto simp: sys_inv_def dest!: bspec intro: less_trans)
    ultimately show ?thesis using assms(2) start(1) started(3) by (auto simp: sys_inv_def flight_def)
  qed
next
  case (work ready inbox w r)
  have m: "mset (flight s') = mset (flight s)"
    using poll_flight(1) [OF work(2)] by (simp add: flight_def work(1))
  have "distinct (flight s') = distinct (flight s)" "set (flight s') = set (flight s)"
    using mset_eq_imp_distinct_iff [OF m] mset_eq_setD [OF m] by auto
  with assms(2) poll_flight(2) [OF work(2)] show ?thesis by (simp add: sys_inv_def work(1) dispatched_def)
next
  case (wait ms rest evs ids api outs)
  note eff = response_wait_effect [OF wait(4,3)]
  from assms(2) eff(1,3) have "\<forall>i\<in>dom (api_requests api). i < next_id api" by (auto simp: sys_inv_def)
  moreover have "distinct (flight s')" "set (flight s') = set (flight s) - msg_id ` set ms"
    using assms(2) wait(2) by (auto simp: sys_inv_def flight_def wait(1) eff(2))
  ultimately show ?thesis using assms(2) eff(4) wait(2) by (auto simp: sys_inv_def wait(1))
qed

lemma sys_reach_inv: "sys_reach nd tf s \<Longrightarrow> sys_inv s"
  by (induction rule: sys_reach.induct) (auto intro: sys_inv_init sys_inv_step)


section \<open>Started requests are answered\<close>

text \<open>\<open>n\<close> polls of the worker in which every future is ready.\<close>

primrec work_all :: "'x ipfs_node \<Rightarrow> nat \<Rightarrow> 'x ipfs_sys \<Rightarrow> 'x ipfs_sys exec" where
  "work_all nd 0 s = Done s"
| "work_all nd (Suc n) s =
     bind_exec (poll nd (\<lambda>_. True) True (to_worker (s_api s)) (s_worker s)) (\<lambda>(inbox, w, _).
     work_all nd n \<lparr>s_api = (s_api s)\<lparr>to_worker := inbox\<rparr>, s_worker = w\<rparr>)"

lemma poll_total:
  obtains me1 where "poll nd ready is_open inbox me = Done (tl inbox,
      me1\<lparr>w_requests := w_requests me1 @ take 1 inbox\<rparr>, if inbox = [] \<and> \<not> is_open then Ready else Pending)"
    "mset (w_requests me1) = mset (filter (\<lambda>r. \<not> ready (fst r)) (w_requests me))"
    "mset (to_api me1) = mset (to_api me) + mset (map (worker_answer nd) (filter (\<lambda>r. ready (fst r)) (w_requests me)))"
proof -
  obtain me1 where me1: "poll_requests nd ready (length (w_requests me)) me = Done me1"
    "mset (w_requests me1) = mset (filter (\<lambda>r. \<not> ready (fst r)) (w_requests me))"
    "mset (to_api me1) = mset (to_api me) + mset (map (worker_answer nd) (filter (\<lambda>r. ready (fst r)) (w_requests me)))"
    using poll_requests_spec [of me "w_requests me" "[]" nd ready] by auto
  have "poll nd ready is_open inbox me = Done (tl inbox,
      me1\<lparr>w_requests := w_requests me1 @ take 1 inbox\<rparr>, if inbox = [] \<and> \<not> is_open then Ready else Pending)"
    by (cases inbox) (simp_all add: poll_def me1(1) exec_simps)
  with me1(2,3) that show ?thesis by blast
qed

lemma poll_all_ready:
  obtains w r where "poll nd (\<lambda>_. True) True inbox me = Done (tl inbox, w, r)"
    "w_requests w = take 1 inbox" "set (to_api w) = set (to_api me) \<union> worker_answer nd ` set (w_requests me)"
proof -
  obtain me1 where me1: "poll nd (\<lambda>_. True) True inbox me = Done (tl inbox,
      me1\<lparr>w_requests := w_requests me1 @ take 1 inbox\<rparr>, if inbox = [] \<and> \<not> True then Ready else Pending)"
    "mset (w_requests me1) = mset (filter (\<lambda>r. \<not> True) (w_requests me))"
    "mset (to_api me1) = mset (to_api me) + mset (map (worker_answer nd) (filter (\<lambda>r. True) (w_requests me)))"
    by (rule poll_total)
  have "set_mset (mset (to_api me1)) = set (to_api me) \<union> worker_answer nd ` set (w_requests me)"
    unfolding me1(3) by simp
  with me1(1,2) that show ?thesis by simp
qed

lemma work_all_drains:
  assumes "length (to_worker (s_api s)) < n"
  shows "\<exists>s'. work_all nd n s = Done s' \<and> api_requests (s_api s') = api_requests (s_api s) \<and>
    worker_answer nd ` (set (to_worker (s_api s)) \<union> set (w_requests (s_worker s))) \<union> set (to_api (s_worker s))
      \<subseteq> set (to_api (s_worker s'))"
  using assms
proof (induction n arbitrary: s)
  case 0
  then show ?case by simp
next
  case (Suc n)
  obtain w r where p: "poll nd (\<lambda>_. True) True (to_worker (s_api s)) (s_worker s) = Done (tl (to_worker (s_api s)), w, r)"
    "w_requests w = take 1 (to_worker (s_api s))"
    "set (to_api w) = set (to_api (s_worker s)) \<union> worker_answer nd ` set (w_requests (s_worker s))"
    by (rule poll_all_ready)
  let ?s = "\<lparr>s_api = (s_api s)\<lparr>to_worker := tl (to_worker (s_api s))\<rparr>, s_worker = w\<rparr>"
  show ?case
  proof (cases n)
    case 0
    with Suc.prems p show ?thesis by (auto simp: exec_simps)
  next
    case (Suc m)
    with Suc.prems have "length (to_worker (s_api ?s)) < n" by simp
    from Suc.IH [OF this] obtain s' where s': "work_all nd n ?s = Done s'"
      "api_requests (s_api s') = api_requests (s_api s)"
      "worker_answer nd ` (set (to_worker (s_api ?s)) \<union> set (w_requests w)) \<union> set (to_api w) \<subseteq> set (to_api (s_worker s'))"
      by auto
    have "set (to_worker (s_api s)) \<subseteq> set (to_worker (s_api ?s)) \<union> set (w_requests w)"
      by (cases "to_worker (s_api s)") (auto simp: p(2))
    with s'(2,3) p(3) have "worker_answer nd ` (set (to_worker (s_api s)) \<union> set (w_requests (s_worker s))) \<union>
      set (to_api (s_worker s)) \<subseteq> set (to_api (s_worker s'))" by blast
    with s'(1,2) p(1) show ?thesis by (simp add: exec_simps)
  qed
qed

lemma work_all_inv: "work_all nd n s = Done s' \<Longrightarrow> sys_inv s \<Longrightarrow> sys_inv s'"
proof (induction n arbitrary: s)
  case 0
  then show ?case by simp
next
  case (Suc n)
  then obtain inbox w r where p: "poll nd (\<lambda>_. True) True (to_worker (s_api s)) (s_worker s) = Done (inbox, w, r)"
    "work_all nd n \<lparr>s_api = (s_api s)\<lparr>to_worker := inbox\<rparr>, s_worker = w\<rparr> = Done s'"
    by (cases "poll nd (\<lambda>_. True) True (to_worker (s_api s)) (s_worker s)") (auto simp: exec_simps)
  from sys_step.work [OF p(1)] sys_inv_step Suc.prems(2) Suc.IH [OF p(2)] show ?case by blast
qed

definition answer_status :: "'x ipfs_node \<Rightarrow> 'x text_forms \<Rightarrow> ipfs_request \<Rightarrow> ipfs_request_status" where
  "answer_status nd tf rq =
     (case run_ipfs_request nd rq of Ok v \<Rightarrow> St_Finished (to_response tf v) | Err e \<Rightarrow> St_IoError e)"

lemma msg_status_worker_answer: "msg_status tf (worker_answer nd (i, rq)) = answer_status nd tf rq"
  by (simp add: worker_answer_def answer_status_def split: result.split)

lemma wait_gets_answer:
  assumes "sys_inv s" "worker_answer nd (i, rq) \<in> set (to_api (s_worker s))"
  shows "\<exists>api' rest. response_wait tf [i] (s_api s) (map Got (to_api (s_worker s))) = Some (api', [answer_status nd tf rq], rest)"
proof -
  let ?ms = "to_api (s_worker s)"
  have "\<forall>m\<in>set ?ms. proper_msg m \<and> api_requests (s_api s) (msg_id m) = Some Dispatched"
    using assms(1) by (auto simp: sys_inv_def flight_def dispatched_def)
  moreover from this assms(2) have "api_requests (s_api s) i = Some Dispatched" by force
  then have "slot tf (\<lambda>_. answer_status nd tf rq) ?ms (api_requests (s_api s)) i St_DeadlineReached"
    using assms(2) msg_status_worker_answer [of tf nd i rq]
    by (auto simp: slot_def intro!: bexI [of _ "worker_answer nd (i, rq)"])
  moreover have "distinct (map msg_id ?ms)" using assms(1) by (simp add: sys_inv_def flight_def)
  ultimately show ?thesis
    using wait_loop_answers [of "[i]" "[St_DeadlineReached]" tf "\<lambda>_. answer_status nd tf rq" ?ms "s_api s" "[]"]
    by (simp add: response_wait_def)
qed


lemma wait_loop_prefix:
  "wait_loop tf ids dn outs api events = Some (api', outs', rest) \<Longrightarrow>
   \<exists>pre. events = pre @ rest \<and> wait_loop tf ids dn outs api pre = Some (api', outs', [])"
proof (induction events arbitrary: dn outs api)
  case (Nil dn outs api)
  obtain o1 r1 m1 where s: "scan tf ids outs (api_requests api) = (o1, r1, m1)"
    by (cases "scan tf ids outs (api_requests api)") auto
  show ?case
  proof (cases "dn \<or> \<not> m1")
    case True
    from Nil wait_loop_done [OF s True, of "[]"] show ?thesis by auto
  next
    case False
    with s have "scan tf ids outs (api_requests api) = (o1, r1, True)" "\<not> dn" by auto
    from Nil wait_loop_step [OF this, of "[]"] show ?thesis by simp
  qed
next
  case (Cons e es dn outs api)
  obtain o1 r1 m1 where s: "scan tf ids outs (api_requests api) = (o1, r1, m1)"
    by (cases "scan tf ids outs (api_requests api)") auto
  show ?case
  proof (cases "dn \<or> \<not> m1")
    case True
    from Cons.prems wait_loop_done [OF s True, of "e # es"] wait_loop_done [OF s True, of "[]"]
    show ?thesis by (intro exI [of _ "[]"]) auto
  next
    case False
    with s have s': "scan tf ids outs (api_requests api) = (o1, r1, True)" "\<not> dn" by auto
    show ?thesis
    proof (cases e)
      case Closed
      with Cons.prems wait_loop_step [OF s', of "e # es"] wait_loop_step [OF s', of "[e]"]
      show ?thesis by (intro exI [of _ "[e]"]) auto
    next
      case (Got m)
      with Cons.prems wait_loop_step [OF s', of "e # es"]
      have "wait_loop tf ids False o1 (api\<lparr>api_requests := handle_message m r1\<rparr>) es = Some (api', outs', rest)" by simp
      from Cons.IH [OF this] obtain pre where "es = pre @ rest"
        "wait_loop tf ids False o1 (api\<lparr>api_requests := handle_message m r1\<rparr>) pre = Some (api', outs', [])" by blast
      with wait_loop_step [OF s', of "e # pre"] Got show ?thesis by (intro exI [of _ "e # pre"]) simp
    next
      case Deadline
      with Cons.prems wait_loop_step [OF s', of "e # es"]
      have "wait_loop tf ids True o1 (api\<lparr>api_requests := r1\<rparr>) es = Some (api', outs', rest)" by simp
      from Cons.IH [OF this] obtain pre where "es = pre @ rest"
        "wait_loop tf ids True o1 (api\<lparr>api_requests := r1\<rparr>) pre = Some (api', outs', [])" by blast
      with wait_loop_step [OF s', of "e # pre"] Deadline show ?thesis by (intro exI [of _ "e # pre"]) simp
    qed
  qed
qed

lemma deadline_prefix:
  "map Got ms @ [Deadline] = pre @ rest \<Longrightarrow>
   \<exists>ms1 ms2 evs. ms = ms1 @ ms2 \<and> pre = map Got ms1 @ evs \<and> (evs = [] \<or> evs = [Deadline])"
proof (cases rest rule: rev_cases)
  case Nil
  then show "map Got ms @ [Deadline] = pre @ rest \<Longrightarrow> ?thesis"
    by (intro exI [of _ ms] exI [of _ "[]"] exI [of _ "[Deadline]"]) simp
next
  case (snoc ys y)
  then show "map Got ms @ [Deadline] = pre @ rest \<Longrightarrow> ?thesis"
    by (auto simp: map_eq_append_conv intro: exI [of _ "[]"])
qed

section \<open>Properties of the composed system\<close>

text \<open>A concrete node for the examples: identifiers are byte strings, and adding data reports the
  data itself as the path.\<close>

definition sample_node :: "bytes ipfs_node" where
  "sample_node = \<lparr>parse_addr = Ok, parse_addr_with_peer = Ok, peer_of_addr = id, parse_path = Ok,
     parse_peer = Ok, parse_cid = (\<lambda>s. if s = [] then Err [] else Ok s), cid_of_bytes = Ok, nd_addrs = Ok [],
     nd_add_unixfs = (\<lambda>_ d. Ok [ProgressStatus, CompletedStatus d]), nd_add_listening_address = Ok,
     nd_bitswap_stats = Err [], nd_cat_unixfs = (\<lambda>p. Ok [Ok p]), path_to_string = id,
     nd_connect = (\<lambda>_. Ok ()), nd_disconnect = (\<lambda>_. Ok ()), nd_find_peer = (\<lambda>_. Ok []), nd_get_block = Ok,
     nd_get_closest_peers = (\<lambda>_. Ok []), nd_get_providers = (\<lambda>_. Ok []), nd_identity = Ok ([7], []),
     nd_insert_pin = (\<lambda>_ _. Ok ()), nd_addrs_local = Ok [], nd_refs_local = Ok [], nd_peers = Ok [],
     nd_pubsub_publish = (\<lambda>_ _. Ok ()), nd_remove_listening_address = (\<lambda>_. Ok ()), nd_remove_pin = (\<lambda>_ _. Ok ()),
     nd_pubsub_subscribe = Ok, nd_pubsub_subscribed = Ok [], nd_pubsub_unsubscribe = (\<lambda>_. Ok True)\<rparr>"

definition sample_forms :: "bytes text_forms" where
  "sample_forms = \<lparr>peer_to_bytes = id, peer_to_string = id, addr_to_string = id, cid_to_string = id,
     cid_to_bytes = id, key_to_peer_bytes = id, conn_addr_string = id\<rparr>"

text \<open>C9: the two halves never disagree.  In every reachable state each message on its way to the API is for a
  request the API still holds as dispatched, no two are for the same request, the next id is
  unused (the \<open>debug_assert\<close> of \<open>request_start\<close>), and no id the worker still has to accept is in its list
  (the \<open>debug_assert\<close> of \<open>poll\<close>).  So the branch \<open>State mismatch between the API and worker\<close> is dead.\<close>

theorem ipfs_halves_agree:
  assumes "sys_reach nd tf s"
  shows "(\<forall>m\<in>set (to_api (s_worker s)). api_requests (s_api s) (msg_id m) = Some Dispatched) \<and>
    distinct (map msg_id (to_api (s_worker s))) \<and>
    api_requests (s_api s) (next_id (s_api s)) = None \<and>
    (\<forall>r\<in>set (to_worker (s_api s)). fst r \<notin> fst ` set (w_requests (s_worker s)))"
proof -
  have "sys_inv s" using assms by (rule sys_reach_inv)
  then have d: "distinct (flight s)" and f: "set (flight s) = dispatched (s_api s)"
    and b: "\<And>i. api_requests (s_api s) i \<noteq> None \<Longrightarrow> i < next_id (s_api s)" by (auto simp: sys_inv_def dom_def)
  have "msg_id m \<in> dispatched (s_api s)" if "m \<in> set (to_api (s_worker s))" for m
    using that f by (auto simp: flight_def)
  moreover have "api_requests (s_api s) (next_id (s_api s)) = None" using b less_irrefl by blast
  moreover have "fst r \<notin> fst ` set (w_requests (s_worker s))" if "r \<in> set (to_worker (s_api s))" for r
    using that d by (auto simp: flight_def)
  ultimately show ?thesis using d by (simp add: flight_def dispatched_def)
qed

theorem ipfs_halves_agree_witness:
  "let s = (init_sys 5 :: bytes ipfs_sys)\<lparr>s_api := fst (request_start Rq_Identity (new_api 5))\<rparr> in
   to_worker (s_api s) = [(5, Rq_Identity)] \<and> api_requests (s_api s) (next_id (s_api s)) = None"
proof -
  let ?s = "(init_sys 5 :: bytes ipfs_sys)\<lparr>s_api := fst (request_start Rq_Identity (new_api 5))\<rparr>"
  have "request_start Rq_Identity (s_api (init_sys 5)) = (fst (request_start Rq_Identity (new_api 5 :: bytes ipfs_api)), Ok 5)"
    by (simp add: init_sys_def request_start_def checked_add_def new_api_def)
  from sys_step.start [OF this] have "sys_reach sample_node sample_forms ?s"
    by (rule sys_reach.step [OF sys_reach.init])
  from ipfs_halves_agree [OF this] show ?thesis
    by (simp add: Let_def request_start_def checked_add_def new_api_def)
qed

text \<open>C8: a request that was started is answered.  Start a request in any reachable state, poll the worker
  until it has taken everything from its channel, with every future ready; then a wait for the
  id returns, with the response of the node translated for the runtime, or its error.\<close>

theorem ipfs_request_answered:
  assumes "sys_reach nd tf s" "request_start rq (s_api s) = (api, Ok i)"
  shows "\<exists>s' api' rest. work_all nd (length (to_worker (s_api s)) + 2) (s\<lparr>s_api := api\<rparr>) = Done s' \<and>
    response_wait tf [i] (s_api s') (map Got (to_api (s_worker s'))) = Some (api', [answer_status nd tf rq], rest)"
proof -
  let ?s = "s\<lparr>s_api := api\<rparr>"
  have inv: "sys_inv ?s"
    using assms(1) sys_step.start [OF assms(2)] by (metis sys_reach.step sys_reach_inv)
  from assms(2) have tw: "to_worker api = to_worker (s_api s) @ [(i, rq)]"
    by (cases rule: request_start_cases) auto
  obtain s' where s': "work_all nd (length (to_worker (s_api s)) + 2) ?s = Done s'"
    "worker_answer nd ` (set (to_worker api) \<union> set (w_requests (s_worker s))) \<union> set (to_api (s_worker s))
      \<subseteq> set (to_api (s_worker s'))"
    using work_all_drains [of ?s "length (to_worker (s_api s)) + 2" nd] tw by auto
  from s'(2) tw have "worker_answer nd (i, rq) \<in> set (to_api (s_worker s'))" by auto
  from wait_gets_answer [OF work_all_inv [OF s'(1) inv] this, of tf] s'(1) show ?thesis by blast
qed

theorem ipfs_request_answered_witness:
  "\<exists>s' api' rest. work_all sample_node 2 ((init_sys 5)\<lparr>s_api := fst (request_start (Rq_AddBytes [1, 2] 0) (new_api 5))\<rparr>) = Done s' \<and>
    response_wait sample_forms [5] (s_api s') (map Got (to_api (s_worker s'))) =
      Some (api', [St_Finished (Rs_AddBytes [1, 2])], rest)"
proof -
  have start: "request_start (Rq_AddBytes [1, 2] 0) (s_api (init_sys 5)) =
      (fst (request_start (Rq_AddBytes [1, 2] 0) (new_api 5)), Ok 5)"
    by (simp add: init_sys_def request_start_def checked_add_def new_api_def)
  have node: "answer_status sample_node sample_forms (Rq_AddBytes [1, 2] 0) = St_Finished (Rs_AddBytes [1, 2])"
    by (simp add: answer_status_def sample_node_def sample_forms_def ipfs_add_def add_status_def str_bytes_def)
  have len: "length (to_worker (s_api (init_sys 5))) + 2 = 2" by (simp add: init_sys_def new_api_def)
  show ?thesis
    using ipfs_request_answered [OF sys_reach.init start, of sample_node sample_forms] unfolding node len .
qed


text \<open>C16: a poll of the worker polls every request of its list exactly once although it removes and pushes back
  while iterating: each ready request has exactly one message sent, built from the node's answer, each
  other one stays, at most one new request is taken from the channel, and no index is out of range.\<close>

theorem poll_answers_ready_requests:
  "\<exists>me' r. poll nd ready is_open inbox me = Done (tl inbox, me', r) \<and>
    mset (w_requests me') = mset (filter (\<lambda>q. \<not> ready (fst q)) (w_requests me)) + mset (take 1 inbox) \<and>
    mset (to_api me') = mset (to_api me) + mset (map (worker_answer nd) (filter (\<lambda>q. ready (fst q)) (w_requests me))) \<and>
    (r = Ready \<longleftrightarrow> inbox = [] \<and> \<not> is_open)"
proof -
  obtain me1 where "poll nd ready is_open inbox me = Done (tl inbox,
      me1\<lparr>w_requests := w_requests me1 @ take 1 inbox\<rparr>, if inbox = [] \<and> \<not> is_open then Ready else Pending)"
    "mset (w_requests me1) = mset (filter (\<lambda>r. \<not> ready (fst r)) (w_requests me))"
    "mset (to_api me1) = mset (to_api me) + mset (map (worker_answer nd) (filter (\<lambda>r. ready (fst r)) (w_requests me)))"
    by (rule poll_total)
  then show ?thesis by simp
qed

text \<open>C17: a wait with a deadline comes back, with one status per id, whatever the worker sends.  It consumes a
  prefix of the messages; exactly the requests that prefix answers stop being dispatched, and a request that is
  still dispatched afterwards is reported as \<open>DeadlineReached\<close>, so it can be waited for again.\<close>

theorem response_wait_deadline:
  "\<exists>ms1 ms2 api' outs rest. ms = ms1 @ ms2 \<and>
    response_wait tf ids api (map Got ms @ [Deadline]) = Some (api', outs, rest) \<and> length outs = length ids \<and>
    next_id api' = next_id api \<and> to_worker api' = to_worker api \<and>
    dispatched api' = dispatched api - msg_id ` set ms1 \<and>
    list_all2 (\<lambda>i out. i \<in> dispatched api' \<longrightarrow> out = St_DeadlineReached) ids outs"
proof -
  obtain api' outs rest where w: "response_wait tf ids api (map Got ms @ [Deadline]) = Some (api', outs, rest)"
    using response_wait_returns [of "map Got ms @ [Deadline]" tf ids api] by auto
  obtain pre where pre: "map Got ms @ [Deadline] = pre @ rest" "response_wait tf ids api pre = Some (api', outs, [])"
    using wait_loop_prefix [OF w [unfolded response_wait_def]] by (auto simp: response_wait_def)
  obtain ms1 ms2 evs where ms: "ms = ms1 @ ms2" "pre = map Got ms1 @ evs" "evs = [] \<or> evs = [Deadline]"
    using deadline_prefix [OF pre(1)] by blast
  note eff = response_wait_effect [OF pre(2) [unfolded ms(2)] ms(3)]
  have "list_all2 (\<lambda>i out. i \<in> dispatched api' \<longrightarrow> out = St_DeadlineReached) ids outs"
    using eff(5) by (simp add: untouched_def [abs_def] dispatched_def)
  with w response_wait_length [OF w] ms(1) eff(1,2,4) show ?thesis by blast
qed

theorem response_wait_deadline_witness:
  "\<exists>api' outs rest. response_wait sample_forms [5] (fst (request_start Rq_Identity (new_api 5))) [Deadline] =
     Some (api', outs, rest) \<and> outs = [St_DeadlineReached] \<and> dispatched api' = {5}"
proof -
  let ?api = "fst (request_start Rq_Identity (new_api 5)) :: bytes ipfs_api"
  have "dispatched ?api = {5}"
    by (auto simp: dispatched_def request_start_def checked_add_def new_api_def)
  with response_wait_deadline [of "[]" sample_forms "[5]" ?api] show ?thesis
    by (auto simp: list_all2_Cons1)
qed

text \<open>A response is handed out once.  The first wait for an answered request takes the response and leaves
  the placeholder; from then on a wait for the same id returns at once with \<open>DeadlineReached\<close>, although
  no deadline passed.\<close>

theorem response_handed_out_once:
  assumes "api_requests api i = Some (Response v)" "v \<noteq> Nt_Success"
  shows "\<exists>api'. response_wait tf [i] api evs = Some (api', [St_Finished (to_response tf v)], evs) \<and>
    response_wait tf [i] api' evs' = Some (api', [St_DeadlineReached], evs')"
proof -
  let ?r = "(api_requests api)(i \<mapsto> Response Nt_Success)"
  let ?api = "api\<lparr>api_requests := ?r\<rparr>"
  have s1: "scan tf [i] [St_DeadlineReached] (api_requests api) = ([St_Finished (to_response tf v)], ?r, False)"
    using assms by (cases v) (simp_all add: scan_one_def Let_def)
  have s2: "scan tf [i] [St_DeadlineReached] (api_requests ?api) = ([St_DeadlineReached], ?r, False)"
    by (simp add: scan_one_def)
  have purge: "purge [i] [St_Finished (to_response tf v)] ?r = ?r" "purge [i] [St_DeadlineReached] ?r = ?r"
    by (auto simp: purge_def)
  have "response_wait tf [i] api evs = Some (?api, [St_Finished (to_response tf v)], evs)"
    using wait_loop_done [OF s1, of False evs] by (simp add: response_wait_def purge)
  moreover have "response_wait tf [i] ?api evs' = Some (?api, [St_DeadlineReached], evs')"
    using wait_loop_done [OF s2, of False evs'] by (simp add: response_wait_def purge)
  ultimately show ?thesis by blast
qed

theorem response_handed_out_once_witness:
  "\<exists>api'. response_wait sample_forms [5] \<lparr>next_id = 6, api_requests = [5 \<mapsto> Response (Nt_CatBytes [1])], to_worker = []\<rparr> [] =
      Some (api', [St_Finished (Rs_CatBytes [1])], []) \<and>
    response_wait sample_forms [5] api' [] = Some (api', [St_DeadlineReached], [])"
  using response_handed_out_once [of "\<lparr>next_id = 6, api_requests = [5 \<mapsto> Response (Nt_CatBytes [1])], to_worker = []\<rparr>"
    5 "Nt_CatBytes [1]" sample_forms "[]" "[]"] by simp

text \<open>The only request kinds the runtime gets \<open>Success\<close> for are those with nothing to report.  Removing
  a block does nothing on the node and is answered with an empty \<open>RemoveBlock\<close>, never with \<open>Success\<close>.\<close>

theorem success_responses:
  assumes "run_ipfs_request nd rq = Ok v"
  shows "to_response tf v = Rs_Success \<longleftrightarrow>
    (case rq of Rq_AddListeningAddr _ \<Rightarrow> True | Rq_Connect _ \<Rightarrow> True | Rq_Disconnect _ \<Rightarrow> True | Rq_GetBlock _ \<Rightarrow> True
     | Rq_InsertPin _ _ \<Rightarrow> True | Rq_Publish _ _ \<Rightarrow> True | Rq_RemoveListeningAddr _ \<Rightarrow> True | Rq_RemovePin _ _ \<Rightarrow> True
     | Rq_Subscribe _ \<Rightarrow> True | Rq_SubscriptionList \<Rightarrow> True | Rq_Unsubscribe _ \<Rightarrow> True | _ \<Rightarrow> False)"
  using assms by (cases rq) (auto simp: try_bind_Ok_iff)

theorem success_responses_witness:
  "run_ipfs_request sample_node Rq_RemoveBlock = Ok Nt_RemoveBlock \<and> to_response sample_forms Nt_RemoveBlock \<noteq> Rs_Success"
  using success_responses [of sample_node Rq_RemoveBlock Nt_RemoveBlock sample_forms] by simp


section \<open>\<open>PendingRequest\<close> over the host interface\<close>

text \<open>What \<open>PendingRequest\<close> relies on: an id is only given out when IPFS is there, and while it is there a
  wait returns one status per id.\<close>

locale ipfs_host_laws =
  fixes h :: "'w ipfs_host" and up :: "'w \<Rightarrow> bool"
  assumes start_up: "h_start h rq w = (w', Ok i) \<Longrightarrow> up w'"
    and wait_len: "up w \<Longrightarrow> h_wait_until h ids t w = (w', sts) \<Longrightarrow> length sts = length ids"
    and wait_up: "up w \<Longrightarrow> h_wait_until h ids t w = (w', sts) \<Longrightarrow> up w'"
begin

lemma new_up: "pending_new h rq w = (w', Ok p) \<Longrightarrow> up w' \<and> pr_request p = rq"
  by (auto simp: pending_new_def split: prod.splits result.splits dest: start_up)

lemma try_wait_all_length:
  "up w \<Longrightarrow> try_wait_all h ps t w = (w', rs) \<Longrightarrow> length rs = length ps \<and> up w'"
  using wait_up [of w "map pr_id ps" t] wait_len [of w "map pr_id ps" t]
  by (auto simp: try_wait_all_def Let_def split: prod.splits)

lemma try_wait_done:
  assumes "up w"
  obtains w' r where "try_wait h p t w = Done (w', r)" "up w'" "\<And>q. r = Err q \<Longrightarrow> q = p"
proof -
  obtain w' sts where s: "h_wait_until h [pr_id p] t w = (w', sts)"
    by (cases "h_wait_until h [pr_id p] t w") auto
  with wait_len [OF assms this] obtain st where sts: "sts = [st]"
    by (auto simp: length_Suc_conv)
  have "try_wait h p t w = Done (w', status_result st p)"
    by (simp add: try_wait_def try_wait_all_def s sts)
  moreover have "status_result st p = Err q \<Longrightarrow> q = p" for q
    by (simp add: status_result_def split: ipfs_request_status.splits)
  ultimately show ?thesis using that wait_up [OF assms s] by blast
qed

end

lemma ipfs_response_wait_Some:
  assumes "w_ipfs w = Some api"
  obtains api' outs where "ipfs_response_wait tf ids (Some t) w =
      Some (w\<lparr>w_ipfs := Some api', w_events := tl (w_events w)\<rparr>, outs)" "length outs = length ids"
proof -
  obtain api' outs rest where r: "response_wait tf ids api (next_events w @ [Deadline]) = Some (api', outs, rest)"
    using response_wait_returns [of "next_events w @ [Deadline]" tf ids api] by auto
  with assms that response_wait_length [OF r] show ?thesis by (simp add: ipfs_response_wait_def)
qed

interpretation api_laws: ipfs_host_laws "api_host tf" "\<lambda>w. w_ipfs w \<noteq> None" for tf
proof unfold_locales
  fix rq w w' i
  assume "h_start (api_host tf) rq w = (w', Ok i)"
  then show "w_ipfs w' \<noteq> None"
    by (auto simp: api_host_def ipfs_request_start_def split: option.splits prod.splits)
next
  fix w ids t w' sts
  assume up: "w_ipfs w \<noteq> None" and r: "h_wait_until (api_host tf) ids t w = (w', sts)"
  then obtain api where "w_ipfs w = Some api" by auto
  then obtain api' outs where "ipfs_response_wait tf ids (Some t) w =
      Some (w\<lparr>w_ipfs := Some api', w_events := tl (w_events w)\<rparr>, outs)" "length outs = length ids"
    by (rule ipfs_response_wait_Some)
  with r show "length sts = length ids" "w_ipfs w' \<noteq> None" by (auto simp: api_host_def)
qed



text \<open>C18: a request that missed its deadline is not lost.  After a wait that saw nothing from the worker, a
  second wait that receives the worker's message for the request returns that answer under the request's id.\<close>

theorem deadline_then_answer:
  assumes "pending_new (api_host tf) rq w = (w1, Ok p)" "w_events w1 = [] # [Got m] # evs"
    and "msg_id m = pr_id p" "proper_msg m"
  shows "\<exists>w2 w3. try_wait (api_host tf) p t w1 = Done (w2, Err p) \<and>
    try_wait (api_host tf) p t' w2 = Done (w3, status_result (msg_status tf m) p)"
proof -
  obtain api where api: "w_ipfs w1 = Some api" "api_requests api (pr_id p) = Some Dispatched"
    using assms(1)
    by (auto simp: pending_new_def api_host_def ipfs_request_start_def request_start_def Let_def
        split: prod.splits result.splits option.splits)
  let ?i = "pr_id p" and ?w2 = "w1\<lparr>w_ipfs := Some api, w_events := [Got m] # evs\<rparr>"
  have s: "scan tf [?i] [St_DeadlineReached] (api_requests api) = ([St_DeadlineReached], api_requests api, True)"
    using api(2) by (simp add: scan_one_def)
  have purge: "purge [?i] [St_DeadlineReached] (api_requests api) = api_requests api" by (simp add: purge_def)
  have "response_wait tf [?i] api [Deadline] = Some (api, [St_DeadlineReached], [])"
    using wait_loop_step [OF s, of False "[Deadline]"] wait_loop_done [OF s, of True "[]"]
    by (simp add: response_wait_def purge)
  then have first: "try_wait (api_host tf) p t w1 = Done (?w2, Err p)"
    by (simp add: try_wait_def try_wait_all_def api_host_def ipfs_response_wait_def api(1) next_events_def assms(2)
        status_result_def)
  have "slot tf (\<lambda>_. msg_status tf m) [m] (api_requests api) ?i St_DeadlineReached"
    using api(2) assms(3) by (simp add: slot_def)
  then obtain api' rest where
    "response_wait tf [?i] api (map Got [m] @ [Deadline]) = Some (api', [msg_status tf m], rest)"
    using wait_loop_answers [of "[?i]" "[St_DeadlineReached]" tf "\<lambda>_. msg_status tf m" "[m]" api "[Deadline]"]
      api(2) assms(3,4) by (auto simp: response_wait_def)
  then have "\<exists>w3. try_wait (api_host tf) p t' ?w2 = Done (w3, status_result (msg_status tf m) p)"
    by (simp add: try_wait_def try_wait_all_def api_host_def ipfs_response_wait_def next_events_def)
  with first show ?thesis by blast
qed

theorem deadline_then_answer_witness:
  "\<exists>w2 w3. try_wait (api_host sample_forms) \<lparr>pr_id = 5, pr_request = Rq_Identity\<rparr> 100
     \<lparr>w_ipfs = Some (fst (request_start Rq_Identity (new_api 5))), w_events = [[], [Got (W_Response 5 (Nt_CatBytes [1]))]]\<rparr> =
       Done (w2, Err \<lparr>pr_id = 5, pr_request = Rq_Identity\<rparr>) \<and>
     try_wait (api_host sample_forms) \<lparr>pr_id = 5, pr_request = Rq_Identity\<rparr> 200 w2 =
       Done (w3, Ok (Ok \<lparr>ra_id = 5, ra_response = Rs_CatBytes [1]\<rparr>))"
proof -
  have "pending_new (api_host sample_forms) Rq_Identity
       \<lparr>w_ipfs = Some (new_api 5), w_events = [[], [Got (W_Response 5 (Nt_CatBytes [1]))]]\<rparr> =
      (\<lparr>w_ipfs = Some (fst (request_start Rq_Identity (new_api 5))), w_events = [[], [Got (W_Response 5 (Nt_CatBytes [1]))]]\<rparr>,
       Ok \<lparr>pr_id = 5, pr_request = Rq_Identity\<rparr>)"
    by (simp add: pending_new_def api_host_def ipfs_request_start_def request_start_def checked_add_def new_api_def)
  from deadline_then_answer [OF this, of "W_Response 5 (Nt_CatBytes [1])" "[]" 100 200] show ?thesis
    by (simp add: status_result_def)
qed

end
