(* ===== verification/Ipfs_Core.thy ===== *)
theory Ipfs_Core
  imports Offchain_Db Ipfs_System
begin

text \<open>
  The pallet \<open>frame/tds-ipfs-core\<close>: commands and command requests, the storage helpers of
  \<open>storage.rs\<close> that hand data from a block to the off-chain workers, and the processing of a
  command request in a worker (\<open>lib.rs\<close>).  The SCALE codecs of the types that are stored are parameters; the
  worker talks to IPFS through the host functions of \<open>Ipfs_Api\<close> and to the off-chain database of
  \<open>Offchain_Db\<close>.
\<close>

section \<open>Types\<close>

record offchain_data =
  od_data :: bytes
  od_meta_data :: bytes

definition new_offchain_data :: "bytes \<Rightarrow> bytes \<Rightarrow> offchain_data" where
  "new_offchain_data data meta_data = \<lparr>od_data = data, od_meta_data = meta_data\<rparr>"

record ipfs_file =
  if_cid :: bytes
  if_meta_data :: bytes

definition new_ipfs_file :: "bytes \<Rightarrow> bytes \<Rightarrow> ipfs_file" where
  "new_ipfs_file cid meta_data = \<lparr>if_cid = cid, if_meta_data = meta_data\<rparr>"

datatype ipfs_command =
    ConnectTo bytes
  | DisconnectFrom bytes
  | AddBytes byte
  | CatBytes bytes
  | InsertPin bytes
  | RemoveBlock bytes
  | RemovePin bytes
  | FindPeer bytes
  | GetProviders bytes

text \<open>\<open>mem::discriminant\<close>.\<close>

primrec discriminant :: "ipfs_command \<Rightarrow> nat" where
  "discriminant (ConnectTo _) = 0"
| "discriminant (DisconnectFrom _) = 1"
| "discriminant (AddBytes _) = 2"
| "discriminant (CatBytes _) = 3"
| "discriminant (InsertPin _) = 4"
| "discriminant (RemoveBlock _) = 5"
| "discriminant (RemovePin _) = 6"
| "discriminant (FindPeer _) = 7"
| "discriminant (GetProviders _) = 8"

definition eq_type :: "ipfs_command \<Rightarrow> ipfs_command \<Rightarrow> bool" where
  "eq_type a b \<longleftrightarrow> discriminant a = discriminant b"

record 'acc command_request =
  cr_identifier :: bytes
  cr_requester :: 'acc
  cr_ipfs_commands :: "ipfs_command list"

datatype core_error = CannotCreateRequest | RequestTimeout | RequestFailed | FailedToAcquireLock

text \<open>The codecs of the stored types: block numbers, \<open>OffchainData\<close> and lists of identifiers.\<close>

record core_codecs =
  bn_codec :: "u32 codec"
  data_codec :: "offchain_data codec"
  ids_codec :: "bytes list codec"

definition generate_id :: "(bytes \<Rightarrow> bytes) \<Rightarrow> core_codecs \<Rightarrow> bytes \<Rightarrow> u32 \<Rightarrow> bytes" where
  "generate_id blake2_256 cc random block_number = blake2_256 (random @ encode (bn_codec cc) block_number)"

section \<open>\<open>storage.rs\<close>\<close>

definition OFFCHAIN_KEY_PREFIX :: bytes where
  "OFFCHAIN_KEY_PREFIX = str_bytes ''ipfs_core::indexing1''"

definition offchain_data_key :: "core_codecs \<Rightarrow> u32 \<Rightarrow> bytes" where
  "offchain_data_key cc block_number = OFFCHAIN_KEY_PREFIX @ str_bytes ''/'' @ encode (bn_codec cc) block_number"

text \<open>What the storage helpers can touch: the overlay of the block being executed (the off-chain index
  of \<open>sp_io::offchain_index\<close>) and, in a worker, the off-chain database.\<close>

record 's core_io =
  io_overlay :: overlayed_changes
  io_db :: "'s db_ext"

definition offchain_index_set :: "bytes \<Rightarrow> bytes \<Rightarrow> overlayed_changes \<Rightarrow> overlayed_changes exec" where
  "offchain_index_set key v oc = set_offchain_storage key (Some v) oc"

definition offchain_index_clear :: "bytes \<Rightarrow> overlayed_changes \<Rightarrow> overlayed_changes exec" where
  "offchain_index_clear key oc = set_offchain_storage key None oc"

definition store_offchain_data ::
  "'s storage_ops \<Rightarrow> 'a codec \<Rightarrow> bytes \<Rightarrow> 'a \<Rightarrow> bool \<Rightarrow> 's core_io \<Rightarrow> 's core_io exec" where
  "store_offchain_data ops c key data is_in_offchain_context io =
     (if is_in_offchain_context
      then bind_exec (sv_set ops c (persistent key) data (io_db io)) (\<lambda>db. Done (io\<lparr>io_db := db\<rparr>))
      else bind_exec (offchain_index_set key (encode c data) (io_overlay io)) (\<lambda>oc. Done (io\<lparr>io_overlay := oc\<rparr>)))"

definition store_cid_data_for_key ::
  "'s storage_ops \<Rightarrow> core_codecs \<Rightarrow> bytes \<Rightarrow> offchain_data \<Rightarrow> bool \<Rightarrow> 's core_io \<Rightarrow> 's core_io exec" where
  "store_cid_data_for_key ops cc key cid_data is_in_offchain_context io =
     store_offchain_data ops (data_codec cc) key cid_data is_in_offchain_context io"

definition store_cid_data ::
  "'s storage_ops \<Rightarrow> core_codecs \<Rightarrow> u32 \<Rightarrow> offchain_data \<Rightarrow> bool \<Rightarrow> 's core_io \<Rightarrow> 's core_io exec" where
  "store_cid_data ops cc block_number cid_data is_in_offchain_context io =
     store_cid_data_for_key ops cc (offchain_data_key cc block_number) cid_data is_in_offchain_context io"

definition store_cid_data_for_values ::
  "'s storage_ops \<Rightarrow> core_codecs \<Rightarrow> u32 \<Rightarrow> bytes \<Rightarrow> bytes \<Rightarrow> bool \<Rightarrow> 's core_io \<Rightarrow> 's core_io exec" where
  "store_cid_data_for_values ops cc block_number cid meta_data is_in_offchain_context io =
     store_cid_data ops cc block_number (new_offchain_data cid meta_data) is_in_offchain_context io"

definition offchain_storage_data_for_key ::
  "'s storage_ops \<Rightarrow> 'a codec \<Rightarrow> bytes \<Rightarrow> 's db_ext \<Rightarrow> ('a option, storage_retrieval_error) result exec" where
  "offchain_storage_data_for_key ops c key db = sv_get ops c (persistent key) db"

definition read_cid_data_for_key ::
  "'s storage_ops \<Rightarrow> core_codecs \<Rightarrow> bytes \<Rightarrow> 's db_ext \<Rightarrow> (offchain_data option, storage_retrieval_error) result exec" where
  "read_cid_data_for_key ops cc key db = offchain_storage_data_for_key ops (data_codec cc) key db"

definition read_cid_data_for_block_number ::
  "'s storage_ops \<Rightarrow> core_codecs \<Rightarrow> u32 \<Rightarrow> 's db_ext \<Rightarrow> (offchain_data option, storage_retrieval_error) result exec" where
  "read_cid_data_for_block_number ops cc block_number db =
     offchain_storage_data_for_key ops (data_codec cc) (offchain_data_key cc block_number) db"

definition read_cid_for_block_number ::
  "'s storage_ops \<Rightarrow> core_codecs \<Rightarrow> u32 \<Rightarrow> 's db_ext \<Rightarrow> (offchain_data, storage_retrieval_error) result exec" where
  "read_cid_for_block_number ops cc block_number db =
     bind_exec (read_cid_data_for_block_number ops cc block_number db) (\<lambda>r.
     case r of
       Ok data \<Rightarrow> bind_exec (expect data) (\<lambda>cid_data. Done (Ok cid_data))
     | Err error \<Rightarrow> Done (Err error))"

definition clear_offchain_storage_data_for_key ::
  "'s storage_ops \<Rightarrow> bytes \<Rightarrow> bool \<Rightarrow> 's core_io \<Rightarrow> 's core_io exec" where
  "clear_offchain_storage_data_for_key ops key is_in_offchain_context io =
     (if is_in_offchain_context
      then bind_exec (sv_clear ops (persistent key) (io_db io)) (\<lambda>db. Done (io\<lparr>io_db := db\<rparr>))
      else bind_exec (offchain_index_clear key (io_overlay io)) (\<lambda>oc. Done (io\<lparr>io_overlay := oc\<rparr>)))"

section \<open>Processing a command request\<close>

text \<open>Send one request to the IPFS node and wait up to 1200 ms.\<close>

definition core_ipfs_request ::
  "'w ipfs_host \<Rightarrow> ('w \<Rightarrow> timestamp) \<Rightarrow> ipfs_request \<Rightarrow> 'w \<Rightarrow> ('w \<times> (ipfs_response, core_error) result) exec" where
  "core_ipfs_request h now request w =
     (case pending_new h request w of
        (w, Err _) \<Rightarrow> Done (w, Err CannotCreateRequest)
      | (w, Ok p) \<Rightarrow>
          bind_exec (try_wait h p (timestamp_add (now w) 1200) w) (\<lambda>(w, r).
          Done (w, case r of
              Err _ \<Rightarrow> Err RequestTimeout
            | Ok (Ok a) \<Rightarrow> Ok (ra_response a)
            | Ok (Err _) \<Rightarrow> Err RequestFailed)))"

definition multiple_bytes_to_utf8_safe_bytes :: "bytes list \<Rightarrow> bytes" where
  "multiple_bytes_to_utf8_safe_bytes response =
     fold (\<lambda>res bytes. case from_utf8 res of
         Ok s \<Rightarrow> if length bytes = 0 then s else join (str_bytes '', '') [bytes, s]
       | Err _ \<Rightarrow> bytes) response []"

definition addresses_to_utf8_safe_bytes :: "opaque_multiaddr list \<Rightarrow> bytes" where
  "addresses_to_utf8_safe_bytes addresses = multiple_bytes_to_utf8_safe_bytes addresses"

primrec parse_response :: "ipfs_response \<Rightarrow> bytes \<Rightarrow> bytes" where
  "parse_response (Rs_CatBytes bytes_received) acc = (if 1 < length bytes_received then bytes_received else acc)"
| "parse_response (Rs_AddBytes cid) acc = cid"
| "parse_response (Rs_RemoveBlock cid) acc = cid"
| "parse_response (Rs_GetClosestPeers peer_ids) acc = multiple_bytes_to_utf8_safe_bytes peer_ids"
| "parse_response (Rs_GetProviders peer_ids) acc = multiple_bytes_to_utf8_safe_bytes peer_ids"
| "parse_response (Rs_FindPeer addresses) acc = addresses_to_utf8_safe_bytes addresses"
| "parse_response (Rs_LocalAddrs addresses) acc = addresses_to_utf8_safe_bytes addresses"
| "parse_response (Rs_Peers addresses) acc = addresses_to_utf8_safe_bytes addresses"
| "parse_response (Rs_LocalRefs refs) acc = multiple_bytes_to_utf8_safe_bytes refs"
| "parse_response (Rs_Addrs _) acc = acc"
| "parse_response (Rs_BitswapStats _) acc = acc"
| "parse_response (Rs_Identity _ _) acc = acc"
| "parse_response Rs_Success acc = acc"

definition ocw_parse_ipfs_response :: "ipfs_response list \<Rightarrow> bytes" where
  "ocw_parse_ipfs_response responses = fold parse_response responses []"

text \<open>The closure of \<open>acquire_command_request_lock\<close>.\<close>

definition lock_closure :: "u32 \<Rightarrow> (u32 option, storage_retrieval_error) result \<Rightarrow> (u32, core_error) result" where
  "lock_closure block_number command_identifier =
     (case command_identifier of
        Ok (Some block) \<Rightarrow> if block_number \<noteq> block then Err FailedToAcquireLock else Ok block
      | _ \<Rightarrow> Ok block_number)"

definition acquire_command_request_lock ::
  "'s storage_ops \<Rightarrow> core_codecs \<Rightarrow> u32 \<Rightarrow> 'acc command_request \<Rightarrow> ('s db_ext \<Rightarrow> 's db_ext) \<Rightarrow> 's db_ext \<Rightarrow>
   ('s db_ext \<times> (u32, (u32, core_error) mutate_storage_error) result) exec" where
  "acquire_command_request_lock ops cc block_number command_request env db =
     sv_mutate ops (bn_codec cc) (persistent (cr_identifier command_request)) (lock_closure block_number) env db"

definition processed_commands ::
  "'s storage_ops \<Rightarrow> core_codecs \<Rightarrow> 'acc command_request \<Rightarrow> bytes \<Rightarrow> ('s db_ext \<Rightarrow> 's db_ext) \<Rightarrow> 's db_ext \<Rightarrow>
   ('s db_ext \<times> (bytes list, (bytes list, unit) mutate_storage_error) result) exec" where
  "processed_commands ops cc command_request persistence_key env db =
     sv_mutate ops (ids_codec cc) (persistent persistence_key)
       (\<lambda>r. case r of
           Ok (Some commands) \<Rightarrow> Ok (commands @ [cr_identifier command_request])
         | _ \<Rightarrow> Ok [cr_identifier command_request]) env db"

text \<open>What one command does to the result: \<open>Some\<close> response that is pushed, or \<open>None\<close> for a command that failed;
  \<open>Err\<close> when the whole function returns early.\<close>

definition expect_success :: "(ipfs_response, core_error) result \<Rightarrow> ipfs_response option" where
  "expect_success r = (if r = Ok Rs_Success then Some Rs_Success else None)"

fun run_command ::
  "'s storage_ops \<Rightarrow> core_codecs \<Rightarrow> 'w ipfs_host \<Rightarrow> ('w \<Rightarrow> timestamp) \<Rightarrow> u32 \<Rightarrow> 's db_ext \<Rightarrow> ipfs_command \<Rightarrow> 'w \<Rightarrow>
   ('w \<times> (ipfs_response option, core_error) result) exec" where
  "run_command ops cc h now bn db (ConnectTo address) w =
     bind_exec (core_ipfs_request h now (Rq_Connect address) w) (\<lambda>(w, r). Done (w, Ok (expect_success r)))"
| "run_command ops cc h now bn db (DisconnectFrom address) w =
     bind_exec (core_ipfs_request h now (Rq_Disconnect address) w) (\<lambda>(w, r). Done (w, Ok (expect_success r)))"
| "run_command ops cc h now bn db (AddBytes version) w =
     bind_exec (read_cid_for_block_number ops cc bn db) (\<lambda>d.
     case d of
       Err _ \<Rightarrow> Done (w, Err RequestFailed)
     | Ok data \<Rightarrow>
         bind_exec (core_ipfs_request h now (Rq_AddBytes (od_data data) version) w) (\<lambda>(w, r).
         Done (w, Ok (case r of Ok (Rs_AddBytes cid) \<Rightarrow> Some (Rs_AddBytes cid) | _ \<Rightarrow> None))))"
| "run_command ops cc h now bn db (CatBytes cid) w =
     bind_exec (core_ipfs_request h now (Rq_CatBytes cid) w) (\<lambda>(w, r).
     Done (w, Ok (case r of Ok (Rs_CatBytes b) \<Rightarrow> Some (Rs_CatBytes b) | _ \<Rightarrow> None)))"
| "run_command ops cc h now bn db (InsertPin cid) w =
     bind_exec (core_ipfs_request h now (Rq_InsertPin cid False) w) (\<lambda>(w, r). Done (w, Ok (expect_success r)))"
| "run_command ops cc h now bn db (RemovePin cid) w =
     bind_exec (core_ipfs_request h now (Rq_RemovePin cid False) w) (\<lambda>(w, r). Done (w, Ok (expect_success r)))"
| "run_command ops cc h now bn db (RemoveBlock _) w =
     bind_exec (core_ipfs_request h now Rq_RemoveBlock w) (\<lambda>(w, r). Done (w, Ok (expect_success r)))"
| "run_command ops cc h now bn db (FindPeer peer_id) w =
     bind_exec (core_ipfs_request h now (Rq_FindPeer peer_id) w) (\<lambda>(w, r).
     Done (w, Ok (case r of Ok (Rs_FindPeer a) \<Rightarrow> Some (Rs_FindPeer a) | _ \<Rightarrow> None)))"
| "run_command ops cc h now bn db (GetProviders cid) w =
     bind_exec (core_ipfs_request h now (Rq_GetProviders cid) w) (\<lambda>(w, r).
     Done (w, Ok (case r of Ok (Rs_GetProviders p) \<Rightarrow> Some (Rs_GetProviders p) | _ \<Rightarrow> None)))"

primrec run_commands ::
  "'s storage_ops \<Rightarrow> core_codecs \<Rightarrow> 'w ipfs_host \<Rightarrow> ('w \<Rightarrow> timestamp) \<Rightarrow> u32 \<Rightarrow> 's db_ext \<Rightarrow> ipfs_command list \<Rightarrow>
   ipfs_response list \<Rightarrow> 'w \<Rightarrow> ('w \<times> (ipfs_response list, core_error) result) exec" where
  "run_commands ops cc h now bn db [] result w = Done (w, Ok result)"
| "run_commands ops cc h now bn db (c # cs) result w =
     bind_exec (run_command ops cc h now bn db c w) (\<lambda>(w, r).
     case r of
       Err e \<Rightarrow> Done (w, Err e)
     | Ok pushed \<Rightarrow>
         run_commands ops cc h now bn db cs
           (case pushed of Some x \<Rightarrow> result @ [x] | None \<Rightarrow> result) w)"

text \<open>\<open>env1\<close> and \<open>env2\<close> are what other workers do to the database while the lock and the list of processed
  commands are updated.\<close>

definition process_ipfs_command ::
  "'s storage_ops \<Rightarrow> core_codecs \<Rightarrow> 'w ipfs_host \<Rightarrow> ('w \<Rightarrow> timestamp) \<Rightarrow> ('s db_ext \<Rightarrow> 's db_ext) \<Rightarrow>
   ('s db_ext \<Rightarrow> 's db_ext) \<Rightarrow> u32 \<Rightarrow> 'acc command_request \<Rightarrow> bytes \<Rightarrow> 's db_ext \<times> 'w \<Rightarrow>
   (('s db_ext \<times> 'w) \<times> (ipfs_response list, core_error) result) exec" where
  "process_ipfs_command ops cc h now env1 env2 bn command_request persistence_key st =
     bind_exec (acquire_command_request_lock ops cc bn command_request env1 (fst st)) (\<lambda>(db, acquire_lock).
     case acquire_lock of
       Err _ \<Rightarrow> Done ((db, snd st), Err FailedToAcquireLock)
     | Ok _ \<Rightarrow>
         bind_exec (run_commands ops cc h now bn db (cr_ipfs_commands command_request) [] (snd st)) (\<lambda>(w, r).
         case r of
           Err e \<Rightarrow> Done ((db, w), Err e)
         | Ok result \<Rightarrow>
             bind_exec (processed_commands ops cc command_request persistence_key env2 db) (\<lambda>(db, _).
             Done ((db, w), Ok result))))"

definition ocw_process_command ::
  "'s storage_ops \<Rightarrow> core_codecs \<Rightarrow> 'w ipfs_host \<Rightarrow> ('w \<Rightarrow> timestamp) \<Rightarrow> ('s db_ext \<Rightarrow> 's db_ext) \<Rightarrow>
   ('s db_ext \<Rightarrow> 's db_ext) \<Rightarrow> u32 \<Rightarrow> 'acc command_request \<Rightarrow> bytes \<Rightarrow> 's db_ext \<times> 'w \<Rightarrow>
   (('s db_ext \<times> 'w) \<times> (ipfs_response list, core_error) result) exec" where
  "ocw_process_command ops cc h now env1 env2 bn command_request persistence_key st =
     process_ipfs_command ops cc h now env1 env2 bn command_request persistence_key st"


section \<open>Storage helpers\<close>

lemma offchain_data_key_inj:
  assumes "codec_ok (bn_codec cc)"
  shows "offchain_data_key cc a = offchain_data_key cc b \<longleftrightarrow> a = b"
  unfolding offchain_data_key_def same_append_eq by (metis assms codec_okD option.inject)

lemma read_cid_data_local:
  "contains caps OFFCHAIN_DB_READ \<Longrightarrow>
   read_cid_data_for_block_number local_ops cc bn (Some (caps, s)) =
     Done (decode_stored (data_codec cc) (db_lookup (offchain_data_key cc bn) s))"
  by (simp add: read_cid_data_for_block_number_def offchain_storage_data_for_key_def sv_get_local)

lemma read_cid_local:
  assumes "contains caps OFFCHAIN_DB_READ"
  shows "read_cid_for_block_number local_ops cc bn (Some (caps, s)) =
     (case decode_stored (data_codec cc) (db_lookup (offchain_data_key cc bn) s) of
        Ok (Some d) \<Rightarrow> Done (Ok d) | Ok None \<Rightarrow> Panic | Err e \<Rightarrow> Done (Err e))"
  using assms
  by (simp add: read_cid_for_block_number_def read_cid_data_local expect_def exec_simps split: result.split option.split)

text \<open>C24: data a block stores for the workers arrives.  After \<open>store_cid_data_for_values\<close> in a block and the import of that
  block with off-chain indexing enabled, a worker's \<open>read_cid_for_block_number\<close> returns the data and meta data that
  were stored, and what it reads for any other block number is not affected by the call.\<close>

theorem stored_data_reaches_worker:
  assumes "codec_ok (bn_codec cc)" "codec_ok (data_codec cc)" "index_ok (io_overlay io)"
    and "contains caps OFFCHAIN_DB_READ"
  shows "\<exists>oc kvs m. store_cid_data_for_values ops cc bn data meta False io = Done (io\<lparr>io_overlay := oc\<rparr>) \<and>
    offchain_drain (offchain oc) = Done (kvs, m) \<and>
    read_cid_for_block_number local_ops cc bn (Some (caps, import_offchain True kvs s)) =
      Done (Ok (new_offchain_data data meta)) \<and>
    (\<forall>bn'. bn' \<noteq> bn \<longrightarrow> index_view oc (offchain_data_key cc bn') = index_view (io_overlay io) (offchain_data_key cc bn'))"
proof -
  let ?k = "offchain_data_key cc bn" and ?v = "encode (data_codec cc) (new_offchain_data data meta)"
  obtain oc where oc: "set_offchain_storage ?k (Some ?v) (io_overlay io) = Done oc" "index_ok oc"
    "index_view oc = (index_view (io_overlay io))(?k \<mapsto> SetValue ?v)"
    using set_offchain_storage_view [OF assms(3), of ?k "Some ?v"] by auto
  obtain kvs m where imp: "offchain_drain (offchain oc) = Done (kvs, m)"
    "\<forall>key. db_lookup key (import_offchain True kvs s) =
       (case index_view oc key of Some (SetValue v) \<Rightarrow> Some v | Some Remove \<Rightarrow> None | None \<Rightarrow> db_lookup key s)"
    by (rule import_view [OF oc(2), where s = s])
  have "store_cid_data_for_values ops cc bn data meta False io = Done (io\<lparr>io_overlay := oc\<rparr>)"
    by (simp add: store_cid_data_for_values_def store_cid_data_def store_cid_data_for_key_def store_offchain_data_def
        offchain_index_set_def oc(1) exec_simps)
  moreover have "read_cid_for_block_number local_ops cc bn (Some (caps, import_offchain True kvs s)) =
      Done (Ok (new_offchain_data data meta))"
    using assms(2) by (simp add: read_cid_local [OF assms(4)] imp(2) oc(3) decode_stored_def)
  ultimately show ?thesis using imp(1) offchain_data_key_inj [OF assms(1)] by (auto simp: oc(3))
qed

section \<open>Locks of command requests\<close>

lemma acquire_local:
  assumes caps: "contains caps OFFCHAIN_DB_READ" "contains caps OFFCHAIN_DB_WRITE"
  defines "seen \<equiv> \<lambda>s cr cc. decode_stored (bn_codec cc) (db_lookup (cr_identifier cr) s)"
  shows "lock_closure bn (seen s cr cc) = Err e \<Longrightarrow> acquire_command_request_lock local_ops cc bn cr id (Some (caps, s)) =
      Done (Some (caps, s), Err (ValueFunctionFailed e))"
    and "lock_closure bn (seen s cr cc) = Ok b \<Longrightarrow> \<exists>s'. acquire_command_request_lock local_ops cc bn cr id (Some (caps, s)) =
      Done (Some (caps, s'), Ok b) \<and>
      (\<forall>k. db_lookup k s' = (if k = cr_identifier cr then Some (encode (bn_codec cc) b) else db_lookup k s))"
  using sv_mutate_local [OF caps, of "lock_closure bn" "bn_codec cc" "cr_identifier cr" s]
  by (auto simp: acquire_command_request_lock_def seen_def)

text \<open>C25: a command request is processed in one block only.  Once a worker at block \<open>b\<close> holds the lock of an
  identifier, an attempt for that identifier at another block fails with \<open>FailedToAcquireLock\<close> and changes nothing, while
  at block \<open>b\<close> itself the lock is granted again.\<close>

theorem command_lock_excludes_other_blocks:
  assumes "codec_ok (bn_codec cc)" "contains caps OFFCHAIN_DB_READ" "contains caps OFFCHAIN_DB_WRITE"
    and "acquire_command_request_lock local_ops cc b cr id (Some (caps, s)) = Done (Some (caps, s1), Ok x)"
    and "cr_identifier cr' = cr_identifier cr"
  shows "x = b \<and>
    (\<forall>b'. b' \<noteq> b \<longrightarrow> acquire_command_request_lock local_ops cc b' cr' id (Some (caps, s1)) =
       Done (Some (caps, s1), Err (ValueFunctionFailed FailedToAcquireLock))) \<and>
    (\<exists>s2. acquire_command_request_lock local_ops cc b cr' id (Some (caps, s1)) = Done (Some (caps, s2), Ok b))"
proof -
  let ?seen = "\<lambda>s. decode_stored (bn_codec cc) (db_lookup (cr_identifier cr) s)"
  obtain y where y: "lock_closure b (?seen s) = Ok y"
    using assms(4) acquire_local(1) [OF assms(2,3), of b cc cr s] by (cases "lock_closure b (?seen s)") auto
  obtain s' where s': "acquire_command_request_lock local_ops cc b cr id (Some (caps, s)) = Done (Some (caps, s'), Ok y)"
    "\<forall>k. db_lookup k s' = (if k = cr_identifier cr then Some (encode (bn_codec cc) y) else db_lookup k s)"
    using acquire_local(2) [OF assms(2,3), of b cc cr s y] y by auto
  have "y = b" using y by (auto simp: lock_closure_def split: result.splits option.splits if_splits)
  with s' assms(4) have x: "x = b" "s1 = s'" by auto
  have seen: "decode_stored (bn_codec cc) (db_lookup (cr_identifier cr') s1) = Ok (Some b)"
    using s'(2) x assms(1,5) \<open>y = b\<close> by (simp add: decode_stored_def)
  have "acquire_command_request_lock local_ops cc b' cr' id (Some (caps, s1)) =
       Done (Some (caps, s1), Err (ValueFunctionFailed FailedToAcquireLock))" if "b' \<noteq> b" for b'
    by (rule acquire_local(1) [OF assms(2,3)]) (use that seen in \<open>simp add: lock_closure_def\<close>)
  moreover have "\<exists>s2. acquire_command_request_lock local_ops cc b cr' id (Some (caps, s1)) = Done (Some (caps, s2), Ok b)"
    using acquire_local(2) [OF assms(2,3), of b cc cr' s1 b] seen by (auto simp: lock_closure_def)
  ultimately show ?thesis using x(1) by blast
qed


section \<open>Processing never gets stuck\<close>

text \<open>The responses a command accepts; \<open>None\<close> stands for a command that failed.\<close>

definition fits :: "ipfs_command \<Rightarrow> ipfs_response option \<Rightarrow> bool" where
  "fits c p =
     (case p of
        None \<Rightarrow> True
      | Some r \<Rightarrow>
          (case c of
             AddBytes _ \<Rightarrow> (case r of Rs_AddBytes _ \<Rightarrow> True | _ \<Rightarrow> False)
           | CatBytes _ \<Rightarrow> (case r of Rs_CatBytes _ \<Rightarrow> True | _ \<Rightarrow> False)
           | FindPeer _ \<Rightarrow> (case r of Rs_FindPeer _ \<Rightarrow> True | _ \<Rightarrow> False)
           | GetProviders _ \<Rightarrow> (case r of Rs_GetProviders _ \<Rightarrow> True | _ \<Rightarrow> False)
           | _ \<Rightarrow> r = Rs_Success))"

primrec pushed :: "'a option list \<Rightarrow> 'a list" where
  "pushed [] = []"
| "pushed (p # ps) = (case p of None \<Rightarrow> pushed ps | Some x \<Rightarrow> x # pushed ps)"

lemma fits_expect_success:
  "fits (ConnectTo a) (expect_success r)" "fits (DisconnectFrom a) (expect_success r)" "fits (InsertPin a) (expect_success r)"
  "fits (RemoveBlock a) (expect_success r)" "fits (RemovePin a) (expect_success r)"
  by (simp_all add: expect_success_def fits_def)

context ipfs_host_laws
begin

lemma core_request_done: "\<exists>w' r. core_ipfs_request h now rq w = Done (w', r)"
proof -
  obtain w1 x where p: "pending_new h rq w = (w1, x)" by (cases "pending_new h rq w") auto
  show ?thesis
  proof (cases x)
    case (Err e)
    with p show ?thesis by (simp add: core_ipfs_request_def)
  next
    case (Ok q)
    with p have "up w1" using new_up by blast
    then obtain w2 r where "try_wait h q (timestamp_add (now w1) 1200) w1 = Done (w2, r)"
      using try_wait_done by metis
    with p Ok show ?thesis by (simp add: core_ipfs_request_def exec_simps)
  qed
qed

lemma run_command_done:
  assumes "(\<exists>v. c = AddBytes v) \<longrightarrow> (\<exists>d. read_cid_for_block_number ops cc bn db = Done (Ok d))"
  shows "\<exists>w' p. run_command ops cc h now bn db c w = Done (w', Ok p) \<and> fits c p"
proof (cases c)
  case (AddBytes v)
  then obtain d where d: "read_cid_for_block_number ops cc bn db = Done (Ok d)" using assms by blast
  obtain w' r where "core_ipfs_request h now (Rq_AddBytes (od_data d) v) w = Done (w', r)"
    using core_request_done by blast
  then show ?thesis by (simp add: AddBytes d exec_simps fits_def split: result.split ipfs_response.split)
next
  case (ConnectTo a)
  obtain w' r where "core_ipfs_request h now (Rq_Connect a) w = Done (w', r)" using core_request_done by blast
  then show ?thesis by (simp add: ConnectTo exec_simps fits_expect_success)
next
  case (DisconnectFrom a)
  obtain w' r where "core_ipfs_request h now (Rq_Disconnect a) w = Done (w', r)" using core_request_done by blast
  then show ?thesis by (simp add: DisconnectFrom exec_simps fits_expect_success)
next
  case (CatBytes a)
  obtain w' r where "core_ipfs_request h now (Rq_CatBytes a) w = Done (w', r)" using core_request_done by blast
  then show ?thesis by (simp add: CatBytes exec_simps fits_def split: result.split ipfs_response.split)
next
  case (InsertPin a)
  obtain w' r where "core_ipfs_request h now (Rq_InsertPin a False) w = Done (w', r)" using core_request_done by blast
  then show ?thesis by (simp add: InsertPin exec_simps fits_expect_success)
next
  case (RemoveBlock a)
  obtain w' r where "core_ipfs_request h now Rq_RemoveBlock w = Done (w', r)" using core_request_done by blast
  then show ?thesis by (simp add: RemoveBlock exec_simps fits_expect_success)
next
  case (RemovePin a)
  obtain w' r where "core_ipfs_request h now (Rq_RemovePin a False) w = Done (w', r)" using core_request_done by blast
  then show ?thesis by (simp add: RemovePin exec_simps fits_expect_success)
next
  case (FindPeer a)
  obtain w' r where "core_ipfs_request h now (Rq_FindPeer a) w = Done (w', r)" using core_request_done by blast
  then show ?thesis by (simp add: FindPeer exec_simps fits_def split: result.split ipfs_response.split)
next
  case (GetProviders a)
  obtain w' r where "core_ipfs_request h now (Rq_GetProviders a) w = Done (w', r)" using core_request_done by blast
  then show ?thesis by (simp add: GetProviders exec_simps fits_def split: result.split ipfs_response.split)
qed

lemma run_commands_done:
  assumes "(\<exists>v. AddBytes v \<in> set cs) \<longrightarrow> (\<exists>d. read_cid_for_block_number ops cc bn db = Done (Ok d))"
  shows "\<exists>w' ps. run_commands ops cc h now bn db cs result w = Done (w', Ok (result @ pushed ps)) \<and>
    list_all2 fits cs ps"
  using assms
proof (induction cs arbitrary: result w)
  case Nil
  then show ?case by simp
next
  case (Cons c cs)
  have "(\<exists>v. c = AddBytes v) \<longrightarrow> (\<exists>d. read_cid_for_block_number ops cc bn db = Done (Ok d))"
    using Cons.prems by auto
  from run_command_done [OF this, of now w]
  obtain w1 p where p: "run_command ops cc h now bn db c w = Done (w1, Ok p)" "fits c p" by blast
  have "(\<exists>v. AddBytes v \<in> set cs) \<longrightarrow> (\<exists>d. read_cid_for_block_number ops cc bn db = Done (Ok d))"
    using Cons.prems by auto
  from Cons.IH [OF this, of "case p of Some x \<Rightarrow> result @ [x] | None \<Rightarrow> result" w1]
  obtain w2 ps where ps: "run_commands ops cc h now bn db cs (case p of Some x \<Rightarrow> result @ [x] | None \<Rightarrow> result) w1 =
      Done (w2, Ok ((case p of Some x \<Rightarrow> result @ [x] | None \<Rightarrow> result) @ pushed ps))"
    "list_all2 fits cs ps" by blast
  show ?case
    by (intro exI [of _ w2] exI [of _ "p # ps"])
      (use p ps in \<open>auto simp: exec_simps split: option.splits\<close>)
qed

end

lemma processed_local:
  assumes caps: "contains caps OFFCHAIN_DB_READ" "contains caps OFFCHAIN_DB_WRITE"
  shows "\<exists>s' ids. processed_commands local_ops cc cr pk id (Some (caps, s)) = Done (Some (caps, s'), Ok ids) \<and>
    ids = (case decode_stored (ids_codec cc) (db_lookup pk s) of Ok (Some old) \<Rightarrow> old | _ \<Rightarrow> []) @ [cr_identifier cr] \<and>
    (\<forall>k. db_lookup k s' = (if k = pk then Some (encode (ids_codec cc) ids) else db_lookup k s))"
proof -
  let ?seen = "decode_stored (ids_codec cc) (db_lookup pk s)"
  let ?f = "\<lambda>r. case r of Ok (Some commands) \<Rightarrow> Ok (commands @ [cr_identifier cr]) | _ \<Rightarrow> Ok [cr_identifier cr]"
  let ?ids = "(case ?seen of Ok (Some old) \<Rightarrow> old | _ \<Rightarrow> []) @ [cr_identifier cr]"
  have "?f ?seen = Ok ?ids" by (simp split: result.split option.split)
  from sv_mutate_local(2) [OF caps, of ?f "ids_codec cc" pk s, OF this] show ?thesis
    unfolding processed_commands_def by blast
qed



text \<open>A worker panics on a request to add bytes for which nothing is stored under its block number, once it has the
  lock; it does not return an error.\<close>

theorem add_bytes_without_data_panics:
  assumes "contains caps OFFCHAIN_DB_READ" "contains caps OFFCHAIN_DB_WRITE"
    and "db_lookup (cr_identifier cr) s = None" "db_lookup (offchain_data_key cc bn) s = None"
    and "cr_identifier cr \<noteq> offchain_data_key cc bn" "cr_ipfs_commands cr = AddBytes v # cs"
  shows "ocw_process_command local_ops cc h now id id bn cr pk (Some (caps, s), w) = Panic"
proof -
  obtain s1 where s1: "acquire_command_request_lock local_ops cc bn cr id (Some (caps, s)) = Done (Some (caps, s1), Ok bn)"
    "\<forall>k. db_lookup k s1 = (if k = cr_identifier cr then Some (encode (bn_codec cc) bn) else db_lookup k s)"
    using acquire_local(2) [OF assms(1,2), of bn cc cr s bn] assms(3) by (auto simp: lock_closure_def decode_stored_def)
  then have "db_lookup (offchain_data_key cc bn) s1 = None" using assms(4,5) by simp
  then have "read_cid_for_block_number local_ops cc bn (Some (caps, s1)) = Panic"
    by (simp add: read_cid_local [OF assms(1)] decode_stored_def)
  then show ?thesis
    by (simp add: ocw_process_command_def process_ipfs_command_def s1(1) assms(6) exec_simps)
qed

lemma utf8_fold:
  assumes "bytes = join (str_bytes '', '') ps" "ps \<noteq> [] \<Longrightarrow> bytes \<noteq> []"
  shows "fold (\<lambda>res bytes. case from_utf8 res of
         Ok s \<Rightarrow> if length bytes = 0 then s else join (str_bytes '', '') [bytes, s]
       | Err _ \<Rightarrow> bytes) response bytes =
    join (str_bytes '', '') (ps @ (if ps = [] then dropWhile (\<lambda>p. p = []) (filter utf8_valid response)
      else filter utf8_valid response))"
  using assms
proof (induction response arbitrary: bytes ps)
  case Nil
  then show ?case by simp
next
  case (Cons res response)
  show ?case
  proof (cases "utf8_valid res")
    case False
    then obtain e where "from_utf8 res = Err e"
      using from_utf8_Ok_iff [of res res] by (cases "from_utf8 res") (auto simp: from_utf8_Ok_iff)
    with False Cons show ?thesis by simp
  next
    case True
    then have ok: "from_utf8 res = Ok res" by (simp add: from_utf8_Ok_iff)
    show ?thesis
    proof (cases "ps = []")
      case ps: True
      with Cons.prems have "bytes = []" by simp
      show ?thesis
      proof (cases "res = []")
        case True
        with Cons.IH [of "[]" "[]"] ok ps \<open>bytes = []\<close> \<open>utf8_valid res\<close> show ?thesis by simp
      next
        case False
        with Cons.IH [of res "[res]"] ok ps \<open>bytes = []\<close> \<open>utf8_valid res\<close> show ?thesis by simp
      qed
    next
      case False
      then have "join (str_bytes '', '') (ps @ [res]) = join (str_bytes '', '') [bytes, res]"
        using Cons.prems(1) by (simp add: join_append)
      with Cons.IH [of "join (str_bytes '', '') [bytes, res]" "ps @ [res]"] ok False Cons.prems(2) \<open>utf8_valid res\<close>
      show ?thesis by (simp add: str_bytes_def)
    qed
  qed
qed

text \<open>What \<open>multiple_bytes_to_utf8_safe_bytes\<close> computes.  It is the valid UTF-8 entries joined by a comma and a space,
  without the empty ones in front of the first non-empty entry, and the result is valid UTF-8.\<close>

theorem utf8_safe_bytes_spec:
  "multiple_bytes_to_utf8_safe_bytes response =
     join (str_bytes '', '') (dropWhile (\<lambda>p. p = []) (filter utf8_valid response)) \<and>
   utf8_valid (multiple_bytes_to_utf8_safe_bytes response)"
proof
  show spec: "multiple_bytes_to_utf8_safe_bytes response =
     join (str_bytes '', '') (dropWhile (\<lambda>p. p = []) (filter utf8_valid response))"
    using utf8_fold [of "[]" "[]" response] by (simp add: multiple_bytes_to_utf8_safe_bytes_def)
  have "utf8_valid (str_bytes '', '')" by (rule utf8_valid_ascii) (simp add: str_bytes_def)
  then show "utf8_valid (multiple_bytes_to_utf8_safe_bytes response)"
    unfolding spec by (rule utf8_valid_join) (auto dest: set_dropWhileD)
qed

section \<open>Concrete instances\<close>

text \<open>A codec for the examples: each byte is preceded by a 1, each string ends with a 0.\<close>

definition tagged :: "bytes \<Rightarrow> bytes" where
  "tagged bs = concat (map (\<lambda>b. [1, b]) bs) @ [0]"

fun untag :: "bytes \<Rightarrow> bytes \<times> bytes" where
  "untag (t # b # r) = (if t = 1 then (case untag r of (v, rest) \<Rightarrow> (b # v, rest)) else ([], b # r))"
| "untag _ = ([], [])"

lemma untag_tagged: "r \<noteq> [] \<Longrightarrow> untag (tagged bs @ r) = (bs, r)"
proof (induction bs)
  case Nil
  then show ?case by (cases r) (simp_all add: tagged_def)
next
  case (Cons b bs)
  then show ?case by (simp add: tagged_def)
qed

definition sample_codecs :: core_codecs where
  "sample_codecs = \<lparr>bn_codec = scale_u32,
     data_codec = \<lparr>encode = (\<lambda>d. tagged (od_data d) @ tagged (od_meta_data d) @ [0]),
       decode = (\<lambda>bs. let (d, r) = untag bs; (m, _) = untag r in Some \<lparr>od_data = d, od_meta_data = m\<rparr>)\<rparr>,
     ids_codec = \<lparr>encode = concat, decode = (\<lambda>_. None)\<rparr>\<rparr>"

lemma sample_codecs_ok: "codec_ok (bn_codec sample_codecs)" "codec_ok (data_codec sample_codecs)"
proof -
  show "codec_ok (bn_codec sample_codecs)" by (simp add: sample_codecs_def scale_u32_ok)
  have "untag (tagged d @ tagged m @ [0]) = (d, tagged m @ [0])" "untag (tagged m @ [0]) = (m, [0])" for d m
    by (auto intro!: untag_tagged)
  then show "codec_ok (data_codec sample_codecs)" by (simp add: sample_codecs_def codec_ok_def)
qed

definition all_caps :: capabilities where
  "all_caps = OFFCHAIN_DB_READ OR OFFCHAIN_DB_WRITE"

lemma all_caps: "contains all_caps OFFCHAIN_DB_READ" "contains all_caps OFFCHAIN_DB_WRITE"
  by (simp_all add: all_caps_def contains_def capability_defs)

lemma default_changes_ok: "index_ok default_changes"
  by (simp add: index_ok_def lockstep_default) (simp add: default_changes_def current_conv_get)

theorem stored_data_reaches_worker_witness:
  "\<exists>oc kvs m. store_cid_data_for_values local_ops sample_codecs 7 [1, 2] [3] False \<lparr>io_overlay = default_changes, io_db = None\<rparr> =
      Done \<lparr>io_overlay = oc, io_db = None\<rparr> \<and> offchain_drain (offchain oc) = Done (kvs, m) \<and>
    read_cid_for_block_number local_ops sample_codecs 7 (Some (all_caps, import_offchain True kvs empty_local)) =
      Done (Ok \<lparr>od_data = [1, 2], od_meta_data = [3]\<rparr>)"
  using stored_data_reaches_worker [OF sample_codecs_ok, of "\<lparr>io_overlay = default_changes, io_db = None\<rparr>" all_caps local_ops 7
    "[1, 2]" "[3]" empty_local] all_caps default_changes_ok by (auto simp: new_offchain_data_def)

definition sample_request :: "ipfs_command list \<Rightarrow> nat command_request" where
  "sample_request cs = \<lparr>cr_identifier = [5], cr_requester = 1, cr_ipfs_commands = cs\<rparr>"

lemma sample_key_ne: "[5] \<noteq> offchain_data_key sample_codecs bn"
  by (simp add: offchain_data_key_def OFFCHAIN_KEY_PREFIX_def str_bytes_def)

theorem command_lock_excludes_other_blocks_witness:
  "\<exists>s1. acquire_command_request_lock local_ops sample_codecs 7 (sample_request []) id (Some (all_caps, empty_local)) =
      Done (Some (all_caps, s1), Ok 7) \<and>
    acquire_command_request_lock local_ops sample_codecs 8 (sample_request []) id (Some (all_caps, s1)) =
      Done (Some (all_caps, s1), Err (ValueFunctionFailed FailedToAcquireLock))"
proof -
  obtain s1 where s1: "acquire_command_request_lock local_ops sample_codecs 7 (sample_request []) id (Some (all_caps, empty_local)) =
      Done (Some (all_caps, s1), Ok 7)"
    using acquire_local(2) [OF all_caps, of 7 sample_codecs "sample_request []" empty_local 7]
    by (auto simp: lock_closure_def decode_stored_def empty_local_get)
  from command_lock_excludes_other_blocks [OF sample_codecs_ok(1) all_caps s1 refl] s1 show ?thesis by auto
qed


theorem add_bytes_without_data_panics_witness:
  "ocw_process_command local_ops sample_codecs (api_host sample_forms) (\<lambda>_. 0) id id 7 (sample_request [AddBytes 0]) [6]
     (Some (all_caps, empty_local), \<lparr>w_ipfs = None, w_events = []\<rparr>) = Panic"
  by (rule add_bytes_without_data_panics [OF all_caps, where v = 0 and cs = "[]"])
    (use sample_key_ne in \<open>simp_all add: sample_request_def empty_local_get\<close>)

end
