(* ===== verification/Frame_System.thy ===== *)
theory Frame_System
  imports Storage_Layer
begin

text \<open>
  The parts of \<open>frame/system/src/lib.rs\<close> that the pallets stand on: origins, the event record of a block
  and the reference counters that decide when an account lives and dies.  Storage items are fields of a record;
  a \<open>ValueQuery\<close> map is a partial map read through its default.  The hooks for new and killed accounts are empty in
  this runtime (\<open>bin/node/runtime/src/lib.rs\<close>).
\<close>

section \<open>Origins and errors\<close>

datatype 'acc raw_origin = Root | Signed 'acc | Unsigned

record module_error =
  me_index :: byte
  me_error :: bytes
  me_message :: "string option"

datatype token_error = NoFunds | WouldDie | BelowMinimum | CannotCreate | UnknownAsset | Frozen | Unsupported

datatype arithmetic_error = Underflow | Overflow | DivisionByZero

datatype dispatch_error =
    OtherError string
  | CannotLookup
  | BadOrigin
  | ModuleError module_error
  | ConsumerRemaining
  | NoProviders
  | TooManyConsumers
  | TokenError token_error
  | ArithmeticError arithmetic_error
  | TransactionalError transactional_error
  | Exhausted
  | Corruption
  | Unavailable

definition MAX_MODULE_ERROR_ENCODED_SIZE :: nat where
  "MAX_MODULE_ERROR_ENCODED_SIZE = 4"

text \<open>The conversion generated for the error enum of a pallet: the variant's index, padded to the fixed size, and its
  name.\<close>

definition pallet_error :: "byte \<Rightarrow> byte \<Rightarrow> string \<Rightarrow> dispatch_error" where
  "pallet_error index variant as_str =
     ModuleError \<lparr>me_index = index, me_error = variant # replicate (MAX_MODULE_ERROR_ENCODED_SIZE - 1) 0, me_message = Some as_str\<rparr>"

definition stripped :: "dispatch_error \<Rightarrow> dispatch_error" where
  "stripped e = (case e of ModuleError m \<Rightarrow> ModuleError (m\<lparr>me_message := None\<rparr>) | m \<Rightarrow> m)"

fun ensure_signed :: "'acc raw_origin \<Rightarrow> ('acc, dispatch_error) result" where
  "ensure_signed (Signed t) = Ok t"
| "ensure_signed _ = Err BadOrigin"

fun ensure_signed_or_root :: "'acc raw_origin \<Rightarrow> ('acc option, dispatch_error) result" where
  "ensure_signed_or_root Root = Ok None"
| "ensure_signed_or_root (Signed t) = Ok (Some t)"
| "ensure_signed_or_root _ = Err BadOrigin"

fun ensure_root :: "'acc raw_origin \<Rightarrow> (unit, dispatch_error) result" where
  "ensure_root Root = Ok ()"
| "ensure_root _ = Err BadOrigin"

fun ensure_none :: "'acc raw_origin \<Rightarrow> (unit, dispatch_error) result" where
  "ensure_none Unsigned = Ok ()"
| "ensure_none _ = Err BadOrigin"

text \<open>A dispatchable runs in its own storage layer: an \<open>Err\<close> restores the state from before the call, an \<open>Ok\<close> keeps
  the changes (\<open>with_storage_layer\<close>, whose effect on the overlay is the subject of \<open>Storage_Layer\<close>).\<close>

definition dispatch_in_layer :: "('s \<Rightarrow> ('s \<times> ('a, 'e) result) exec) \<Rightarrow> 's \<Rightarrow> ('s \<times> ('a, 'e) result) exec" where
  "dispatch_in_layer call st =
     bind_exec (call st) (\<lambda>(st', r). Done (case r of Ok _ \<Rightarrow> (st', r) | Err _ \<Rightarrow> (st, r)))"

section \<open>State\<close>

datatype phase = ApplyExtrinsic u32 | Finalization | Initialization

record 'ev event_record =
  er_phase :: phase
  er_event :: 'ev
  er_topics :: "bytes list"

record 'data account_info =
  ai_nonce :: u32
  ai_consumers :: u32
  ai_providers :: u32
  ai_sufficients :: u32
  ai_data :: 'data

datatype 'acc system_event = NewAccount 'acc | KilledAccount 'acc

record ('acc, 'data, 'ev) system_state =
  sys_number :: u32
  sys_execution_phase :: "phase option"
  sys_event_count :: u32
  sys_events :: "'ev event_record list"
  sys_event_topics :: "bytes \<Rightarrow> (u32 \<times> u32) list"
  sys_account :: "'acc \<Rightarrow> 'data account_info option"

section \<open>Events\<close>

definition deposit_event_indexed ::
  "bytes list \<Rightarrow> 'ev \<Rightarrow> ('acc, 'data, 'ev) system_state \<Rightarrow> ('acc, 'data, 'ev) system_state" where
  "deposit_event_indexed topics event st =
     (if sys_number st = 0 then st
      else
        (let phase = (case sys_execution_phase st of Some p \<Rightarrow> p | None \<Rightarrow> Initialization);
             record = \<lparr>er_phase = phase, er_event = event, er_topics = topics\<rparr>;
             event_idx = sys_event_count st
         in case checked_add event_idx 1 of
              None \<Rightarrow> st
            | Some new_event_count \<Rightarrow>
                st\<lparr>sys_event_count := new_event_count, sys_events := sys_events st @ [record],
                   sys_event_topics := fold (\<lambda>topic m. m(topic := m topic @ [(sys_number st, event_idx)])) topics
                     (sys_event_topics st)\<rparr>))"

definition deposit_event :: "'ev \<Rightarrow> ('acc, 'data, 'ev) system_state \<Rightarrow> ('acc, 'data, 'ev) system_state" where
  "deposit_event event st = deposit_event_indexed [] event st"

section \<open>Reference counters\<close>

text \<open>\<open>dflt\<close> is the default \<open>AccountData\<close>, \<open>into\<close> the conversion of this pallet's events to runtime events.\<close>

definition default_account :: "'data \<Rightarrow> 'data account_info" where
  "default_account dflt = \<lparr>ai_nonce = 0, ai_consumers = 0, ai_providers = 0, ai_sufficients = 0, ai_data = dflt\<rparr>"

definition account_get :: "'data \<Rightarrow> 'acc \<Rightarrow> ('acc, 'data, 'ev) system_state \<Rightarrow> 'data account_info" where
  "account_get dflt who st = (case sys_account st who of Some a \<Rightarrow> a | None \<Rightarrow> default_account dflt)"

definition put_account :: "'acc \<Rightarrow> 'data account_info \<Rightarrow> ('acc, 'data, 'ev) system_state \<Rightarrow> ('acc, 'data, 'ev) system_state" where
  "put_account who a st = st\<lparr>sys_account := (sys_account st)(who \<mapsto> a)\<rparr>"

definition account_exists :: "'acc \<Rightarrow> ('acc, 'data, 'ev) system_state \<Rightarrow> bool" where
  "account_exists who st \<longleftrightarrow> sys_account st who \<noteq> None"

datatype inc_ref_status = Created | Existed

datatype dec_ref_status = Reaped | Exists

definition on_created_account ::
  "('acc system_event \<Rightarrow> 'ev) \<Rightarrow> 'acc \<Rightarrow> ('acc, 'data, 'ev) system_state \<Rightarrow> ('acc, 'data, 'ev) system_state" where
  "on_created_account into who st = deposit_event (into (NewAccount who)) st"

definition on_killed_account ::
  "('acc system_event \<Rightarrow> 'ev) \<Rightarrow> 'acc \<Rightarrow> ('acc, 'data, 'ev) system_state \<Rightarrow> ('acc, 'data, 'ev) system_state" where
  "on_killed_account into who st = deposit_event (into (KilledAccount who)) st"

definition inc_providers ::
  "('acc system_event \<Rightarrow> 'ev) \<Rightarrow> 'data \<Rightarrow> 'acc \<Rightarrow> ('acc, 'data, 'ev) system_state \<Rightarrow>
   ('acc, 'data, 'ev) system_state \<times> inc_ref_status" where
  "inc_providers into dflt who st =
     (let a = account_get dflt who st in
      if ai_providers a = 0 \<and> ai_sufficients a = 0
      then (put_account who (a\<lparr>ai_providers := 1\<rparr>) (on_created_account into who st), Created)
      else (put_account who (a\<lparr>ai_providers := saturating_add (ai_providers a) 1\<rparr>) st, Existed))"

definition remove_account :: "'acc \<Rightarrow> ('acc, 'data, 'ev) system_state \<Rightarrow> ('acc, 'data, 'ev) system_state" where
  "remove_account who st = st\<lparr>sys_account := (sys_account st)(who := None)\<rparr>"

text \<open>\<open>try_mutate_exists\<close>: on \<open>Err\<close> nothing is written back; on \<open>Ok\<close> the account is stored or removed.\<close>

definition dec_providers ::
  "('acc system_event \<Rightarrow> 'ev) \<Rightarrow> 'acc \<Rightarrow> ('acc, 'data, 'ev) system_state \<Rightarrow>
   ('acc, 'data, 'ev) system_state \<times> (dec_ref_status, dispatch_error) result" where
  "dec_providers into who st =
     (case sys_account st who of
        None \<Rightarrow> (remove_account who st, Ok Reaped)
      | Some a \<Rightarrow>
          (let a = (if ai_providers a = 0 then a\<lparr>ai_providers := 1\<rparr> else a) in
           if ai_providers a = 1 \<and> ai_consumers a = 0 \<and> ai_sufficients a = 0
           then (remove_account who (on_killed_account into who st), Ok Reaped)
           else if ai_providers a = 1 \<and> 0 < ai_consumers a then (st, Err ConsumerRemaining)
           else (put_account who (a\<lparr>ai_providers := ai_providers a - 1\<rparr>) st, Ok Exists)))"

text \<open>Plain \<open>u32\<close> arithmetic panics in a build with overflow checks and wraps around otherwise.\<close>

definition add_u32 :: "bool \<Rightarrow> u32 \<Rightarrow> u32 \<Rightarrow> u32 exec" where
  "add_u32 overflow_checks a b =
     (if overflow_checks \<and> checked_add a b = None then Panic else Done (a + b))"

definition sub_u32 :: "bool \<Rightarrow> u32 \<Rightarrow> u32 \<Rightarrow> u32 exec" where
  "sub_u32 overflow_checks a b = (if overflow_checks \<and> a < b then Panic else Done (a - b))"

definition inc_sufficients ::
  "bool \<Rightarrow> ('acc system_event \<Rightarrow> 'ev) \<Rightarrow> 'data \<Rightarrow> 'acc \<Rightarrow> ('acc, 'data, 'ev) system_state \<Rightarrow>
   (('acc, 'data, 'ev) system_state \<times> inc_ref_status) exec" where
  "inc_sufficients checks into dflt who st =
     (let a = account_get dflt who st in
      bind_exec (add_u32 checks (ai_providers a) (ai_sufficients a)) (\<lambda>total.
      Done (if total = 0
        then (put_account who (a\<lparr>ai_sufficients := 1\<rparr>) (on_created_account into who st), Created)
        else (put_account who (a\<lparr>ai_sufficients := saturating_add (ai_sufficients a) 1\<rparr>) st, Existed))))"

definition dec_sufficients ::
  "bool \<Rightarrow> ('acc system_event \<Rightarrow> 'ev) \<Rightarrow> 'acc \<Rightarrow> ('acc, 'data, 'ev) system_state \<Rightarrow>
   (('acc, 'data, 'ev) system_state \<times> dec_ref_status) exec" where
  "dec_sufficients checks into who st =
     (case sys_account st who of
        None \<Rightarrow> Done (remove_account who st, Reaped)
      | Some a \<Rightarrow>
          if (ai_sufficients a = 0 \<or> ai_sufficients a = 1) \<and> ai_providers a = 0
          then Done (remove_account who (on_killed_account into who st), Reaped)
          else bind_exec (sub_u32 checks (ai_sufficients a) 1) (\<lambda>x.
            Done (put_account who (a\<lparr>ai_sufficients := x\<rparr>) st, Exists)))"

definition inc_consumers ::
  "u32 \<Rightarrow> 'data \<Rightarrow> 'acc \<Rightarrow> ('acc, 'data, 'ev) system_state \<Rightarrow>
   ('acc, 'data, 'ev) system_state \<times> (unit, dispatch_error) result" where
  "inc_consumers max_consumers dflt who st =
     (let a = account_get dflt who st in
      if 0 < ai_providers a then
        (if ai_consumers a < max_consumers
         then (put_account who (a\<lparr>ai_consumers := saturating_add (ai_consumers a) 1\<rparr>) st, Ok ())
         else (st, Err TooManyConsumers))
      else (st, Err NoProviders))"

definition inc_consumers_without_limit ::
  "'data \<Rightarrow> 'acc \<Rightarrow> ('acc, 'data, 'ev) system_state \<Rightarrow>
   ('acc, 'data, 'ev) system_state \<times> (unit, dispatch_error) result" where
  "inc_consumers_without_limit dflt who st =
     (let a = account_get dflt who st in
      if 0 < ai_providers a
      then (put_account who (a\<lparr>ai_consumers := saturating_add (ai_consumers a) 1\<rparr>) st, Ok ())
      else (st, Err NoProviders))"

text \<open>\<open>mutate\<close> on a \<open>ValueQuery\<close> map writes back in every case.\<close>

definition dec_consumers :: "'data \<Rightarrow> 'acc \<Rightarrow> ('acc, 'data, 'ev) system_state \<Rightarrow> ('acc, 'data, 'ev) system_state" where
  "dec_consumers dflt who st =
     (let a = account_get dflt who st in
      put_account who (if 0 < ai_consumers a then a\<lparr>ai_consumers := ai_consumers a - 1\<rparr> else a) st)"

definition reference_count :: "bool \<Rightarrow> 'data \<Rightarrow> 'acc \<Rightarrow> ('acc, 'data, 'ev) system_state \<Rightarrow> u32 exec" where
  "reference_count checks dflt who st =
     (let a = account_get dflt who st in add_u32 checks (ai_providers a) (ai_sufficients a))"

definition is_provider_required :: "'data \<Rightarrow> 'acc \<Rightarrow> ('acc, 'data, 'ev) system_state \<Rightarrow> bool" where
  "is_provider_required dflt who st \<longleftrightarrow> ai_consumers (account_get dflt who st) \<noteq> 0"

definition can_dec_provider :: "'data \<Rightarrow> 'acc \<Rightarrow> ('acc, 'data, 'ev) system_state \<Rightarrow> bool" where
  "can_dec_provider dflt who st \<longleftrightarrow>
     (let a = account_get dflt who st in ai_consumers a = 0 \<or> 1 < ai_providers a)"

definition can_inc_consumer :: "u32 \<Rightarrow> 'data \<Rightarrow> 'acc \<Rightarrow> ('acc, 'data, 'ev) system_state \<Rightarrow> bool" where
  "can_inc_consumer max_consumers dflt who st \<longleftrightarrow>
     (let a = account_get dflt who st in 0 < ai_providers a \<and> ai_consumers a < max_consumers)"

section \<open>Events are counted\<close>

lemma deposit_event_keeps [simp]:
  "sys_account (deposit_event e st) = sys_account st" "sys_number (deposit_event e st) = sys_number st"
  by (simp_all add: deposit_event_def deposit_event_indexed_def Let_def split: option.split)

text \<open>The events of a block and their count agree.\<close>

definition events_inv :: "('acc, 'data, 'ev) system_state \<Rightarrow> bool" where
  "events_inv st \<longleftrightarrow> length (sys_events st) = unat (sys_event_count st)"

lemma deposit_event_indexed_inv: "events_inv st \<Longrightarrow> events_inv (deposit_event_indexed topics e st)"
  by (auto simp: events_inv_def deposit_event_indexed_def Let_def split: option.split dest!: checked_add_SomeD)

lemma deposit_event_cases:
  "deposit_event e st =
     (if sys_number st = 0 \<or> checked_add (sys_event_count st) 1 = None then st
      else st\<lparr>sys_event_count := sys_event_count st + 1,
        sys_events := sys_events st @ [\<lparr>er_phase = (case sys_execution_phase st of Some p \<Rightarrow> p | None \<Rightarrow> Initialization),
          er_event = e, er_topics = []\<rparr>]\<rparr>)"
  by (auto simp: deposit_event_def deposit_event_indexed_def Let_def checked_add_def split: option.split)

section \<open>The life of an account\<close>

text \<open>A stored account is referenced by a provider or is self-sufficient, and one with consumers has a
  provider.\<close>

definition account_ok :: "'data account_info \<Rightarrow> bool" where
  "account_ok a \<longleftrightarrow> (0 < ai_providers a \<or> 0 < ai_sufficients a) \<and> (0 < ai_consumers a \<longrightarrow> 0 < ai_providers a)"

definition accounts_inv :: "('acc, 'data, 'ev) system_state \<Rightarrow> bool" where
  "accounts_inv st \<longleftrightarrow> (\<forall>who a. sys_account st who = Some a \<longrightarrow> account_ok a)"

datatype 'acc ref_op =
    IncProviders 'acc | DecProviders 'acc | IncSufficients 'acc | DecSufficients 'acc | IncConsumers 'acc | DecConsumers 'acc

text \<open>One operation of a pallet on the counters.  \<open>dec_consumers\<close> is for accounts that exist.\<close>

definition ref_step ::
  "bool \<Rightarrow> ('acc system_event \<Rightarrow> 'ev) \<Rightarrow> 'data \<Rightarrow> u32 \<Rightarrow> 'acc ref_op \<Rightarrow> ('acc, 'data, 'ev) system_state \<Rightarrow>
   ('acc, 'data, 'ev) system_state exec" where
  "ref_step checks into dflt max_consumers p st =
     (case p of
        IncProviders who \<Rightarrow> Done (fst (inc_providers into dflt who st))
      | DecProviders who \<Rightarrow> Done (fst (dec_providers into who st))
      | IncSufficients who \<Rightarrow> bind_exec (inc_sufficients checks into dflt who st) (\<lambda>r. Done (fst r))
      | DecSufficients who \<Rightarrow> bind_exec (dec_sufficients checks into who st) (\<lambda>r. Done (fst r))
      | IncConsumers who \<Rightarrow> Done (fst (inc_consumers max_consumers dflt who st))
      | DecConsumers who \<Rightarrow> if account_exists who st then Done (dec_consumers dflt who st) else Done st)"

primrec ref_steps ::
  "bool \<Rightarrow> ('acc system_event \<Rightarrow> 'ev) \<Rightarrow> 'data \<Rightarrow> u32 \<Rightarrow> 'acc ref_op list \<Rightarrow> ('acc, 'data, 'ev) system_state \<Rightarrow>
   ('acc, 'data, 'ev) system_state exec" where
  "ref_steps checks into dflt m [] st = Done st"
| "ref_steps checks into dflt m (p # ps) st = bind_exec (ref_step checks into dflt m p st) (ref_steps checks into dflt m ps)"


lemma on_account_simps [simp]:
  "sys_account (on_created_account into who st) = sys_account st" "sys_account (on_killed_account into who st) = sys_account st"
  "sys_account (put_account who a st) = (sys_account st)(who \<mapsto> a)"
  "sys_account (remove_account who st) = (sys_account st)(who := None)"
  by (simp_all add: on_created_account_def on_killed_account_def put_account_def remove_account_def)

lemma saturating_add_pos: "0 < saturating_add (x :: u32) 1"
  using saturating_add_ge [of x 1] by (cases "x = 0") (auto simp: saturating_add_def word_gt_0 intro: less_le_trans)

lemma word_gt_0_minus: "(x :: u32) \<noteq> 0 \<Longrightarrow> x \<noteq> 1 \<Longrightarrow> x - 1 \<noteq> 0"
  by simp

lemma account_get_ok: "accounts_inv st \<Longrightarrow> sys_account st who = Some a \<Longrightarrow> account_ok a"
  by (simp add: accounts_inv_def)

lemma accounts_inv_upd:
  "accounts_inv st \<Longrightarrow> sys_account st' = (sys_account st)(who \<mapsto> a) \<Longrightarrow> account_ok a \<Longrightarrow> accounts_inv st'"
  "accounts_inv st \<Longrightarrow> sys_account st' = (sys_account st)(who := None) \<Longrightarrow> accounts_inv st'"
  by (simp_all add: accounts_inv_def)

lemma account_get_cases:
  assumes "accounts_inv st"
  obtains "account_get dflt who st = default_account dflt" "sys_account st who = None"
  | "sys_account st who = Some (account_get dflt who st)" "account_ok (account_get dflt who st)"
  using assms by (cases "sys_account st who") (auto simp: account_get_def accounts_inv_def)

text \<open>What one step does to the accounts: at most one of them changes, it stays well-formed, and it is only removed
  when it has no consumers.\<close>

definition ref_effect :: "('acc, 'data, 'ev) system_state \<Rightarrow> ('acc, 'data, 'ev) system_state \<Rightarrow> bool" where
  "ref_effect st st' \<longleftrightarrow>
     sys_account st' = sys_account st \<or>
     (\<exists>who a. sys_account st' = (sys_account st)(who \<mapsto> a) \<and> account_ok a) \<or>
     (\<exists>who. sys_account st' = (sys_account st)(who := None) \<and>
        (\<forall>a. sys_account st who = Some a \<longrightarrow> ai_consumers a = 0))"

lemma ref_effectI:
  "ref_effect st st"
  "account_ok a \<Longrightarrow> ref_effect st (put_account who a st)"
  "account_ok a \<Longrightarrow> ref_effect st (put_account who a (on_created_account into who st))"
  "\<forall>a. sys_account st who = Some a \<longrightarrow> ai_consumers a = 0 \<Longrightarrow> ref_effect st (remove_account who st)"
  "\<forall>a. sys_account st who = Some a \<longrightarrow> ai_consumers a = 0 \<Longrightarrow>
     ref_effect st (remove_account who (on_killed_account into who st))"
  unfolding ref_effect_def by auto

lemma inc_providers_effect:
  assumes "accounts_inv st"
  shows "ref_effect st (fst (inc_providers into dflt who st))"
proof -
  let ?a = "account_get dflt who st"
  have "account_ok (?a\<lparr>ai_providers := 1\<rparr>)" "account_ok (?a\<lparr>ai_providers := saturating_add (ai_providers ?a) 1\<rparr>)"
    by (simp_all add: account_ok_def saturating_add_pos)
  then show ?thesis
    by (simp add: inc_providers_def Let_def ref_effectI)
qed

lemma dec_providers_effect:
  assumes "accounts_inv st"
  shows "ref_effect st (fst (dec_providers into who st))"
proof (cases "sys_account st who")
  case None
  then show ?thesis by (simp add: dec_providers_def ref_effectI)
next
  case (Some a)
  then have ok: "account_ok a" using assms by (simp add: accounts_inv_def)
  define b where "b = (if ai_providers a = 0 then a\<lparr>ai_providers := 1\<rparr> else a)"
  have b: "ai_consumers b = ai_consumers a" "ai_sufficients b = ai_sufficients a" "ai_providers b \<noteq> 0"
    by (simp_all add: b_def)
  consider (kill) "ai_providers b = 1" "ai_consumers b = 0" "ai_sufficients b = 0"
    | (refuse) "ai_providers b = 1" "0 < ai_consumers b"
    | (keep) "ai_providers b = 1" "ai_consumers b = 0" "ai_sufficients b \<noteq> 0"
    | (more) "ai_providers b \<noteq> 1"
    by (auto simp: word_gt_0)
  then show ?thesis
  proof cases
    case kill
    then show ?thesis using Some b(1) by (simp add: dec_providers_def b_def [symmetric] Let_def ref_effectI)
  next
    case refuse
    then show ?thesis using Some by (simp add: dec_providers_def b_def [symmetric] Let_def ref_effectI word_gt_0)
  next
    case keep
    then have "account_ok (b\<lparr>ai_providers := ai_providers b - 1\<rparr>)" by (simp add: account_ok_def word_gt_0)
    with keep Some show ?thesis by (simp add: dec_providers_def b_def [symmetric] Let_def ref_effectI)
  next
    case more
    then have "account_ok (b\<lparr>ai_providers := ai_providers b - 1\<rparr>)"
      using word_gt_0_minus [OF b(3)] by (simp add: account_ok_def word_gt_0)
    with more Some show ?thesis by (simp add: dec_providers_def b_def [symmetric] Let_def ref_effectI)
  qed
qed

lemma inc_sufficients_effect:
  assumes "accounts_inv st" "inc_sufficients checks into dflt who st = Done (st', r)"
  shows "ref_effect st st'"
proof -
  let ?a = "account_get dflt who st"
  have "ai_consumers ?a > 0 \<longrightarrow> ai_providers ?a > 0"
    using assms(1) by (cases rule: account_get_cases [where who = who and dflt = dflt])
      (auto simp: account_ok_def default_account_def)
  then have "account_ok (?a\<lparr>ai_sufficients := 1\<rparr>)" "account_ok (?a\<lparr>ai_sufficients := saturating_add (ai_sufficients ?a) 1\<rparr>)"
    by (simp_all add: account_ok_def saturating_add_pos)
  then show ?thesis using assms(2)
    by (auto simp: inc_sufficients_def Let_def add_u32_def intro: ref_effectI split: if_splits)
qed

lemma dec_sufficients_effect:
  assumes "accounts_inv st" "dec_sufficients checks into who st = Done (st', r)"
  shows "ref_effect st st'"
proof (cases "sys_account st who")
  case None
  then show ?thesis using assms(2) by (auto simp: dec_sufficients_def intro: ref_effectI)
next
  case (Some a)
  then have ok: "account_ok a" using assms(1) by (simp add: accounts_inv_def)
  have "account_ok (a\<lparr>ai_sufficients := ai_sufficients a - 1\<rparr>)"
    if "\<not> ((ai_sufficients a = 0 \<or> ai_sufficients a = 1) \<and> ai_providers a = 0)"
    using that ok by (auto simp: account_ok_def word_gt_0)
  moreover have "\<forall>a. sys_account st who = Some a \<longrightarrow> ai_consumers a = 0" if "ai_providers a = 0"
    using that ok Some by (simp add: account_ok_def word_gt_0)
  ultimately show ?thesis using assms(2) Some
    by (auto simp: dec_sufficients_def sub_u32_def intro: ref_effectI split: if_splits)
qed

lemma inc_consumers_effect:
  assumes "accounts_inv st"
  shows "ref_effect st (fst (inc_consumers m dflt who st))"
proof -
  let ?a = "account_get dflt who st"
  have "account_ok (?a\<lparr>ai_consumers := saturating_add (ai_consumers ?a) 1\<rparr>)" if "0 < ai_providers ?a"
    using that by (simp add: account_ok_def)
  then show ?thesis by (simp add: inc_consumers_def Let_def ref_effectI)
qed

lemma dec_consumers_effect:
  assumes "accounts_inv st" "account_exists who st"
  shows "ref_effect st (dec_consumers dflt who st)"
proof -
  let ?a = "account_get dflt who st"
  have "account_ok ?a" using assms by (auto simp: account_get_def accounts_inv_def account_exists_def)
  then have "account_ok (if 0 < ai_consumers ?a then ?a\<lparr>ai_consumers := ai_consumers ?a - 1\<rparr> else ?a)"
    by (auto simp: account_ok_def)
  then show ?thesis unfolding dec_consumers_def Let_def by (rule ref_effectI)
qed

lemma ref_step_effect:
  assumes "accounts_inv st" "ref_step checks into dflt m p st = Done st'"
  shows "ref_effect st st'"
  using assms(2) inc_providers_effect [OF assms(1), of into dflt] dec_providers_effect [OF assms(1), of into]
    inc_sufficients_effect [OF assms(1), of checks into dflt] dec_sufficients_effect [OF assms(1), of checks into]
    inc_consumers_effect [OF assms(1), of m dflt] dec_consumers_effect [OF assms(1), of _ dflt]
  by (auto simp: ref_step_def ref_effectI(1) split: ref_op.splits if_splits)

lemma ref_effect_inv: "accounts_inv st \<Longrightarrow> ref_effect st st' \<Longrightarrow> accounts_inv st'"
  by (auto simp: ref_effect_def accounts_inv_def split: if_splits)

lemma ref_effect_alive:
  "ref_effect st st' \<Longrightarrow> sys_account st who = Some a \<Longrightarrow> 0 < ai_consumers a \<Longrightarrow> account_exists who st'"
  by (auto simp: ref_effect_def account_exists_def split: if_splits)


lemma ref_steps_inv: "ref_steps checks into dflt m ps st = Done st' \<Longrightarrow> accounts_inv st \<Longrightarrow> accounts_inv st'"
proof (induction ps arbitrary: st)
  case (Cons p ps)
  then obtain st1 where "ref_step checks into dflt m p st = Done st1" "ref_steps checks into dflt m ps st1 = Done st'" by auto
  with Cons show ?case using ref_effect_inv [OF Cons.prems(2) ref_step_effect [OF Cons.prems(2)]] by blast
qed simp


text \<open>Removing a self-sufficient reference that an account does not have.  When the account has a provider, the counter
  goes below zero: a build with overflow checks panics, any other build stores the largest counter value.\<close>

theorem dec_sufficients_underflow:
  assumes "sys_account st who = Some a" "ai_sufficients a = 0" "0 < ai_providers a"
  shows "dec_sufficients True into who st = Panic \<and>
    (\<exists>st' b. dec_sufficients False into who st = Done (st', Exists) \<and> sys_account st' who = Some b \<and>
       unat (ai_sufficients b) = 2 ^ 32 - 1)"
proof -
  have "unat (- 1 :: u32) = 2 ^ 32 - 1" by (simp add: unsigned_minus_1_eq_mask mask_eq_exp_minus_1)
  with assms show ?thesis by (auto simp: dec_sufficients_def sub_u32_def word_gt_0)
qed

text \<open>The event list of a block.  Depositing an event appends exactly one record with the current phase and adds one to the
  count, except in the genesis block and when the count is at its maximum, where nothing changes; list and count
  stay in agreement.\<close>

theorem deposit_event_counts:
  assumes "events_inv st"
  shows "events_inv (deposit_event e st) \<and>
    (if sys_number st = 0 \<or> unat (sys_event_count st) = 2 ^ 32 - 1 then deposit_event e st = st
     else map er_event (sys_events (deposit_event e st)) = map er_event (sys_events st) @ [e] \<and>
       unat (sys_event_count (deposit_event e st)) = unat (sys_event_count st) + 1)"
proof -
  have "unat (sys_event_count st) < 2 ^ 32" using unsigned_less [of "sys_event_count st"] by simp
  then have "checked_add (sys_event_count st) 1 = None \<longleftrightarrow> unat (sys_event_count st) = 2 ^ 32 - 1"
    by (auto simp: checked_add_def)
  moreover have "unat (sys_event_count st + 1) = unat (sys_event_count st) + 1" if "checked_add (sys_event_count st) 1 \<noteq> None"
    using that unat_add_no_overflow [of "sys_event_count st" 1] by (simp add: checked_add_def split: if_splits)
  ultimately show ?thesis
    using deposit_event_indexed_inv [OF assms, of "[]" e] unfolding deposit_event_def [symmetric]
    by (simp add: deposit_event_cases)
qed

section \<open>Concrete instances\<close>

definition sample_system :: "(nat, unit, nat system_event) system_state" where
  "sample_system = \<lparr>sys_number = 3, sys_execution_phase = None, sys_event_count = 0, sys_events = [],
     sys_event_topics = (\<lambda>_. []), sys_account = [1 \<mapsto> \<lparr>ai_nonce = 0, ai_consumers = 1, ai_providers = 1, ai_sufficients = 0, ai_data = ()\<rparr>]\<rparr>"


theorem dec_sufficients_underflow_witness:
  "dec_sufficients True id 1 sample_system = Panic"
  using dec_sufficients_underflow [of sample_system 1 "\<lparr>ai_nonce = 0, ai_consumers = 1, ai_providers = 1, ai_sufficients = 0, ai_data = ()\<rparr>" id]
  by (simp add: sample_system_def)

theorem deposit_event_counts_witness:
  "map er_event (sys_events (deposit_event (NewAccount 7) sample_system)) = [NewAccount 7]"
  using deposit_event_counts [of sample_system "NewAccount 7"] by (simp add: sample_system_def events_inv_def)

end
