(* ===== verification/Offchain_Signer.thy ===== *)
theory Offchain_Signer
  imports Frame_System
begin

text \<open>
  \<open>frame/system/src/offchain.rs\<close>: how an off-chain worker signs transactions with the keys of the keystore and submits them to
  the pool.  The keystore, the construction of extrinsics by the runtime and the decision of the pool to accept an
  extrinsic are parameters.
\<close>

record ('pub, 'acc) signer_account =
  sa_index :: nat
  sa_id :: 'acc
  sa_public :: 'pub

definition new_signer_account :: "nat \<Rightarrow> 'acc \<Rightarrow> 'pub \<Rightarrow> ('pub, 'acc) signer_account" where
  "new_signer_account index i public = \<lparr>sa_index = index, sa_id = i, sa_public = public\<rparr>"

text \<open>The keys are those of the signer's crypto type, converted to the runtime's \<open>Public\<close>; a signer holds the keys it was
  restricted to by \<open>with_filter\<close>, if any.\<close>

record ('pub, 'acc, 'call, 'sig, 'xt) signing =
  sig_keys :: "'pub list"
  sig_into_account :: "'pub \<Rightarrow> 'acc"
  sig_create_transaction :: "'call \<Rightarrow> 'pub \<Rightarrow> 'acc \<Rightarrow> u32 \<Rightarrow> ('call \<times> 'sig) option"
  sig_extrinsic_new :: "'call \<Rightarrow> 'sig option \<Rightarrow> 'xt option"
  sig_accepts :: "'xt list \<Rightarrow> 'xt \<Rightarrow> bool"

record 'pub signer =
  sg_accounts :: "'pub list option"

definition all_accounts :: "'pub signer" where
  "all_accounts = \<lparr>sg_accounts = None\<rparr>"

definition with_filter :: "'pub list \<Rightarrow> 'pub signer \<Rightarrow> 'pub signer" where
  "with_filter accounts s = s\<lparr>sg_accounts := Some accounts\<rparr>"

definition number_accounts :: "('pub \<Rightarrow> 'acc) \<Rightarrow> 'pub list \<Rightarrow> ('pub, 'acc) signer_account list" where
  "number_accounts into_account keys = map (\<lambda>(index, key). new_signer_account index (into_account key) key) (enumerate 0 keys)"

definition keystore_accounts :: "('pub, 'acc, 'call, 'sig, 'xt) signing \<Rightarrow> ('pub, 'acc) signer_account list" where
  "keystore_accounts sg = number_accounts (sig_into_account sg) (sig_keys sg)"

definition accounts_from_keys ::
  "('pub, 'acc, 'call, 'sig, 'xt) signing \<Rightarrow> 'pub signer \<Rightarrow> ('pub, 'acc) signer_account list" where
  "accounts_from_keys sg s =
     (case sg_accounts s of
        None \<Rightarrow> keystore_accounts sg
      | Some keys \<Rightarrow>
          (let keystore_lookup = set (map sa_public (keystore_accounts sg))
           in filter (\<lambda>account. sa_public account \<in> keystore_lookup) (number_accounts (sig_into_account sg) keys)))"

definition can_sign :: "('pub, 'acc, 'call, 'sig, 'xt) signing \<Rightarrow> 'pub signer \<Rightarrow> bool" where
  "can_sign sg s \<longleftrightarrow> 0 < length (accounts_from_keys sg s)"

text \<open>\<open>for_all\<close> and \<open>for_any\<close> with the state the closure changes written out.\<close>

primrec for_all ::
  "('a \<Rightarrow> 's \<Rightarrow> ('s \<times> 'r option) exec) \<Rightarrow> 'a list \<Rightarrow> 's \<Rightarrow> ('s \<times> ('a \<times> 'r) list) exec" where
  "for_all f [] s = Done (s, [])"
| "for_all f (a # as) s =
     bind_exec (f a s) (\<lambda>(s, r).
     bind_exec (for_all f as s) (\<lambda>(s, rs).
     Done (s, case r of None \<Rightarrow> rs | Some res \<Rightarrow> (a, res) # rs)))"

primrec for_any ::
  "('a \<Rightarrow> 's \<Rightarrow> ('s \<times> 'r option) exec) \<Rightarrow> 'a list \<Rightarrow> 's \<Rightarrow> ('s \<times> ('a \<times> 'r) option) exec" where
  "for_any f [] s = Done (s, None)"
| "for_any f (a # as) s =
     bind_exec (f a s) (\<lambda>(s, r).
     case r of Some res \<Rightarrow> Done (s, Some (a, res)) | None \<Rightarrow> for_any f as s)"

definition submit_transaction ::
  "('pub, 'acc, 'call, 'sig, 'xt) signing \<Rightarrow> 'call \<Rightarrow> 'sig option \<Rightarrow> 'xt list \<Rightarrow> 'xt list \<times> (unit, unit) result" where
  "submit_transaction sg call signature pool =
     (case sig_extrinsic_new sg call signature of
        None \<Rightarrow> (pool, Err ())
      | Some xt \<Rightarrow> if sig_accepts sg pool xt then (pool @ [xt], Ok ()) else (pool, Err ()))"

definition submit_unsigned_transaction ::
  "('pub, 'acc, 'call, 'sig, 'xt) signing \<Rightarrow> 'call \<Rightarrow> 'xt list \<Rightarrow> 'xt list \<times> (unit, unit) result" where
  "submit_unsigned_transaction sg call pool = submit_transaction sg call None pool"

text \<open>The state is the worker's view of the chain, which is never persisted, and the pool.\<close>

definition send_single_signed_transaction ::
  "bool \<Rightarrow> 'data \<Rightarrow> ('pub, 'acc, 'call, 'sig, 'xt) signing \<Rightarrow> ('pub, 'acc) signer_account \<Rightarrow> 'call \<Rightarrow>
   ('acc, 'data, 'ev) system_state \<times> 'xt list \<Rightarrow>
   ((('acc, 'data, 'ev) system_state \<times> 'xt list) \<times> (unit, unit) result option) exec" where
  "send_single_signed_transaction checks dflt sg account call st =
     (let account_data = account_get dflt (sa_id account) (fst st) in
      case sig_create_transaction sg call (sa_public account) (sa_id account) (ai_nonce account_data) of
        None \<Rightarrow> Done (st, None)
      | Some (call, signature) \<Rightarrow>
          (case submit_transaction sg call (Some signature) (snd st) of
             (pool, Ok _) \<Rightarrow>
               bind_exec (add_u32 checks (ai_nonce account_data) 1) (\<lambda>nonce.
               Done ((put_account (sa_id account) (account_data\<lparr>ai_nonce := nonce\<rparr>) (fst st), pool), Some (Ok ())))
           | (pool, Err _) \<Rightarrow> Done ((fst st, pool), Some (Err ()))))"

definition send_signed_transaction_all ::
  "bool \<Rightarrow> 'data \<Rightarrow> ('pub, 'acc, 'call, 'sig, 'xt) signing \<Rightarrow> 'pub signer \<Rightarrow> (('pub, 'acc) signer_account \<Rightarrow> 'call) \<Rightarrow>
   ('acc, 'data, 'ev) system_state \<times> 'xt list \<Rightarrow>
   ((('acc, 'data, 'ev) system_state \<times> 'xt list) \<times> (('pub, 'acc) signer_account \<times> (unit, unit) result) list) exec" where
  "send_signed_transaction_all checks dflt sg s f st =
     for_all (\<lambda>account. send_single_signed_transaction checks dflt sg account (f account)) (accounts_from_keys sg s) st"

definition send_signed_transaction_any ::
  "bool \<Rightarrow> 'data \<Rightarrow> ('pub, 'acc, 'call, 'sig, 'xt) signing \<Rightarrow> 'pub signer \<Rightarrow> (('pub, 'acc) signer_account \<Rightarrow> 'call) \<Rightarrow>
   ('acc, 'data, 'ev) system_state \<times> 'xt list \<Rightarrow>
   ((('acc, 'data, 'ev) system_state \<times> 'xt list) \<times> (('pub, 'acc) signer_account \<times> (unit, unit) result) option) exec" where
  "send_signed_transaction_any checks dflt sg s f st =
     for_any (\<lambda>account. send_single_signed_transaction checks dflt sg account (f account)) (accounts_from_keys sg s) st"

section \<open>Every account sends, with fresh nonces\<close>

text \<open>A pool that takes everything, over a runtime that can sign for every key: an extrinsic is recorded as its
  call, signer and nonce.\<close>

definition open_signing :: "'pub list \<Rightarrow> ('pub \<Rightarrow> 'acc) \<Rightarrow>
  ('pub, 'acc, 'call, 'acc \<times> u32, 'call \<times> 'acc \<times> u32) signing" where
  "open_signing keys into_account = \<lparr>sig_keys = keys, sig_into_account = into_account,
     sig_create_transaction = (\<lambda>call _ acc nonce. Some (call, (acc, nonce))),
     sig_extrinsic_new = (\<lambda>call sig. map_option (\<lambda>(acc, nonce). (call, acc, nonce)) sig),
     sig_accepts = (\<lambda>_ _. True)\<rparr>"

definition nonce_of :: "'data \<Rightarrow> 'acc \<Rightarrow> ('acc, 'data, 'ev) system_state \<Rightarrow> u32" where
  "nonce_of dflt who sys = ai_nonce (account_get dflt who sys)"

lemma send_single_open:
  assumes "unat (nonce_of dflt (sa_id a) sys) + 1 < 2 ^ 32"
  shows "\<exists>sys'. send_single_signed_transaction checks dflt (open_signing keys ia) a call (sys, pool) =
      Done ((sys', pool @ [(call, sa_id a, nonce_of dflt (sa_id a) sys)]), Some (Ok ())) \<and>
    (\<forall>who. nonce_of dflt who sys' = (if who = sa_id a then nonce_of dflt who sys + 1 else nonce_of dflt who sys))"
proof -
  let ?d = "account_get dflt (sa_id a) sys"
  let ?sys = "put_account (sa_id a) (?d\<lparr>ai_nonce := ai_nonce ?d + 1\<rparr>) sys"
  have "add_u32 checks (ai_nonce ?d) 1 = Done (ai_nonce ?d + 1)"
    using assms by (simp add: add_u32_def checked_add_def nonce_of_def)
  then have "send_single_signed_transaction checks dflt (open_signing keys ia) a call (sys, pool) =
      Done ((?sys, pool @ [(call, sa_id a, nonce_of dflt (sa_id a) sys)]), Some (Ok ()))"
    by (simp add: send_single_signed_transaction_def open_signing_def submit_transaction_def nonce_of_def Let_def)
  moreover have "\<forall>who. nonce_of dflt who ?sys = (if who = sa_id a then nonce_of dflt who sys + 1 else nonce_of dflt who sys)"
    by (simp add: nonce_of_def account_get_def put_account_def)
  ultimately show ?thesis by blast
qed

lemma for_all_open:
  assumes "distinct (map sa_id as)" "\<forall>a\<in>set as. unat (nonce_of dflt (sa_id a) sys) + 1 < 2 ^ 32"
  shows "\<exists>sys'. for_all (\<lambda>a. send_single_signed_transaction checks dflt (open_signing keys ia) a (f a)) as (sys, pool) =
      Done ((sys', pool @ map (\<lambda>a. (f a, sa_id a, nonce_of dflt (sa_id a) sys)) as), map (\<lambda>a. (a, Ok ())) as) \<and>
    (\<forall>who. nonce_of dflt who sys' = (if who \<in> sa_id ` set as then nonce_of dflt who sys + 1 else nonce_of dflt who sys))"
  using assms
proof (induction as arbitrary: sys pool)
  case Nil
  then show ?case by simp
next
  case (Cons a as)
  obtain sys1 where s1: "send_single_signed_transaction checks dflt (open_signing keys ia) a (f a) (sys, pool) =
      Done ((sys1, pool @ [(f a, sa_id a, nonce_of dflt (sa_id a) sys)]), Some (Ok ()))"
    "\<forall>who. nonce_of dflt who sys1 = (if who = sa_id a then nonce_of dflt who sys + 1 else nonce_of dflt who sys)"
    using send_single_open [of dflt a sys checks keys ia "f a" pool] Cons.prems(2) by auto
  have ne: "sa_id b \<noteq> sa_id a" if "b \<in> set as" for b
    using Cons.prems(1) imageI [OF that, of sa_id] by (metis distinct.simps(2) list.map(2) set_map)
  then have "\<forall>b\<in>set as. unat (nonce_of dflt (sa_id b) sys1) + 1 < 2 ^ 32" using Cons.prems(2) s1(2) by simp
  with Cons.IH [of sys1 "pool @ [(f a, sa_id a, nonce_of dflt (sa_id a) sys)]"] Cons.prems(1)
  obtain sys2 where s2: "for_all (\<lambda>a. send_single_signed_transaction checks dflt (open_signing keys ia) a (f a)) as
        (sys1, pool @ [(f a, sa_id a, nonce_of dflt (sa_id a) sys)]) =
      Done ((sys2, (pool @ [(f a, sa_id a, nonce_of dflt (sa_id a) sys)]) @
        map (\<lambda>a. (f a, sa_id a, nonce_of dflt (sa_id a) sys1)) as), map (\<lambda>a. (a, Ok ())) as)"
    "\<forall>who. nonce_of dflt who sys2 = (if who \<in> sa_id ` set as then nonce_of dflt who sys1 + 1 else nonce_of dflt who sys1)"
    unfolding list.map(2) distinct.simps(2) by blast
  have "map (\<lambda>a. (f a, sa_id a, nonce_of dflt (sa_id a) sys1)) as = map (\<lambda>a. (f a, sa_id a, nonce_of dflt (sa_id a) sys)) as"
    using ne s1(2) by simp
  with s1(1) s2(1) have "for_all (\<lambda>a. send_single_signed_transaction checks dflt (open_signing keys ia) a (f a)) (a # as) (sys, pool) =
      Done ((sys2, pool @ map (\<lambda>a. (f a, sa_id a, nonce_of dflt (sa_id a) sys)) (a # as)), map (\<lambda>a. (a, Ok ())) (a # as))"
    by (simp add: exec_simps)
  moreover have "sa_id a \<notin> sa_id ` set as" using ne by (metis imageE)
  then have "\<forall>who. nonce_of dflt who sys2 =
      (if who \<in> sa_id ` set (a # as) then nonce_of dflt who sys + 1 else nonce_of dflt who sys)"
    using s1(2) s2(2) by simp
  ultimately show ?case by blast
qed

lemma accounts_from_keys_all:
  "map sa_id (accounts_from_keys sg all_accounts) = map (sig_into_account sg) (sig_keys sg)"
proof -
  have "map (\<lambda>x. sig_into_account sg (snd x)) (enumerate n ks) = map (sig_into_account sg) ks" for n ks
    by (induction ks arbitrary: n) simp_all
  then show ?thesis
    by (simp add: accounts_from_keys_def all_accounts_def keystore_accounts_def number_accounts_def new_signer_account_def
        split_def comp_def)
qed

end
