(* ===== verification/Tds_Ipfs.thy ===== *)
theory Tds_Ipfs
  imports Ipfs_Core Offchain_Signer
begin

text \<open>
  The pallet \<open>frame/tds-ipfs/src/lib.rs\<close>: the call that queues bytes for the workers, the off-chain worker that processes
  the queue over IPFS and sends signed callbacks, and the callback that stores the file on chain.  The chain state
  is the part of the runtime's storage these touch; hash functions, the SCALE codecs and the runtime's event
  type are parameters.
\<close>

section \<open>State\<close>

datatype 'acc tds_event =
    Ev_ConnectionRequested 'acc
  | Ev_DisconnectedRequested 'acc
  | Ev_QueuedDataToAdd 'acc 'acc
  | Ev_QueuedDataToCat 'acc
  | Ev_QueuedDataToPin 'acc
  | Ev_QueuedDataToRemove 'acc
  | Ev_QueuedDataToUnpin 'acc
  | Ev_FindPeerIssued 'acc
  | Ev_FindProvidersIssued 'acc
  | Ev_OcwCallback 'acc
  | Ev_ConnectedTo 'acc bytes
  | Ev_DisconnectedFrom 'acc bytes
  | Ev_AddedCid 'acc bytes
  | Ev_CatBytes 'acc bytes bytes
  | Ev_InsertedPin 'acc bytes
  | Ev_RemovedPin 'acc bytes
  | Ev_RemovedBlock 'acc bytes
  | Ev_FoundPeers 'acc bytes
  | Ev_CidProviders 'acc bytes bytes

text \<open>What the runtime supplies: codecs, hash functions and the conversion of events.\<close>

record ('acc, 'ev) tds_config =
  cfg_codecs :: core_codecs
  cfg_cid_codec :: "bytes codec"
  cfg_blake2_256 :: "bytes \<Rightarrow> bytes"
  cfg_blake2_128 :: "bytes \<Rightarrow> bytes"
  cfg_into :: "'acc tds_event \<Rightarrow> 'ev"

text \<open>\<open>tc_random\<close> is the (encoded) hash that \<open>IpfsRandomness::random\<close> returns in the current block; \<open>tc_files\<close> is the storage
  of \<open>IpfsFileStorage\<close> by raw key.\<close>

record ('acc, 'data, 'ev) tds_chain =
  tc_sys :: "('acc, 'data, 'ev) system_state"
  tc_io :: "local_storage core_io"
  tc_random :: bytes
  tc_commands :: "'acc command_request list option"
  tc_files :: "(bytes \<times> ipfs_file) list"

definition blake2_128_concat :: "(bytes \<Rightarrow> bytes) \<Rightarrow> bytes \<Rightarrow> bytes" where
  "blake2_128_concat blake2_128 x = blake2_128 x @ x"

definition cid_key :: "('acc, 'ev) tds_config \<Rightarrow> bytes \<Rightarrow> bytes" where
  "cid_key cfg cid = blake2_128_concat (cfg_blake2_128 cfg) (encode (cfg_cid_codec cfg) cid)"

definition file_try_get :: "('acc, 'ev) tds_config \<Rightarrow> bytes \<Rightarrow> (bytes \<times> ipfs_file) list \<Rightarrow> ipfs_file option" where
  "file_try_get cfg cid files = map_of files (cid_key cfg cid)"

definition file_insert ::
  "('acc, 'ev) tds_config \<Rightarrow> bytes \<Rightarrow> ipfs_file \<Rightarrow> (bytes \<times> ipfs_file) list \<Rightarrow> (bytes \<times> ipfs_file) list" where
  "file_insert cfg cid file files = AList.update (cid_key cfg cid) file files"

text \<open>Iteration over a storage map follows the order of the raw keys.\<close>

definition file_iter_values :: "(bytes \<times> ipfs_file) list \<Rightarrow> ipfs_file list" where
  "file_iter_values files = map snd (sort_key fst files)"

definition tds_deposit_event ::
  "('acc, 'ev) tds_config \<Rightarrow> 'acc tds_event \<Rightarrow> ('acc, 'data, 'ev) tds_chain \<Rightarrow> ('acc, 'data, 'ev) tds_chain" where
  "tds_deposit_event cfg ev st = st\<lparr>tc_sys := deposit_event (cfg_into cfg ev) (tc_sys st)\<rparr>"

definition genesis_build :: "('acc, 'data, 'ev) tds_chain \<Rightarrow> ('acc, 'data, 'ev) tds_chain" where
  "genesis_build st = st\<lparr>tc_commands := Some []\<rparr>"

section \<open>Helpers\<close>

definition find_value_of_type_in_vector :: "ipfs_command \<Rightarrow> ipfs_command list \<Rightarrow> ipfs_command option" where
  "find_value_of_type_in_vector v vector = List.find (\<lambda>curr_value. eq_type v curr_value) vector"

definition contains_value_of_type_in_vector :: "ipfs_command \<Rightarrow> ipfs_command list \<Rightarrow> bool" where
  "contains_value_of_type_in_vector v vector =
     (case find_value_of_type_in_vector v vector of Some _ \<Rightarrow> True | None \<Rightarrow> False)"

definition ipfs_gateway_url_for_cid :: "bytes \<Rightarrow> bytes" where
  "ipfs_gateway_url_for_cid cid = str_bytes ''https://ipfs.io/ipfs/'' @ cid"

definition get_file_url_for_meta_data :: "bytes \<Rightarrow> ('acc, 'data, 'ev) tds_chain \<Rightarrow> bytes" where
  "get_file_url_for_meta_data meta_data st =
     (case List.find (\<lambda>curr_file. if_meta_data curr_file = meta_data) (file_iter_values (tc_files st)) of
        Some file \<Rightarrow> ipfs_gateway_url_for_cid (if_cid file)
      | None \<Rightarrow> [])"

definition get_file_url_for_cid :: "('acc, 'ev) tds_config \<Rightarrow> bytes \<Rightarrow> ('acc, 'data, 'ev) tds_chain \<Rightarrow> bytes" where
  "get_file_url_for_cid cfg cid_bytes st =
     (case file_try_get cfg cid_bytes (tc_files st) of
        None \<Rightarrow> []
      | Some _ \<Rightarrow> ipfs_gateway_url_for_cid cid_bytes)"

definition store_ipfs_file_info ::
  "('acc, 'ev) tds_config \<Rightarrow> ipfs_file \<Rightarrow> ('acc, 'data, 'ev) tds_chain \<Rightarrow> ('acc, 'data, 'ev) tds_chain" where
  "store_ipfs_file_info cfg ipfs_file st = st\<lparr>tc_files := file_insert cfg (if_cid ipfs_file) ipfs_file (tc_files st)\<rparr>"

definition handle_add_bytes_completed ::
  "('acc, 'ev) tds_config \<Rightarrow> bytes \<Rightarrow> offchain_data option \<Rightarrow> ('acc, 'data, 'ev) tds_chain \<Rightarrow>
   ('acc, 'data, 'ev) tds_chain" where
  "handle_add_bytes_completed cfg cid offchain_data st =
     (case offchain_data of
        Some d \<Rightarrow> store_ipfs_file_info cfg (new_ipfs_file cid (od_meta_data d)) st
      | None \<Rightarrow> st)"

definition handle_data_for_ocw_callback ::
  "('acc, 'ev) tds_config \<Rightarrow> bytes \<Rightarrow> offchain_data option \<Rightarrow> 'acc command_request option \<Rightarrow>
   ('acc, 'data, 'ev) tds_chain \<Rightarrow> ('acc, 'data, 'ev) tds_chain" where
  "handle_data_for_ocw_callback cfg data offchain_data callback_command st =
     (case callback_command of
        Some cmd_request \<Rightarrow>
          (if contains_value_of_type_in_vector (AddBytes 0) (cr_ipfs_commands cmd_request)
           then handle_add_bytes_completed cfg data offchain_data st else st)
      | None \<Rightarrow> st)"

primrec callback_event :: "'acc \<Rightarrow> bytes \<Rightarrow> ipfs_command \<Rightarrow> 'acc tds_event" where
  "callback_event requester data (ConnectTo address) = Ev_ConnectedTo requester address"
| "callback_event requester data (DisconnectFrom address) = Ev_DisconnectedFrom requester address"
| "callback_event requester data (AddBytes _) = Ev_AddedCid requester data"
| "callback_event requester data (CatBytes cid) = Ev_CatBytes requester cid data"
| "callback_event requester data (InsertPin cid) = Ev_InsertedPin requester cid"
| "callback_event requester data (RemoveBlock cid) = Ev_RemovedBlock requester cid"
| "callback_event requester data (RemovePin cid) = Ev_RemovedPin requester cid"
| "callback_event requester data (FindPeer _) = Ev_FoundPeers requester data"
| "callback_event requester data (GetProviders cid) = Ev_CidProviders requester cid data"

definition command_callback ::
  "('acc, 'ev) tds_config \<Rightarrow> 'acc command_request \<Rightarrow> bytes \<Rightarrow> ('acc, 'data, 'ev) tds_chain \<Rightarrow>
   ('acc, 'data, 'ev) tds_chain \<times> (unit, unit) result" where
  "command_callback cfg command_request data st =
     (fold (\<lambda>command. tds_deposit_event cfg (callback_event (cr_requester command_request) data command))
        (cr_ipfs_commands command_request) st, Ok ())"

section \<open>Calls\<close>

definition add_bytes ::
  "('acc, 'ev) tds_config \<Rightarrow> 'acc raw_origin \<Rightarrow> bytes \<Rightarrow> byte \<Rightarrow> bytes \<Rightarrow> ('acc, 'data, 'ev) tds_chain \<Rightarrow>
   (('acc, 'data, 'ev) tds_chain \<times> (unit, dispatch_error) result) exec" where
  "add_bytes cfg origin received_bytes version meta_data st =
     (case ensure_signed origin of
        Err e \<Rightarrow> Done (st, Err e)
      | Ok requester \<Rightarrow>
          (let block_number = sys_number (tc_sys st) in
           bind_exec (store_cid_data_for_values local_ops (cfg_codecs cfg) block_number received_bytes meta_data False (tc_io st))
             (\<lambda>io.
           let st = st\<lparr>tc_io := io\<rparr>;
               commands = [AddBytes version];
               ipfs_command_request =
                 \<lparr>cr_identifier = generate_id (cfg_blake2_256 cfg) (cfg_codecs cfg) (tc_random st) (sys_number (tc_sys st)),
                  cr_requester = requester, cr_ipfs_commands = commands\<rparr>;
               st = st\<lparr>tc_commands := Some (case_option [] id (tc_commands st) @ [ipfs_command_request])\<rparr>
           in Done (tds_deposit_event cfg (Ev_QueuedDataToAdd requester requester) st, Ok ()))))"

definition ocw_callback ::
  "('acc, 'ev) tds_config \<Rightarrow> 'acc raw_origin \<Rightarrow> bytes \<Rightarrow> bytes \<Rightarrow> offchain_data option \<Rightarrow> ('acc, 'data, 'ev) tds_chain \<Rightarrow>
   (('acc, 'data, 'ev) tds_chain \<times> (unit, dispatch_error) result) exec" where
  "ocw_callback cfg origin identifier data offchain_data st =
     (case ensure_signed origin of
        Err e \<Rightarrow> Done (st, Err e)
      | Ok signer \<Rightarrow>
          bind_exec (expect (tc_commands st)) (\<lambda>commands.
          bind_exec (case position (\<lambda>cmd. cr_identifier cmd = identifier) commands of
              Some index \<Rightarrow> bind_exec (swap_remove index commands) (\<lambda>(c, commands). Done (Some c, commands))
            | None \<Rightarrow> Done (None, commands)) (\<lambda>(callback_command, commands).
          let st = st\<lparr>tc_commands := Some commands\<rparr>;
              st = tds_deposit_event cfg (Ev_OcwCallback signer) st;
              st = handle_data_for_ocw_callback cfg data offchain_data callback_command st
          in bind_exec (expect callback_command) (\<lambda>c.
             case command_callback cfg c data st of
               (st, Ok _) \<Rightarrow> Done (st, Ok ())
             | (st, Err _) \<Rightarrow> Done (st, Err Corruption)))))"

section \<open>The off-chain worker\<close>

definition PROCESSED_COMMANDS :: bytes where
  "PROCESSED_COMMANDS = str_bytes ''ipfs::processed_commands''"

datatype 'acc tds_call =
    Call_add_bytes bytes byte bytes
  | Call_ocw_callback bytes bytes "offchain_data option"

text \<open>What a worker works on: the off-chain database, the world of the IPFS host, its view of the accounts and the pool.\<close>

record ('acc, 'data, 'ev, 'w, 'xt) worker =
  wk_db :: "local_storage db_ext"
  wk_world :: 'w
  wk_sys :: "('acc, 'data, 'ev) system_state"
  wk_pool :: "'xt list"

text \<open>The surroundings of a worker: the host interface and its clock, overflow checks, the default account
  data, the keys, and what other workers do to the database while this one updates it.\<close>

record ('acc, 'data, 'w, 'pub, 'sig, 'xt) worker_env =
  we_host :: "'w ipfs_host"
  we_now :: "'w \<Rightarrow> timestamp"
  we_checks :: bool
  we_default :: 'data
  we_signing :: "('pub, 'acc, 'acc tds_call, 'sig, 'xt) signing"
  we_other :: "'acc command_request \<Rightarrow> local_storage db_ext \<Rightarrow> local_storage db_ext"
  we_other_list :: "'acc command_request \<Rightarrow> local_storage db_ext \<Rightarrow> local_storage db_ext"

definition signed_callback ::
  "('acc, 'data, 'w, 'pub, 'sig, 'xt) worker_env \<Rightarrow> 'acc command_request \<Rightarrow> bytes \<Rightarrow> offchain_data option \<Rightarrow>
   ('acc, 'data, 'ev, 'w, 'xt) worker \<Rightarrow> (('acc, 'data, 'ev, 'w, 'xt) worker \<times> (unit, core_error) result) exec" where
  "signed_callback env command_request data offchain_data wk =
     (let signer = all_accounts in
      if \<not> can_sign (we_signing env) signer then Done (wk, Err RequestFailed)
      else
        bind_exec (send_signed_transaction_all (we_checks env) (we_default env) (we_signing env) signer
            (\<lambda>_. Call_ocw_callback (cr_identifier command_request) data offchain_data) (wk_sys wk, wk_pool wk))
          (\<lambda>((sys, pool), results). Done (wk\<lparr>wk_sys := sys, wk_pool := pool\<rparr>, Ok ())))"

definition process_one ::
  "('acc, 'ev) tds_config \<Rightarrow> ('acc, 'data, 'w, 'pub, 'sig, 'xt) worker_env \<Rightarrow> u32 \<Rightarrow> 'acc command_request \<Rightarrow>
   ('acc, 'data, 'ev, 'w, 'xt) worker \<Rightarrow> ('acc, 'data, 'ev, 'w, 'xt) worker exec" where
  "process_one cfg env block_number command_request wk =
     bind_exec (read_cid_data_for_block_number local_ops (cfg_codecs cfg) block_number (wk_db wk)) (\<lambda>d.
     let offchain_data = (case d of Ok data \<Rightarrow> data | Err _ \<Rightarrow> None) in
     bind_exec (ocw_process_command local_ops (cfg_codecs cfg) (we_host env) (we_now env) (we_other env command_request)
         (we_other_list env command_request) block_number command_request PROCESSED_COMMANDS (wk_db wk, wk_world wk))
       (\<lambda>((db, w), r).
     let wk = wk\<lparr>wk_db := db, wk_world := w\<rparr> in
     case r of
       Ok responses \<Rightarrow>
         (let callback_response = ocw_parse_ipfs_response responses in
          bind_exec (signed_callback env command_request callback_response offchain_data wk) (\<lambda>(wk, _). Done wk))
     | Err _ \<Rightarrow> Done wk))"

primrec process_all ::
  "('acc, 'ev) tds_config \<Rightarrow> ('acc, 'data, 'w, 'pub, 'sig, 'xt) worker_env \<Rightarrow> u32 \<Rightarrow> 'acc command_request list \<Rightarrow>
   ('acc, 'data, 'ev, 'w, 'xt) worker \<Rightarrow> ('acc, 'data, 'ev, 'w, 'xt) worker exec" where
  "process_all cfg env block_number [] wk = Done wk"
| "process_all cfg env block_number (c # cs) wk =
     bind_exec (process_one cfg env block_number c wk) (\<lambda>wk. process_all cfg env block_number cs wk)"

definition ocw_process_command_requests ::
  "('acc, 'ev) tds_config \<Rightarrow> ('acc, 'data, 'w, 'pub, 'sig, 'xt) worker_env \<Rightarrow> ('acc, 'data, 'ev) tds_chain \<Rightarrow> u32 \<Rightarrow>
   ('acc, 'data, 'ev, 'w, 'xt) worker \<Rightarrow> ('acc, 'data, 'ev, 'w, 'xt) worker exec" where
  "ocw_process_command_requests cfg env chain block_number wk =
     process_all cfg env block_number (case_option [] id (tc_commands chain)) wk"

text \<open>The peers are only logged.\<close>

definition print_metadata ::
  "('acc, 'data, 'w, 'pub, 'sig, 'xt) worker_env \<Rightarrow> ('acc, 'data, 'ev, 'w, 'xt) worker \<Rightarrow>
   (('acc, 'data, 'ev, 'w, 'xt) worker \<times> (unit, core_error) result) exec" where
  "print_metadata env wk =
     bind_exec (core_ipfs_request (we_host env) (we_now env) Rq_Peers (wk_world wk)) (\<lambda>(w, r).
     Done (wk\<lparr>wk_world := w\<rparr>, case r of Err e \<Rightarrow> Err e | Ok _ \<Rightarrow> Ok ()))"

definition offchain_worker ::
  "('acc, 'ev) tds_config \<Rightarrow> ('acc, 'data, 'w, 'pub, 'sig, 'xt) worker_env \<Rightarrow> ('acc, 'data, 'ev) tds_chain \<Rightarrow> u32 \<Rightarrow>
   ('acc, 'data, 'ev, 'w, 'xt) worker \<Rightarrow> ('acc, 'data, 'ev, 'w, 'xt) worker exec" where
  "offchain_worker cfg env chain block_number wk =
     bind_exec (print_metadata env wk) (\<lambda>(wk, _). ocw_process_command_requests cfg env chain block_number wk)"


section \<open>The callback\<close>

lemma tds_deposit_event_simps [simp]:
  "tc_io (tds_deposit_event cfg e st) = tc_io st" "tc_random (tds_deposit_event cfg e st) = tc_random st"
  "tc_commands (tds_deposit_event cfg e st) = tc_commands st" "tc_files (tds_deposit_event cfg e st) = tc_files st"
  "tc_sys (tds_deposit_event cfg e st) = deposit_event (cfg_into cfg e) (tc_sys st)"
  by (simp_all add: tds_deposit_event_def)

lemma fold_deposit_event_simps:
  "tc_io (fold (\<lambda>c. tds_deposit_event cfg (f c)) cs st) = tc_io st"
  "tc_commands (fold (\<lambda>c. tds_deposit_event cfg (f c)) cs st) = tc_commands st"
  "tc_files (fold (\<lambda>c. tds_deposit_event cfg (f c)) cs st) = tc_files st"
  "tc_sys (fold (\<lambda>c. tds_deposit_event cfg (f c)) cs st) = fold (\<lambda>c. deposit_event (cfg_into cfg (f c))) cs (tc_sys st)"
  by (induction cs arbitrary: st) simp_all

lemma contains_AddBytes_iff: "contains_value_of_type_in_vector (AddBytes 0) cs \<longleftrightarrow> (\<exists>v. AddBytes v \<in> set cs)"
proof -
  have "eq_type (AddBytes 0) c \<longleftrightarrow> (\<exists>v. c = AddBytes v)" for c by (cases c) (simp_all add: eq_type_def)
  then show ?thesis
    by (auto simp: contains_value_of_type_in_vector_def find_value_of_type_in_vector_def find_None_iff find_Some_iff
        in_set_conv_nth split: option.split)
qed

text \<open>The files after a callback for a request.\<close>

definition callback_files ::
  "('acc, 'ev) tds_config \<Rightarrow> 'acc command_request \<Rightarrow> bytes \<Rightarrow> offchain_data option \<Rightarrow> (bytes \<times> ipfs_file) list \<Rightarrow>
   (bytes \<times> ipfs_file) list" where
  "callback_files cfg c data offchain_data files =
     (case offchain_data of
        Some d \<Rightarrow> if \<exists>v. AddBytes v \<in> set (cr_ipfs_commands c)
          then file_insert cfg data (new_ipfs_file data (od_meta_data d)) files else files
      | None \<Rightarrow> files)"

lemma handle_data_simps:
  "handle_data_for_ocw_callback cfg data od (Some c) st = st\<lparr>tc_files := callback_files cfg c data od (tc_files st)\<rparr>"
  by (simp add: handle_data_for_ocw_callback_def callback_files_def handle_add_bytes_completed_def store_ipfs_file_info_def
      new_ipfs_file_def contains_AddBytes_iff split: option.split)

lemma ocw_callback_found:
  assumes "tc_commands st = Some cs" "position (\<lambda>cmd. cr_identifier cmd = i) cs = Some n"
  shows "\<exists>st'. ocw_callback cfg (Signed signer) i data od st = Done (st', Ok ()) \<and>
    tc_commands st' = Some (butlast (cs[n := last cs])) \<and> tc_io st' = tc_io st \<and>
    tc_files st' = callback_files cfg (cs ! n) data od (tc_files st) \<and>
    tc_sys st' = fold (\<lambda>e. deposit_event (cfg_into cfg e))
      (Ev_OcwCallback signer # map (callback_event (cr_requester (cs ! n)) data) (cr_ipfs_commands (cs ! n))) (tc_sys st)"
proof -
  have n: "n < length cs" using position_SomeD [OF assms(2)] by simp
  let ?st = "(tds_deposit_event cfg (Ev_OcwCallback signer) (st\<lparr>tc_commands := Some (butlast (cs[n := last cs]))\<rparr>))
    \<lparr>tc_files := callback_files cfg (cs ! n) data od (tc_files st)\<rparr>"
  have "ocw_callback cfg (Signed signer) i data od st = Done (fold (\<lambda>command. tds_deposit_event cfg
      (callback_event (cr_requester (cs ! n)) data command)) (cr_ipfs_commands (cs ! n)) ?st, Ok ())"
    using n by (simp add: ocw_callback_def assms swap_remove_def handle_data_simps command_callback_def Let_def)
  then show ?thesis by (simp add: fold_deposit_event_simps fold_map comp_def)
qed

lemma ocw_callback_unknown:
  assumes "tc_commands st = Some cs" "position (\<lambda>cmd. cr_identifier cmd = i) cs = None"
  shows "ocw_callback cfg (Signed signer) i data od st = Panic"
  by (simp add: ocw_callback_def assms Let_def)

text \<open>C31: the callback settles exactly one request.  For a signed callback with an identifier that is queued, one request with
  that identifier leaves the queue, the others stay, the file is stored if the request adds bytes and data is
  given, and the events are \<open>OcwCallback\<close> followed by one per command; if the identifiers in the queue are distinct, a second
  callback for it panics, as does a callback for an identifier that is not queued.  An unsigned callback is refused.\<close>

theorem ocw_callback_settles_one_request:
  assumes "tc_commands st = Some cs"
  shows "ocw_callback cfg Root i data od st = Done (st, Err BadOrigin) \<and>
    (if \<exists>c\<in>set cs. cr_identifier c = i
     then \<exists>c rest st'. c \<in> set cs \<and> cr_identifier c = i \<and>
       ocw_callback cfg (Signed signer) i data od st = Done (st', Ok ()) \<and>
       tc_commands st' = Some rest \<and> mset cs = add_mset c (mset rest) \<and>
       tc_files st' = callback_files cfg c data od (tc_files st) \<and>
       tc_sys st' = fold (\<lambda>e. deposit_event (cfg_into cfg e))
         (Ev_OcwCallback signer # map (callback_event (cr_requester c) data) (cr_ipfs_commands c)) (tc_sys st) \<and>
       (distinct (map cr_identifier cs) \<longrightarrow> ocw_callback cfg (Signed signer') i data' od' st' = Panic)
     else ocw_callback cfg (Signed signer) i data od st = Panic)"
proof (cases "position (\<lambda>cmd. cr_identifier cmd = i) cs")
  case None
  with assms show ?thesis
    by (simp add: ocw_callback_unknown) (auto simp: position_None_iff ocw_callback_def)
next
  case (Some n)
  note n = position_SomeD [OF Some]
  let ?rest = "butlast (cs[n := last cs])"
  have m: "mset cs = add_mset (cs ! n) (mset ?rest)" using n by (simp add: mset_butlast_update_last)
  obtain st' where st': "ocw_callback cfg (Signed signer) i data od st = Done (st', Ok ())" "tc_commands st' = Some ?rest"
    "tc_files st' = callback_files cfg (cs ! n) data od (tc_files st)"
    "tc_sys st' = fold (\<lambda>e. deposit_event (cfg_into cfg e))
      (Ev_OcwCallback signer # map (callback_event (cr_requester (cs ! n)) data) (cr_ipfs_commands (cs ! n))) (tc_sys st)"
    using ocw_callback_found [OF assms Some, of cfg signer data od] by blast
  have "ocw_callback cfg (Signed signer') i data' od' st' = Panic" if d: "distinct (map cr_identifier cs)"
  proof (rule ocw_callback_unknown [OF st'(2)])
    have "mset (map cr_identifier cs) = add_mset i (mset (map cr_identifier ?rest))" using m n by simp
    then have "i \<notin> set (map cr_identifier ?rest)"
      using d by (metis distinct.simps(2) mset.simps(2) mset_eq_imp_distinct_iff)
    then show "position (\<lambda>cmd. cr_identifier cmd = i) ?rest = None" by (auto simp: position_None_iff)
  qed
  moreover have "\<exists>c\<in>set cs. cr_identifier c = i" "cs ! n \<in> set cs" "cr_identifier (cs ! n) = i" using n by auto
  moreover have "ocw_callback cfg Root i data od st = Done (st, Err BadOrigin)" by (simp add: ocw_callback_def)
  ultimately show ?thesis using st' m by auto
qed

section \<open>Queueing bytes\<close>

abbreviation tds_id :: "('acc, 'ev) tds_config \<Rightarrow> ('acc, 'data, 'ev) tds_chain \<Rightarrow> bytes" where
  "tds_id cfg st \<equiv> generate_id (cfg_blake2_256 cfg) (cfg_codecs cfg) (tc_random st) (sys_number (tc_sys st))"

lemma add_bytes_effect:
  assumes "index_ok (io_overlay (tc_io st))"
  obtains oc st' where "add_bytes cfg (Signed a) bs v meta st = Done (st', Ok ())"
    "index_ok oc" "io_overlay (tc_io st') = oc" "tc_random st' = tc_random st" "sys_number (tc_sys st') = sys_number (tc_sys st)"
    "index_view oc = (index_view (io_overlay (tc_io st)))(offchain_data_key (cfg_codecs cfg) (sys_number (tc_sys st)) \<mapsto>
       SetValue (encode (data_codec (cfg_codecs cfg)) (new_offchain_data bs meta)))"
    "tc_commands st' = Some (case_option [] id (tc_commands st) @
       [\<lparr>cr_identifier = tds_id cfg st, cr_requester = a, cr_ipfs_commands = [AddBytes v]\<rparr>])"
    "tc_files st' = tc_files st"
    "tc_sys st' = deposit_event (cfg_into cfg (Ev_QueuedDataToAdd a a)) (tc_sys st)"
proof -
  let ?k = "offchain_data_key (cfg_codecs cfg) (sys_number (tc_sys st))"
  let ?v = "encode (data_codec (cfg_codecs cfg)) (new_offchain_data bs meta)"
  obtain oc where oc: "set_offchain_storage ?k (Some ?v) (io_overlay (tc_io st)) = Done oc" "index_ok oc"
    "index_view oc = (index_view (io_overlay (tc_io st)))(?k \<mapsto> SetValue ?v)"
    using set_offchain_storage_view [OF assms, of ?k "Some ?v"] by auto
  have "store_cid_data_for_values local_ops (cfg_codecs cfg) (sys_number (tc_sys st)) bs meta False (tc_io st) =
      Done ((tc_io st)\<lparr>io_overlay := oc\<rparr>)"
    by (simp add: store_cid_data_for_values_def store_cid_data_def store_cid_data_for_key_def store_offchain_data_def
        offchain_index_set_def oc(1))
  then have "add_bytes cfg (Signed a) bs v meta st = Done (tds_deposit_event cfg (Ev_QueuedDataToAdd a a)
      (st\<lparr>tc_io := (tc_io st)\<lparr>io_overlay := oc\<rparr>, tc_commands := Some (case_option [] id (tc_commands st) @
       [\<lparr>cr_identifier = tds_id cfg st, cr_requester = a, cr_ipfs_commands = [AddBytes v]\<rparr>])\<rparr>), Ok ())"
    by (simp add: add_bytes_def Let_def)
  from that [OF this oc(2)] oc(3) show ?thesis by simp
qed

text \<open>C30: requests of one block collide.  Two accounts that queue bytes in the same block get the same identifier, and the
  second call overwrites the data of the first: after the import a worker reads the second's data for both
  requests, and the bytes of the first are gone.\<close>

theorem same_block_requests_collide:
  assumes "index_ok (io_overlay (tc_io st))" "codec_ok (data_codec (cfg_codecs cfg))" "contains caps OFFCHAIN_DB_READ"
  shows "\<exists>st1 st2 r1 r2 kvs m.
    add_bytes cfg (Signed a1) bs1 v1 meta1 st = Done (st1, Ok ()) \<and> add_bytes cfg (Signed a2) bs2 v2 meta2 st1 = Done (st2, Ok ()) \<and>
    tc_commands st2 = Some (case_option [] id (tc_commands st) @ [r1, r2]) \<and>
    cr_requester r1 = a1 \<and> cr_requester r2 = a2 \<and> cr_identifier r1 = cr_identifier r2 \<and>
    offchain_drain (offchain (io_overlay (tc_io st2))) = Done (kvs, m) \<and>
    read_cid_for_block_number local_ops (cfg_codecs cfg) (sys_number (tc_sys st)) (Some (caps, import_offchain True kvs s)) =
      Done (Ok (new_offchain_data bs2 meta2))"
proof -
  obtain oc1 st1 where 1: "add_bytes cfg (Signed a1) bs1 v1 meta1 st = Done (st1, Ok ())" "index_ok oc1"
    "io_overlay (tc_io st1) = oc1" "tc_random st1 = tc_random st" "sys_number (tc_sys st1) = sys_number (tc_sys st)"
    "tc_commands st1 = Some (case_option [] id (tc_commands st) @
       [\<lparr>cr_identifier = tds_id cfg st, cr_requester = a1, cr_ipfs_commands = [AddBytes v1]\<rparr>])"
    by (rule add_bytes_effect [OF assms(1)])
  have "index_ok (io_overlay (tc_io st1))" using 1(2,3) by simp
  then obtain oc2 st2 where 2: "add_bytes cfg (Signed a2) bs2 v2 meta2 st1 = Done (st2, Ok ())" "index_ok oc2"
    "io_overlay (tc_io st2) = oc2"
    "index_view oc2 = (index_view (io_overlay (tc_io st1)))(offchain_data_key (cfg_codecs cfg) (sys_number (tc_sys st1)) \<mapsto>
       SetValue (encode (data_codec (cfg_codecs cfg)) (new_offchain_data bs2 meta2)))"
    "tc_commands st2 = Some (case_option [] id (tc_commands st1) @
       [\<lparr>cr_identifier = tds_id cfg st1, cr_requester = a2, cr_ipfs_commands = [AddBytes v2]\<rparr>])"
    by (rule add_bytes_effect)
  obtain kvs m where imp: "offchain_drain (offchain oc2) = Done (kvs, m)"
    "\<forall>key. db_lookup key (import_offchain True kvs s) =
       (case index_view oc2 key of Some (SetValue v) \<Rightarrow> Some v | Some Remove \<Rightarrow> None | None \<Rightarrow> db_lookup key s)"
    by (rule import_view [OF 2(2), where s = s])
  have "read_cid_for_block_number local_ops (cfg_codecs cfg) (sys_number (tc_sys st)) (Some (caps, import_offchain True kvs s)) =
      Done (Ok (new_offchain_data bs2 meta2))"
    using assms(2) by (simp add: read_cid_local [OF assms(3)] imp(2) 2(4) 1(5) decode_stored_def)
  with 1 2 imp(1) show ?thesis by fastforce
qed


section \<open>From the call to the file on chain\<close>

lemma keys_apart:
  assumes "length i = 32" "bn_codec cc = scale_u32"
  shows "i \<noteq> offchain_data_key cc bn" "PROCESSED_COMMANDS \<noteq> i"
proof -
  have l: "length (offchain_data_key cc bn) = 25" "length PROCESSED_COMMANDS = 24"
    by (simp_all add: offchain_data_key_def OFFCHAIN_KEY_PREFIX_def PROCESSED_COMMANDS_def assms(2) scale_u32_def le_bytes32_def)
  show "i \<noteq> offchain_data_key cc bn" using l assms(1) by auto
  show "PROCESSED_COMMANDS \<noteq> i" using l assms(1) by auto
qed

lemma command_adds_bytes:
  assumes caps: "contains caps OFFCHAIN_DB_READ" "contains caps OFFCHAIN_DB_WRITE"
    and ids: "length (cr_identifier cr) = 32" "bn_codec cc = scale_u32" "codec_ok (data_codec cc)"
    and db: "db_lookup (cr_identifier cr) s = None" "db_lookup (offchain_data_key cc bn) s = Some (encode (data_codec cc) d)"
    and cmds: "cr_ipfs_commands cr = [AddBytes v]"
    and node: "core_ipfs_request h now (Rq_AddBytes (od_data d) v) w = Done (w', Ok (Rs_AddBytes cid))"
  shows "\<exists>s'. ocw_process_command local_ops cc h now id id bn cr PROCESSED_COMMANDS (Some (caps, s), w) =
    Done ((Some (caps, s'), w'), Ok [Rs_AddBytes cid])"
proof -
  obtain s1 where s1: "acquire_command_request_lock local_ops cc bn cr id (Some (caps, s)) = Done (Some (caps, s1), Ok bn)"
    "\<forall>k. db_lookup k s1 = (if k = cr_identifier cr then Some (encode (bn_codec cc) bn) else db_lookup k s)"
    using acquire_local(2) [OF caps, of bn cc cr s bn] db(1) by (auto simp: lock_closure_def decode_stored_def)
  have "db_lookup (offchain_data_key cc bn) s1 = Some (encode (data_codec cc) d)"
    using s1(2) db(2) keys_apart(1) [OF ids(1,2), of bn] by simp
  then have "read_cid_for_block_number local_ops cc bn (Some (caps, s1)) = Done (Ok d)"
    using ids(3) by (simp add: read_cid_local [OF caps(1)] decode_stored_def)
  then have run: "run_commands local_ops cc h now bn (Some (caps, s1)) (cr_ipfs_commands cr) [] w = Done (w', Ok [Rs_AddBytes cid])"
    by (simp add: cmds node)
  obtain s2 ids' where "processed_commands local_ops cc cr PROCESSED_COMMANDS id (Some (caps, s1)) = Done (Some (caps, s2), Ok ids')"
    using processed_local [OF caps, of cc cr PROCESSED_COMMANDS s1] by blast
  then have "ocw_process_command local_ops cc h now id id bn cr PROCESSED_COMMANDS (Some (caps, s), w) =
      Done ((Some (caps, s2), w'), Ok [Rs_AddBytes cid])"
    by (simp add: ocw_process_command_def process_ipfs_command_def s1(1) run)
  then show ?thesis by blast
qed

text \<open>The callbacks a worker sends for a request: one per key.\<close>

definition callbacks ::
  "'pub list \<Rightarrow> ('pub \<Rightarrow> 'acc) \<Rightarrow> 'data \<Rightarrow> ('acc, 'data, 'ev) system_state \<Rightarrow> bytes \<Rightarrow> bytes \<Rightarrow> offchain_data option \<Rightarrow>
   ('acc tds_call \<times> 'acc \<times> u32) list" where
  "callbacks keys ia dflt sys i data od = map (\<lambda>k. (Call_ocw_callback i data od, ia k, nonce_of dflt (ia k) sys)) keys"

lemma signed_callback_open:
  assumes "we_signing env = open_signing keys ia" "keys \<noteq> []" "distinct (map ia keys)"
    and "\<forall>k\<in>set keys. unat (nonce_of (we_default env) (ia k) (wk_sys wk)) + 1 < 2 ^ 32"
  shows "\<exists>sys. signed_callback env cr data od wk =
    Done (wk\<lparr>wk_sys := sys, wk_pool := wk_pool wk @ callbacks keys ia (we_default env) (wk_sys wk) (cr_identifier cr) data od\<rparr>, Ok ())"
proof -
  let ?as = "accounts_from_keys (we_signing env) all_accounts"
  have ids: "map sa_id ?as = map ia keys" using accounts_from_keys_all [of "we_signing env"] by (simp add: assms(1) open_signing_def)
  have "set (map sa_id ?as) = set (map ia keys)" by (simp only: ids)
  then have ne: "sa_id a \<in> ia ` set keys" if "a \<in> set ?as" for a using that by auto
  have d: "distinct (map sa_id ?as)" using ids assms(3) by simp
  have "\<forall>a\<in>set ?as. unat (nonce_of (we_default env) (sa_id a) (wk_sys wk)) + 1 < 2 ^ 32" using ne assms(4) by fastforce
  from for_all_open [OF d this, of "we_checks env" keys ia "\<lambda>_. Call_ocw_callback (cr_identifier cr) data od" "wk_pool wk"]
  obtain sys where sys: "send_signed_transaction_all (we_checks env) (we_default env) (we_signing env) all_accounts
      (\<lambda>_. Call_ocw_callback (cr_identifier cr) data od) (wk_sys wk, wk_pool wk) =
    Done ((sys, wk_pool wk @ map (\<lambda>a. (Call_ocw_callback (cr_identifier cr) data od, sa_id a,
        nonce_of (we_default env) (sa_id a) (wk_sys wk))) ?as), map (\<lambda>a. (a, Ok ())) ?as)"
    unfolding send_signed_transaction_all_def assms(1) by blast
  have "map (\<lambda>a. (Call_ocw_callback (cr_identifier cr) data od, sa_id a, nonce_of (we_default env) (sa_id a) (wk_sys wk))) ?as =
      map (\<lambda>x. (Call_ocw_callback (cr_identifier cr) data od, x, nonce_of (we_default env) x (wk_sys wk))) (map sa_id ?as)"
    by simp
  also have "\<dots> = callbacks keys ia (we_default env) (wk_sys wk) (cr_identifier cr) data od"
    by (simp add: ids callbacks_def comp_def)
  finally have cb: "map (\<lambda>a. (Call_ocw_callback (cr_identifier cr) data od, sa_id a,
      nonce_of (we_default env) (sa_id a) (wk_sys wk))) ?as =
    callbacks keys ia (we_default env) (wk_sys wk) (cr_identifier cr) data od" .
  have "length (map sa_id ?as) = length keys" by (simp only: ids length_map)
  then have "can_sign (we_signing env) all_accounts" using assms(2) by (simp add: can_sign_def)
  with sys show ?thesis unfolding cb by (intro exI [of _ sys]) (simp add: signed_callback_def Let_def)
qed

text \<open>C29: the whole way of a file.  An account queues bytes in a block.  When the block has been imported and the IPFS node answers
  the worker's request to add exactly these bytes with a CID, the worker submits the callback with that CID and
  the data, signed once with each key and the account's current nonce.  The callback, executed on any later
  state that still has the queue, empties it, stores the CID with the meta data, reports \<open>AddedCid\<close> for the
  account, and from then on the pallet knows the gateway URL of the CID.\<close>

theorem added_bytes_reach_the_chain:
  fixes st :: "('acc, 'data, 'ev) tds_chain"
  assumes start: "index_ok (io_overlay (tc_io st))" "tc_commands st = Some []"
    and codecs: "bn_codec (cfg_codecs cfg) = scale_u32" "codec_ok (data_codec (cfg_codecs cfg))"
    and hash: "\<And>x. length (cfg_blake2_256 cfg x) = 32"
    and caps: "contains caps OFFCHAIN_DB_READ" "contains caps OFFCHAIN_DB_WRITE"
    and fresh: "index_view (io_overlay (tc_io st)) (tds_id cfg st) = None" "db_lookup (tds_id cfg st) s = None"
    and node: "core_ipfs_request (we_host env) (we_now env) Rq_Peers w = Done (w1, r1)"
      "core_ipfs_request (we_host env) (we_now env) (Rq_AddBytes bs v) w1 = Done (w2, Ok (Rs_AddBytes cid))"
    and keys: "we_signing env = open_signing keys ia" "keys \<noteq> []" "distinct (map ia keys)"
      "\<forall>k\<in>set keys. unat (nonce_of (we_default env) (ia k) sys) + 1 < 2 ^ 32"
    and alone: "we_other env = (\<lambda>_. id)" "we_other_list env = (\<lambda>_. id)"
  shows "\<exists>st1 kvs m wk.
    add_bytes cfg (Signed a) bs v meta st = Done (st1, Ok ()) \<and>
    offchain_drain (offchain (io_overlay (tc_io st1))) = Done (kvs, m) \<and>
    offchain_worker cfg env st1 (sys_number (tc_sys st))
      \<lparr>wk_db = Some (caps, import_offchain True kvs s), wk_world = w, wk_sys = sys, wk_pool = pool\<rparr> = Done wk \<and>
    wk_pool wk = pool @ callbacks keys ia (we_default env) sys (tds_id cfg st) cid (Some (new_offchain_data bs meta)) \<and>
    (\<forall>(st2 :: ('acc, 'data, 'ev) tds_chain) signer. tc_commands st2 = tc_commands st1 \<longrightarrow>
      (\<exists>st3. ocw_callback cfg (Signed signer) (tds_id cfg st) cid (Some (new_offchain_data bs meta)) st2 = Done (st3, Ok ()) \<and>
        tc_commands st3 = Some [] \<and> file_try_get cfg cid (tc_files st3) = Some (new_ipfs_file cid meta) \<and>
        get_file_url_for_cid cfg cid st3 = str_bytes ''https://ipfs.io/ipfs/'' @ cid \<and>
        tc_sys st3 = deposit_event (cfg_into cfg (Ev_AddedCid a cid))
          (deposit_event (cfg_into cfg (Ev_OcwCallback signer)) (tc_sys st2))))"
proof -
  let ?cc = "cfg_codecs cfg" and ?bn = "sys_number (tc_sys st)" and ?d = "new_offchain_data bs meta"
  let ?cr = "\<lparr>cr_identifier = tds_id cfg st, cr_requester = a, cr_ipfs_commands = [AddBytes v]\<rparr>"
  have idl: "length (tds_id cfg st) = 32" by (simp add: generate_id_def hash)
  obtain oc st1 where st1: "add_bytes cfg (Signed a) bs v meta st = Done (st1, Ok ())" "index_ok oc" "io_overlay (tc_io st1) = oc"
    "index_view oc = (index_view (io_overlay (tc_io st)))(offchain_data_key ?cc ?bn \<mapsto> SetValue (encode (data_codec ?cc) ?d))"
    "tc_commands st1 = Some (case_option [] id (tc_commands st) @ [?cr])"
    by (rule add_bytes_effect [OF start(1)])
  obtain kvs m where imp: "offchain_drain (offchain oc) = Done (kvs, m)"
    "\<forall>key. db_lookup key (import_offchain True kvs s) =
       (case index_view oc key of Some (SetValue v) \<Rightarrow> Some v | Some Remove \<Rightarrow> None | None \<Rightarrow> db_lookup key s)"
    by (rule import_view [OF st1(2), where s = s])
  let ?s = "import_offchain True kvs s"
  have db: "db_lookup (tds_id cfg st) ?s = None" "db_lookup (offchain_data_key ?cc ?bn) ?s = Some (encode (data_codec ?cc) ?d)"
    using imp(2) st1(4) fresh keys_apart(1) [OF idl codecs(1), of ?bn] by simp_all
  obtain s' where run: "ocw_process_command local_ops ?cc (we_host env) (we_now env) id id ?bn ?cr PROCESSED_COMMANDS
      (Some (caps, ?s), w1) = Done ((Some (caps, s'), w2), Ok [Rs_AddBytes cid])"
    using command_adds_bytes [OF caps, of ?cr ?cc ?s ?bn ?d v "we_host env" "we_now env" w1 w2 cid] idl codecs db node(2)
    by (auto simp: new_offchain_data_def)
  let ?wk = "\<lparr>wk_db = Some (caps, s'), wk_world = w2, wk_sys = sys, wk_pool = pool\<rparr>"
  obtain sys' where cb: "signed_callback env ?cr cid (Some ?d) ?wk =
      Done (?wk\<lparr>wk_sys := sys', wk_pool := pool @ callbacks keys ia (we_default env) sys (tds_id cfg st) cid (Some ?d)\<rparr>, Ok ())"
    using signed_callback_open [OF keys(1-3), of ?wk ?cr cid "Some ?d"] keys(4) by auto
  have "read_cid_data_for_block_number local_ops ?cc ?bn (Some (caps, ?s)) = Done (Ok (Some ?d))"
    using db(2) codecs(2) by (simp add: read_cid_data_local [OF caps(1)] decode_stored_def)
  then have "offchain_worker cfg env st1 ?bn \<lparr>wk_db = Some (caps, ?s), wk_world = w, wk_sys = sys, wk_pool = pool\<rparr> =
      Done (?wk\<lparr>wk_sys := sys', wk_pool := pool @ callbacks keys ia (we_default env) sys (tds_id cfg st) cid (Some ?d)\<rparr>)"
    by (simp add: offchain_worker_def print_metadata_def ocw_process_command_requests_def st1(5) start(2) process_one_def node(1)
        alone run ocw_parse_ipfs_response_def cb)
  moreover have "\<exists>st3. ocw_callback cfg (Signed signer) (tds_id cfg st) cid (Some ?d) st2 = Done (st3, Ok ()) \<and>
        tc_commands st3 = Some [] \<and> file_try_get cfg cid (tc_files st3) = Some (new_ipfs_file cid meta) \<and>
        get_file_url_for_cid cfg cid st3 = str_bytes ''https://ipfs.io/ipfs/'' @ cid \<and>
        tc_sys st3 = deposit_event (cfg_into cfg (Ev_AddedCid a cid))
          (deposit_event (cfg_into cfg (Ev_OcwCallback signer)) (tc_sys st2))"
    if "tc_commands st2 = tc_commands st1" for st2 :: "('acc, 'data, 'ev) tds_chain" and signer
  proof -
    have "tc_commands st2 = Some [?cr]" using that st1(5) start(2) by simp
    from ocw_callback_found [OF this, of "tds_id cfg st" 0 cfg signer cid "Some ?d"] show ?thesis
      by (auto simp: callback_files_def file_try_get_def file_insert_def get_file_url_for_cid_def ipfs_gateway_url_for_cid_def
          new_offchain_data_def update_conv)
  qed
  ultimately show ?thesis using st1(1,3) imp(1) by fastforce
qed


section \<open>Concrete instances\<close>

text \<open>A node that answers every request to add bytes with the same CID; its world is the request last sent.\<close>

definition sample_host :: "ipfs_request ipfs_host" where
  "sample_host = \<lparr>h_start = (\<lambda>rq _. (rq, Ok 1)),
     h_wait_until = (\<lambda>ids _ w. (w, map (\<lambda>_. case w of Rq_AddBytes _ _ \<Rightarrow> St_Finished (Rs_AddBytes [81, 109]) | _ \<Rightarrow> St_IoError []) ids)),
     h_wait = (\<lambda>_ _. None)\<rparr>"

definition sample_config :: "(nat, nat tds_event) tds_config" where
  "sample_config = \<lparr>cfg_codecs = sample_codecs, cfg_cid_codec = \<lparr>encode = tagged, decode = (\<lambda>b. Some (fst (untag (b @ [0]))))\<rparr>,
     cfg_blake2_256 = (\<lambda>x. replicate 32 (of_nat (length x))), cfg_blake2_128 = (\<lambda>x. replicate 16 (of_nat (length x))),
     cfg_into = id\<rparr>"

definition sample_chain :: "(nat, unit, nat tds_event) tds_chain" where
  "sample_chain = \<lparr>tc_sys = \<lparr>sys_number = 7, sys_execution_phase = None, sys_event_count = 0, sys_events = [],
       sys_event_topics = (\<lambda>_. []), sys_account = Map.empty\<rparr>,
     tc_io = \<lparr>io_overlay = default_changes, io_db = None\<rparr>, tc_random = [9], tc_commands = Some [], tc_files = []\<rparr>"

definition sample_env :: "(nat, unit, ipfs_request, nat, nat \<times> u32, nat tds_call \<times> nat \<times> u32) worker_env" where
  "sample_env = \<lparr>we_host = sample_host, we_now = (\<lambda>_. 0), we_checks = True, we_default = (),
     we_signing = open_signing [4] id, we_other = (\<lambda>_. id), we_other_list = (\<lambda>_. id)\<rparr>"

lemma sample_chain_ok:
  "index_ok (io_overlay (tc_io sample_chain))" "index_view (io_overlay (tc_io sample_chain)) k = None"
  using default_changes_ok
  by (simp_all add: sample_chain_def index_view_def default_changes_def current_conv_get)

lemma sample_config_ok:
  "codec_ok (data_codec (cfg_codecs sample_config))" "bn_codec (cfg_codecs sample_config) = scale_u32"
  "length (cfg_blake2_256 sample_config x) = 32"
  using sample_codecs_ok(2) by (simp_all add: sample_config_def sample_codecs_def)

theorem ocw_callback_settles_one_request_witness:
  "\<exists>st'. ocw_callback sample_config (Signed 4) [5] [1] None (sample_chain\<lparr>tc_commands := Some [sample_request [CatBytes [2]]]\<rparr>) =
      Done (st', Ok ()) \<and> tc_commands st' = Some [] \<and> ocw_callback sample_config (Signed 4) [5] [1] None st' = Panic"
  using ocw_callback_settles_one_request [of "sample_chain\<lparr>tc_commands := Some [sample_request [CatBytes [2]]]\<rparr>"
    "[sample_request [CatBytes [2]]]" sample_config "[5]" "[1]" None 4 4 "[1]" None]
  by (auto simp: sample_request_def)

theorem same_block_requests_collide_witness:
  "\<exists>st1 st2 r1 r2. add_bytes sample_config (Signed 1) [10] 1 [11] sample_chain = Done (st1, Ok ()) \<and>
    add_bytes sample_config (Signed 2) [20] 1 [21] st1 = Done (st2, Ok ()) \<and>
    tc_commands st2 = Some [r1, r2] \<and> cr_requester r1 = 1 \<and> cr_requester r2 = 2 \<and> cr_identifier r1 = cr_identifier r2"
  using same_block_requests_collide [OF sample_chain_ok(1) sample_config_ok(1) all_caps(1), of 1 "[10]" 1 "[11]" 2 "[20]" 1 "[21]"
    empty_local] by (auto simp: sample_chain_def)

theorem added_bytes_reach_the_chain_witness:
  "\<exists>st1 kvs wk. add_bytes sample_config (Signed 1) [10] 1 [11] sample_chain = Done (st1, Ok ()) \<and>
    offchain_worker sample_config sample_env st1 7
      \<lparr>wk_db = Some (all_caps, import_offchain True kvs empty_local), wk_world = Rq_Peers, wk_sys = tc_sys sample_chain, wk_pool = []\<rparr> =
        Done wk \<and> length (wk_pool wk) = 1 \<and>
    (\<exists>st3. ocw_callback sample_config (Signed 4) (tds_id sample_config sample_chain) [81, 109] (Some (new_offchain_data [10] [11])) st1 =
        Done (st3, Ok ()) \<and> get_file_url_for_cid sample_config [81, 109] st3 = str_bytes ''https://ipfs.io/ipfs/'' @ [81, 109])"
proof -
  have node: "core_ipfs_request (we_host sample_env) (we_now sample_env) Rq_Peers Rq_Peers = Done (Rq_Peers, Err RequestFailed)"
    "core_ipfs_request (we_host sample_env) (we_now sample_env) (Rq_AddBytes [10] 1) Rq_Peers =
      Done (Rq_AddBytes [10] 1, Ok (Rs_AddBytes [81, 109]))"
    by (simp_all add: core_ipfs_request_def sample_env_def sample_host_def pending_new_def try_wait_def try_wait_all_def
        status_result_def)
  have start: "tc_commands sample_chain = Some []" "sys_number (tc_sys sample_chain) = 7" by (simp_all add: sample_chain_def)
  have keys: "we_signing sample_env = open_signing [4] id" "[4 :: nat] \<noteq> []" "distinct (map id [4 :: nat])"
    "\<forall>k\<in>set [4]. unat (nonce_of (we_default sample_env) (id k) (tc_sys sample_chain)) + 1 < 2 ^ 32"
    "we_other sample_env = (\<lambda>_. id)" "we_other_list sample_env = (\<lambda>_. id)"
    by (simp_all add: sample_env_def nonce_of_def account_get_def sample_chain_def default_account_def)
  from added_bytes_reach_the_chain [OF sample_chain_ok(1) start(1) sample_config_ok(2,1,3) all_caps sample_chain_ok(2) empty_local_get
    node keys, of 1 "[11]" "[]"]
  show ?thesis unfolding start(2) callbacks_def by fastforce
qed

end
