(* ===== verification/Knowledge.thy ===== *)
theory Knowledge
  imports Tds_Ipfs
begin

text \<open>
  The pallet \<open>frame/knowledge/src/lib.rs\<close>: knowledge blocks with their owners, whose contents are handed to the IPFS
  workers through the queue of \<open>tds-ipfs\<close> and the off-chain index.  The pallet keeps its own storage next to
  the chain state of \<open>Tds_Ipfs\<close>.
\<close>

section \<open>State\<close>

datatype 'acc knowledge_event =
    Kn_Created 'acc u32 bytes bytes
  | Kn_Modified 'acc 'acc u32 bytes bytes
  | Kn_Transferred 'acc 'acc u32
  | Kn_Got 'acc u32 bytes bytes
  | Kn_Owners 'acc u32 "'acc list"
  | Kn_ConnectionRequested 'acc
  | Kn_DisconnectedRequested 'acc
  | Kn_QueuedDataToAdd 'acc 'acc
  | Kn_QueuedDataToCat 'acc
  | Kn_QueuedDataToPin 'acc
  | Kn_QueuedDataToRemove 'acc
  | Kn_QueuedDataToUnpin 'acc
  | Kn_FindPeerIssued 'acc
  | Kn_FindProvidersIssued 'acc
  | Kn_OcwCallback 'acc
  | Kn_ConnectedTo 'acc bytes
  | Kn_DisconnectedFrom 'acc bytes
  | Kn_AddedCid 'acc bytes
  | Kn_CatBytes 'acc bytes bytes
  | Kn_InsertedPin 'acc bytes
  | Kn_RemovedPin 'acc bytes
  | Kn_RemovedBlock 'acc bytes
  | Kn_FoundPeers 'acc bytes
  | Kn_CidProviders 'acc bytes bytes
  | Kn_OffchainRequest u32
  | Kn_DataStored u32

datatype knowledge_error =
    KnowledgeNotExist
  | NotOwned
  | NoPermission
  | NoContent
  | UnknownOffchainMux
  | NoLocalAcctForSigning
  | OffchainSignedTxError
  | OffchainUnsignedTxError
  | OffchainUnsignedTxSignedPayloadError
  | HttpFetchingError
  | DeserializeToObjError
  | DeserializeToStrError

record ('acc, 'ev) kn_config =
  kcfg_tds :: "('acc, 'ev) tds_config"
  kcfg_acc_codec :: "'acc codec"
  kcfg_into :: "'acc knowledge_event \<Rightarrow> 'ev"
  kcfg_index :: byte

text \<open>\<open>kn_knowledge\<close> and \<open>kn_files\<close> are \<open>Knowledge\<close> and \<open>IpfsFileStorage\<close> by raw key.\<close>

record ('acc, 'data, 'ev) kn_chain =
  kn_tds :: "('acc, 'data, 'ev) tds_chain"
  kn_knowledge :: "(bytes \<times> u32 list) list"
  kn_files :: "(bytes \<times> ipfs_file) list"
  kn_ipfs_data :: "u32 \<Rightarrow> offchain_data option"
  kn_account :: "'acc \<times> u32 \<Rightarrow> byte option"

text \<open>The raw key of a \<open>StorageDoubleMap\<close> is the hashed first key followed by the hashed second key.\<close>

definition kn_prefix :: "('acc, 'ev) kn_config \<Rightarrow> u32 \<Rightarrow> bytes" where
  "kn_prefix cfg bn = blake2_128_concat (cfg_blake2_128 (kcfg_tds cfg)) (encode (bn_codec (cfg_codecs (kcfg_tds cfg))) bn)"

definition kn_key :: "('acc, 'ev) kn_config \<Rightarrow> u32 \<Rightarrow> 'acc \<Rightarrow> bytes" where
  "kn_key cfg bn a =
     kn_prefix cfg bn @ blake2_128_concat (cfg_blake2_128 (kcfg_tds cfg)) (encode (kcfg_acc_codec cfg) a)"

definition knowledge_get :: "('acc, 'ev) kn_config \<Rightarrow> u32 \<Rightarrow> 'acc \<Rightarrow> ('acc, 'data, 'ev) kn_chain \<Rightarrow> u32 list option" where
  "knowledge_get cfg bn a st = map_of (kn_knowledge st) (kn_key cfg bn a)"

definition knowledge_insert ::
  "('acc, 'ev) kn_config \<Rightarrow> u32 \<Rightarrow> 'acc \<Rightarrow> u32 list \<Rightarrow> ('acc, 'data, 'ev) kn_chain \<Rightarrow> ('acc, 'data, 'ev) kn_chain" where
  "knowledge_insert cfg bn a v st = st\<lparr>kn_knowledge := AList.update (kn_key cfg bn a) v (kn_knowledge st)\<rparr>"

text \<open>\<open>iter_prefix\<close>: the entries under the hashed first key, in the order of the raw keys; the second key is decoded from what
  follows its hash of 16 bytes, and an entry whose key does not decode is skipped.\<close>

definition knowledge_iter_prefix ::
  "('acc, 'ev) kn_config \<Rightarrow> u32 \<Rightarrow> ('acc, 'data, 'ev) kn_chain \<Rightarrow> ('acc \<times> u32 list) list" where
  "knowledge_iter_prefix cfg bn st =
     List.map_filter (\<lambda>(k, v). map_option (\<lambda>a. (a, v))
         (decode (kcfg_acc_codec cfg) (drop 16 (drop (length (kn_prefix cfg bn)) k))))
       (filter (\<lambda>(k, v). take (length (kn_prefix cfg bn)) k = kn_prefix cfg bn) (sort_key fst (kn_knowledge st)))"

definition kn_deposit_event ::
  "('acc, 'ev) kn_config \<Rightarrow> 'acc knowledge_event \<Rightarrow> ('acc, 'data, 'ev) kn_chain \<Rightarrow> ('acc, 'data, 'ev) kn_chain" where
  "kn_deposit_event cfg ev st =
     st\<lparr>kn_tds := (kn_tds st)\<lparr>tc_sys := deposit_event (kcfg_into cfg ev) (tc_sys (kn_tds st))\<rparr>\<rparr>"

definition push_command ::
  "'acc command_request \<Rightarrow> ('acc, 'data, 'ev) kn_chain \<Rightarrow> ('acc, 'data, 'ev) kn_chain" where
  "push_command r st =
     st\<lparr>kn_tds := (kn_tds st)\<lparr>tc_commands := (case tc_commands (kn_tds st) of
        Some commands \<Rightarrow> Some (commands @ [r]) | None \<Rightarrow> Some [r])\<rparr>\<rparr>"

definition kn_request ::
  "('acc, 'ev) kn_config \<Rightarrow> 'acc \<Rightarrow> ('acc, 'data, 'ev) kn_chain \<Rightarrow> 'acc command_request" where
  "kn_request cfg from st =
     \<lparr>cr_identifier = generate_id (cfg_blake2_256 (kcfg_tds cfg)) (cfg_codecs (kcfg_tds cfg)) (tc_random (kn_tds st))
        (sys_number (tc_sys (kn_tds st))),
      cr_requester = from, cr_ipfs_commands = [AddBytes 1]\<rparr>"

text \<open>\<open>store_cid_data_for_values\<close> and \<open>offchain_index::set\<close> on the state of the pallet.\<close>

definition kn_store_cid ::
  "('acc, 'ev) kn_config \<Rightarrow> u32 \<Rightarrow> bytes \<Rightarrow> bytes \<Rightarrow> ('acc, 'data, 'ev) kn_chain \<Rightarrow> ('acc, 'data, 'ev) kn_chain exec" where
  "kn_store_cid cfg bn text title st =
     bind_exec (store_cid_data_for_values local_ops (cfg_codecs (kcfg_tds cfg)) bn text title False (tc_io (kn_tds st))) (\<lambda>io.
     Done (st\<lparr>kn_tds := (kn_tds st)\<lparr>tc_io := io\<rparr>\<rparr>))"

definition kn_index_set :: "bytes \<Rightarrow> bytes \<Rightarrow> ('acc, 'data, 'ev) kn_chain \<Rightarrow> ('acc, 'data, 'ev) kn_chain exec" where
  "kn_index_set key v st =
     bind_exec (offchain_index_set key v (io_overlay (tc_io (kn_tds st)))) (\<lambda>oc.
     Done (st\<lparr>kn_tds := (kn_tds st)\<lparr>tc_io := (tc_io (kn_tds st))\<lparr>io_overlay := oc\<rparr>\<rparr>\<rparr>))"

section \<open>Calls\<close>

definition create ::
  "('acc, 'ev) kn_config \<Rightarrow> 'acc raw_origin \<Rightarrow> bytes \<Rightarrow> bytes \<Rightarrow> ('acc, 'data, 'ev) kn_chain \<Rightarrow>
   (('acc, 'data, 'ev) kn_chain \<times> (unit, dispatch_error) result) exec" where
  "create cfg origin title text st =
     (case ensure_signed origin of
        Err e \<Rightarrow> Done (st, Err e)
      | Ok from \<Rightarrow>
          (let cc = cfg_codecs (kcfg_tds cfg);
               block_number = sys_number (tc_sys (kn_tds st));
               st = st\<lparr>kn_account := (kn_account st)((from, block_number) \<mapsto> 1)\<rparr>;
               st = knowledge_insert cfg block_number from [block_number] st
           in
           bind_exec (kn_store_cid cfg block_number text title st) (\<lambda>st.
           let st = push_command (kn_request cfg from st) st;
               key = offchain_data_key cc block_number
           in
           bind_exec (kn_index_set key (encode (bn_codec cc) block_number) st) (\<lambda>st.
           Done (kn_deposit_event cfg (Kn_Created from block_number title text) st, Ok ())))))"

definition modify_content ::
  "('acc, 'ev) kn_config \<Rightarrow> 'acc raw_origin \<Rightarrow> u32 \<Rightarrow> bytes \<Rightarrow> bytes \<Rightarrow> ('acc, 'data, 'ev) kn_chain \<Rightarrow>
   (('acc, 'data, 'ev) kn_chain \<times> (unit, dispatch_error) result) exec" where
  "modify_content cfg origin block_number title text st =
     (case ensure_signed origin of
        Err e \<Rightarrow> Done (st, Err e)
      | Ok from \<Rightarrow>
          (let cc = cfg_codecs (kcfg_tds cfg);
               new_block_number = sys_number (tc_sys (kn_tds st))
           in
           bind_exec (kn_store_cid cfg new_block_number text title st) (\<lambda>st.
           let st = push_command (kn_request cfg from st) st in
           bind_exec (expect (knowledge_get cfg block_number from st)) (\<lambda>block_numbers.
           let block_numbers = block_numbers @ [new_block_number];
               st = knowledge_insert cfg block_number from block_numbers st
           in
           bind_exec (read_cid_for_block_number local_ops cc block_number (io_db (tc_io (kn_tds st)))) (\<lambda>r.
           case r of
             Err _ \<Rightarrow> Done (st, Err (pallet_error (kcfg_index cfg) 0 ''KnowledgeNotExist''))
           | Ok data \<Rightarrow>
               Done (kn_deposit_event cfg (Kn_Modified from from block_number (od_meta_data data) (od_data data)) st, Ok ()))))))"

definition get_content ::
  "('acc, 'ev) kn_config \<Rightarrow> 'acc raw_origin \<Rightarrow> u32 \<Rightarrow> ('acc, 'data, 'ev) kn_chain \<Rightarrow>
   (('acc, 'data, 'ev) kn_chain \<times> (unit, dispatch_error) result) exec" where
  "get_content cfg origin block_number st =
     (case ensure_signed origin of
        Err e \<Rightarrow> Done (st, Err e)
      | Ok from \<Rightarrow>
          (let cc = cfg_codecs (kcfg_tds cfg) in
           bind_exec (kn_index_set (offchain_data_key cc block_number) (encode (bn_codec cc) block_number) st) (\<lambda>st.
           Done (st, Ok ()))))"

definition get_knowledge_owners ::
  "('acc, 'ev) kn_config \<Rightarrow> 'acc raw_origin \<Rightarrow> u32 \<Rightarrow> ('acc, 'data, 'ev) kn_chain \<Rightarrow>
   (('acc, 'data, 'ev) kn_chain \<times> (unit, dispatch_error) result) exec" where
  "get_knowledge_owners cfg origin block_number st =
     (case ensure_signed origin of
        Err e \<Rightarrow> Done (st, Err e)
      | Ok from \<Rightarrow>
          (let owners = map fst (knowledge_iter_prefix cfg block_number st)
           in Done (kn_deposit_event cfg (Kn_Owners from block_number owners) st, Ok ())))"

definition kn_store_ipfs_file_info ::
  "('acc, 'ev) kn_config \<Rightarrow> ipfs_file \<Rightarrow> ('acc, 'data, 'ev) kn_chain \<Rightarrow> ('acc, 'data, 'ev) kn_chain" where
  "kn_store_ipfs_file_info cfg ipfs_file st =
     st\<lparr>kn_files := file_insert (kcfg_tds cfg) (if_cid ipfs_file) ipfs_file (kn_files st)\<rparr>"

definition kn_handle_add_bytes_completed ::
  "('acc, 'ev) kn_config \<Rightarrow> bytes \<Rightarrow> offchain_data option \<Rightarrow> ('acc, 'data, 'ev) kn_chain \<Rightarrow> ('acc, 'data, 'ev) kn_chain" where
  "kn_handle_add_bytes_completed cfg cid offchain_data st =
     (case offchain_data of
        Some d \<Rightarrow> kn_store_ipfs_file_info cfg (new_ipfs_file cid (od_meta_data d)) st
      | None \<Rightarrow> st)"

definition kn_handle_data_for_ocw_callback ::
  "('acc, 'ev) kn_config \<Rightarrow> bytes \<Rightarrow> offchain_data option \<Rightarrow> 'acc command_request option \<Rightarrow>
   ('acc, 'data, 'ev) kn_chain \<Rightarrow> ('acc, 'data, 'ev) kn_chain" where
  "kn_handle_data_for_ocw_callback cfg data offchain_data callback_command st =
     (case callback_command of
        Some cmd_request \<Rightarrow>
          (if contains_value_of_type_in_vector (AddBytes 0) (cr_ipfs_commands cmd_request)
           then kn_handle_add_bytes_completed cfg data offchain_data st else st)
      | None \<Rightarrow> st)"

primrec kn_callback_event :: "'acc \<Rightarrow> bytes \<Rightarrow> ipfs_command \<Rightarrow> 'acc knowledge_event" where
  "kn_callback_event requester data (ConnectTo address) = Kn_ConnectedTo requester address"
| "kn_callback_event requester data (DisconnectFrom address) = Kn_DisconnectedFrom requester address"
| "kn_callback_event requester data (AddBytes _) = Kn_AddedCid requester data"
| "kn_callback_event requester data (CatBytes cid) = Kn_CatBytes requester cid data"
| "kn_callback_event requester data (InsertPin cid) = Kn_InsertedPin requester cid"
| "kn_callback_event requester data (RemoveBlock cid) = Kn_RemovedBlock requester cid"
| "kn_callback_event requester data (RemovePin cid) = Kn_RemovedPin requester cid"
| "kn_callback_event requester data (FindPeer _) = Kn_FoundPeers requester data"
| "kn_callback_event requester data (GetProviders cid) = Kn_CidProviders requester cid data"

definition kn_command_callback ::
  "('acc, 'ev) kn_config \<Rightarrow> 'acc command_request \<Rightarrow> bytes \<Rightarrow> ('acc, 'data, 'ev) kn_chain \<Rightarrow>
   ('acc, 'data, 'ev) kn_chain \<times> (unit, unit) result" where
  "kn_command_callback cfg command_request data st =
     (fold (\<lambda>command. kn_deposit_event cfg (kn_callback_event (cr_requester command_request) data command))
        (cr_ipfs_commands command_request) st, Ok ())"

definition kn_ocw_callback ::
  "('acc, 'ev) kn_config \<Rightarrow> 'acc raw_origin \<Rightarrow> bytes \<Rightarrow> bytes \<Rightarrow> offchain_data option \<Rightarrow> ('acc, 'data, 'ev) kn_chain \<Rightarrow>
   (('acc, 'data, 'ev) kn_chain \<times> (unit, dispatch_error) result) exec" where
  "kn_ocw_callback cfg origin identifier data offchain_data st =
     (case ensure_signed origin of
        Err e \<Rightarrow> Done (st, Err e)
      | Ok signer \<Rightarrow>
          bind_exec (expect (tc_commands (kn_tds st))) (\<lambda>commands.
          bind_exec (case position (\<lambda>cmd. cr_identifier cmd = identifier) commands of
              Some index \<Rightarrow> bind_exec (swap_remove index commands) (\<lambda>(c, commands). Done (Some c, commands))
            | None \<Rightarrow> Done (None, commands)) (\<lambda>(callback_command, commands).
          let st = st\<lparr>kn_tds := (kn_tds st)\<lparr>tc_commands := Some commands\<rparr>\<rparr>;
              st = kn_deposit_event cfg (Kn_OcwCallback signer) st;
              st = kn_handle_data_for_ocw_callback cfg data offchain_data callback_command st
          in bind_exec (expect callback_command) (\<lambda>c.
             case kn_command_callback cfg c data st of
               (st, Ok _) \<Rightarrow> Done (st, Ok ())
             | (st, Err _) \<Rightarrow> Done (st, Err Corruption)))))"

definition kn_store_offchain_data ::
  "('acc, 'ev) kn_config \<Rightarrow> 'acc raw_origin \<Rightarrow> u32 \<Rightarrow> offchain_data \<Rightarrow> ('acc, 'data, 'ev) kn_chain \<Rightarrow>
   (('acc, 'data, 'ev) kn_chain \<times> (unit, dispatch_error) result) exec" where
  "kn_store_offchain_data cfg origin block_number cid_data st =
     (case ensure_signed origin of
        Err e \<Rightarrow> Done (st, Err e)
      | Ok _ \<Rightarrow>
          Done (kn_deposit_event cfg (Kn_DataStored block_number)
            (st\<lparr>kn_ipfs_data := (kn_ipfs_data st)(block_number \<mapsto> cid_data)\<rparr>), Ok ()))"

section \<open>The off-chain worker and the rest\<close>

datatype 'acc kn_call =
    Kc_create bytes bytes
  | Kc_modify_content u32 bytes bytes
  | Kc_get_content u32
  | Kc_get_knowledge_owners u32
  | Kc_ocw_callback bytes bytes "offchain_data option"
  | Kc_store_offchain_data u32 offchain_data

definition kn_offchain_worker ::
  "('acc, 'ev) kn_config \<Rightarrow> ('pub, 'acc, 'acc kn_call, 'sig, 'xt) signing \<Rightarrow> u32 \<Rightarrow> local_storage db_ext \<Rightarrow>
   'xt list \<Rightarrow> 'xt list exec" where
  "kn_offchain_worker cfg sg block_number db pool =
     (let cc = cfg_codecs (kcfg_tds cfg);
          key = offchain_data_key cc block_number
      in
      bind_exec (sv_get local_ops (bn_codec cc) (persistent key) db) (\<lambda>r.
      case r of
        Ok (Some block_number) \<Rightarrow>
          bind_exec (read_cid_for_block_number local_ops cc block_number db) (\<lambda>d.
          case d of
            Ok cid_data \<Rightarrow>
              Done (fst (submit_unsigned_transaction sg (Kc_store_offchain_data block_number cid_data) pool))
          | Err _ \<Rightarrow> Done pool)
      | _ \<Rightarrow> Done pool))"

definition inner_transfer :: "u32 \<Rightarrow> 'acc \<Rightarrow> 'acc \<Rightarrow> ('acc, 'data, 'ev) kn_chain \<Rightarrow> ('acc, 'data, 'ev) kn_chain" where
  "inner_transfer block_number from to st = st\<lparr>kn_account := (kn_account st)((to, block_number) \<mapsto> 1)\<rparr>"

definition transfer :: "u32 \<Rightarrow> 'acc \<Rightarrow> 'acc \<Rightarrow> ('acc, 'data, 'ev) kn_chain \<Rightarrow> ('acc, 'data, 'ev) kn_chain" where
  "transfer block_number from to st = inner_transfer block_number from to st"

definition kn_get_file_url_for_meta_data :: "bytes \<Rightarrow> ('acc, 'data, 'ev) kn_chain \<Rightarrow> bytes" where
  "kn_get_file_url_for_meta_data meta_data st =
     (case List.find (\<lambda>curr_file. if_meta_data curr_file = meta_data) (file_iter_values (kn_files st)) of
        Some file \<Rightarrow> ipfs_gateway_url_for_cid (if_cid file)
      | None \<Rightarrow> [])"

definition kn_get_file_url_for_cid :: "('acc, 'ev) kn_config \<Rightarrow> bytes \<Rightarrow> ('acc, 'data, 'ev) kn_chain \<Rightarrow> bytes" where
  "kn_get_file_url_for_cid cfg cid_bytes st =
     (case file_try_get (kcfg_tds cfg) cid_bytes (kn_files st) of
        None \<Rightarrow> []
      | Some _ \<Rightarrow> ipfs_gateway_url_for_cid cid_bytes)"


section \<open>Sequences of extrinsics\<close>

text \<open>A dispatched call, in its storage layer, and a sequence of extrinsics; one that panics is not part of a block and leaves
  no trace.\<close>

primrec kn_apply ::
  "('acc, 'ev) kn_config \<Rightarrow> 'acc raw_origin \<Rightarrow> 'acc kn_call \<Rightarrow> ('acc, 'data, 'ev) kn_chain \<Rightarrow>
   (('acc, 'data, 'ev) kn_chain \<times> (unit, dispatch_error) result) exec" where
  "kn_apply cfg origin (Kc_create title text) st = create cfg origin title text st"
| "kn_apply cfg origin (Kc_modify_content bn title text) st = modify_content cfg origin bn title text st"
| "kn_apply cfg origin (Kc_get_content bn) st = get_content cfg origin bn st"
| "kn_apply cfg origin (Kc_get_knowledge_owners bn) st = get_knowledge_owners cfg origin bn st"
| "kn_apply cfg origin (Kc_ocw_callback i data od) st = kn_ocw_callback cfg origin i data od st"
| "kn_apply cfg origin (Kc_store_offchain_data bn d) st = kn_store_offchain_data cfg origin bn d st"

definition kn_extrinsic ::
  "('acc, 'ev) kn_config \<Rightarrow> 'acc raw_origin \<times> 'acc kn_call \<Rightarrow> ('acc, 'data, 'ev) kn_chain \<Rightarrow> ('acc, 'data, 'ev) kn_chain" where
  "kn_extrinsic cfg x st =
     (case dispatch_in_layer (kn_apply cfg (fst x) (snd x)) st of Done (st', _) \<Rightarrow> st' | Panic \<Rightarrow> st)"

lemma kn_deposit_event_simps [simp]:
  "kn_knowledge (kn_deposit_event cfg e st) = kn_knowledge st" "kn_account (kn_deposit_event cfg e st) = kn_account st"
  "kn_files (kn_deposit_event cfg e st) = kn_files st" "kn_ipfs_data (kn_deposit_event cfg e st) = kn_ipfs_data st"
  "tc_commands (kn_tds (kn_deposit_event cfg e st)) = tc_commands (kn_tds st)"
  "tc_io (kn_tds (kn_deposit_event cfg e st)) = tc_io (kn_tds st)"
  by (simp_all add: kn_deposit_event_def)

lemma push_command_simps [simp]:
  "kn_knowledge (push_command r st) = kn_knowledge st" "tc_io (kn_tds (push_command r st)) = tc_io (kn_tds st)"
  "kn_account (push_command r st) = kn_account st" "tc_sys (kn_tds (push_command r st)) = tc_sys (kn_tds st)"
  by (simp_all add: push_command_def)

lemma knowledge_insert_simps [simp]:
  "kn_tds (knowledge_insert cfg bn a v st) = kn_tds st" "kn_account (knowledge_insert cfg bn a v st) = kn_account st"
  by (simp_all add: knowledge_insert_def)

lemma kn_io_keeps:
  "kn_store_cid cfg bn text title st = Done st' \<Longrightarrow> kn_knowledge st' = kn_knowledge st"
  "kn_index_set key v st = Done st' \<Longrightarrow> kn_knowledge st' = kn_knowledge st"
  by (auto simp: kn_store_cid_def kn_index_set_def bind_exec_Done_iff)

text \<open>The raw keys under which knowledge is stored.\<close>

definition kn_wf :: "('acc, 'ev) kn_config \<Rightarrow> ('acc, 'data, 'ev) kn_chain \<Rightarrow> bool" where
  "kn_wf cfg st \<longleftrightarrow> distinct (map fst (kn_knowledge st)) \<and> (\<forall>k\<in>fst ` set (kn_knowledge st). \<exists>bn a. k = kn_key cfg bn a)"

lemma kn_wf_insert: "kn_wf cfg st \<Longrightarrow> kn_wf cfg (knowledge_insert cfg bn a v st)"
  by (auto simp: kn_wf_def knowledge_insert_def distinct_update dom_update)

lemma kn_wf_cong: "kn_wf cfg st \<Longrightarrow> kn_knowledge st' = kn_knowledge st \<Longrightarrow> kn_wf cfg st'"
  by (simp add: kn_wf_def)

lemma kn_fold_deposit: "kn_knowledge (fold (\<lambda>c. kn_deposit_event cfg (f c)) cs st) = kn_knowledge st"
  by (induction cs arbitrary: st) simp_all

lemma kn_handle_data_keeps [simp]:
  "kn_knowledge (kn_handle_data_for_ocw_callback cfg data od c st) = kn_knowledge st"
  by (simp add: kn_handle_data_for_ocw_callback_def kn_handle_add_bytes_completed_def kn_store_ipfs_file_info_def
      split: option.split)

lemma kn_callback_keeps:
  assumes "kn_ocw_callback cfg origin i data od st = Done (st', r)"
  shows "kn_knowledge st' = kn_knowledge st"
  using assms
  by (auto simp: kn_ocw_callback_def bind_exec_Done_iff Let_def kn_command_callback_def kn_fold_deposit split: result.splits)

lemma result_case_DoneE:
  assumes "(case x of Ok a \<Rightarrow> Done (f a) | Err e \<Rightarrow> Done (g e)) = Done y"
  obtains a where "x = Ok a" "y = f a" | e where "x = Err e" "y = g e"
  using assms by (cases x) auto

lemma kn_apply_wf:
  assumes wf: "kn_wf cfg st" and run: "kn_apply cfg origin c st = Done (st', r)"
  shows "kn_wf cfg st'"
proof (cases c)
  case (Kc_create title body)
  let ?ins = "\<lambda>a bn. knowledge_insert cfg bn a [bn] (st\<lparr>kn_account := (kn_account st)((a, bn) \<mapsto> 1)\<rparr>)"
  have ins: "kn_wf cfg (?ins a bn)" for a bn by (rule kn_wf_insert, rule kn_wf_cong [OF wf]) simp
  show ?thesis
  proof (cases "ensure_signed origin")
    case (Ok a)
    let ?bn = "sys_number (tc_sys (kn_tds st))"
    obtain st1 st2 where 1: "kn_store_cid cfg ?bn body title (?ins a ?bn) = Done st1"
      "kn_index_set (offchain_data_key (cfg_codecs (kcfg_tds cfg)) ?bn) (encode (bn_codec (cfg_codecs (kcfg_tds cfg))) ?bn)
        (push_command (kn_request cfg a st1) st1) = Done st2" "kn_knowledge st' = kn_knowledge st2"
      using run Kc_create Ok by (auto simp: create_def bind_exec_Done_iff Let_def)
    with kn_io_keeps(1) [OF 1(1)] kn_io_keeps(2) [OF 1(2)] have "kn_knowledge st' = kn_knowledge (?ins a ?bn)" by simp
    with ins show ?thesis by (rule kn_wf_cong)
  qed (use run wf Kc_create in \<open>simp add: create_def\<close>)
next
  case (Kc_modify_content bn title body)
  show ?thesis
  proof (cases "ensure_signed origin")
    case (Ok a)
    let ?bn = "sys_number (tc_sys (kn_tds st))"
    obtain st1 ns where 1: "kn_store_cid cfg ?bn body title st = Done st1"
      "kn_knowledge st' = kn_knowledge (knowledge_insert cfg bn a ns (push_command (kn_request cfg a st1) st1))"
      using run Kc_modify_content Ok by (auto simp: modify_content_def bind_exec_Done_iff Let_def elim!: result_case_DoneE)
    have "kn_wf cfg (push_command (kn_request cfg a st1) st1)"
      by (rule kn_wf_cong [OF wf]) (simp add: kn_io_keeps(1) [OF 1(1)])
    from kn_wf_cong [OF kn_wf_insert [OF this] 1(2)] show ?thesis .
  qed (use run wf Kc_modify_content in \<open>simp add: modify_content_def\<close>)
next
  case (Kc_get_content bn)
  with run wf show ?thesis
    by (auto simp: get_content_def bind_exec_Done_iff Let_def split: result.splits dest!: kn_io_keeps(2) intro: kn_wf_cong)
next
  case (Kc_get_knowledge_owners bn)
  with run wf show ?thesis by (auto simp: get_knowledge_owners_def Let_def split: result.splits intro: kn_wf_cong)
next
  case (Kc_ocw_callback i data od)
  with run wf show ?thesis by (auto dest: kn_callback_keeps intro: kn_wf_cong)
next
  case (Kc_store_offchain_data bn d)
  with run wf show ?thesis by (auto simp: kn_store_offchain_data_def split: result.splits intro: kn_wf_cong)
qed

lemma kn_extrinsic_wf:
  assumes "kn_wf cfg st"
  shows "kn_wf cfg (kn_extrinsic cfg x st)"
proof (cases "kn_apply cfg (fst x) (snd x) st")
  case (Done p)
  then obtain st' r where "kn_apply cfg (fst x) (snd x) st = Done (st', r)" by (cases p) simp
  with assms kn_apply_wf [OF assms this] show ?thesis
    by (cases r) (simp_all add: kn_extrinsic_def dispatch_in_layer_def)
qed (simp add: assms kn_extrinsic_def dispatch_in_layer_def)

lemma kn_run_wf: "kn_wf cfg st \<Longrightarrow> kn_wf cfg (fold (kn_extrinsic cfg) xs st)"
  by (induction xs arbitrary: st) (simp_all add: kn_extrinsic_wf)

section \<open>Owners\<close>

text \<open>What the hash function and the codecs have to be for the raw keys to be decodable.\<close>

definition kn_config_ok :: "('acc, 'ev) kn_config \<Rightarrow> bool" where
  "kn_config_ok cfg \<longleftrightarrow> (\<forall>x. length (cfg_blake2_128 (kcfg_tds cfg) x) = 16) \<and> codec_ok (kcfg_acc_codec cfg) \<and>
     bn_codec (cfg_codecs (kcfg_tds cfg)) = scale_u32"

lemma kn_prefix_length: "kn_config_ok cfg \<Longrightarrow> length (kn_prefix cfg bn) = 20"
  by (simp add: kn_config_ok_def kn_prefix_def blake2_128_concat_def scale_u32_def le_bytes32_def)

lemma kn_prefix_inj: "kn_config_ok cfg \<Longrightarrow> kn_prefix cfg bn = kn_prefix cfg bn' \<longleftrightarrow> bn = bn'"
proof
  assume ok: "kn_config_ok cfg" and eq: "kn_prefix cfg bn = kn_prefix cfg bn'"
  then have "encode scale_u32 bn = encode scale_u32 bn'"
    by (simp add: kn_prefix_def blake2_128_concat_def kn_config_ok_def)
  then show "bn = bn'" using scale_u32_ok codec_okD by (metis option.inject)
qed simp

lemma kn_key_prefix:
  assumes "kn_config_ok cfg"
  shows "take (length (kn_prefix cfg bn)) (kn_key cfg bn' a) = kn_prefix cfg bn \<longleftrightarrow> bn' = bn"
    and "decode (kcfg_acc_codec cfg) (drop 16 (drop (length (kn_prefix cfg bn)) (kn_key cfg bn' a))) = Some a"
proof -
  note l = kn_prefix_length [OF assms]
  show "take (length (kn_prefix cfg bn)) (kn_key cfg bn' a) = kn_prefix cfg bn \<longleftrightarrow> bn' = bn"
    using kn_prefix_inj [OF assms, of bn' bn] by (simp add: kn_key_def l)
  show "decode (kcfg_acc_codec cfg) (drop 16 (drop (length (kn_prefix cfg bn)) (kn_key cfg bn' a))) = Some a"
    using assms by (simp add: kn_key_def l blake2_128_concat_def kn_config_ok_def)
qed

lemma iter_prefix_owners:
  assumes ok: "kn_config_ok cfg" and wf: "kn_wf cfg st"
    and owners_def: "owners = map fst (knowledge_iter_prefix cfg bn st)"
  shows "set owners = {a. knowledge_get cfg bn a st \<noteq> None}" "distinct owners"
proof -
  let ?hits = "filter (\<lambda>(k, v). take (length (kn_prefix cfg bn)) k = kn_prefix cfg bn) (sort_key fst (kn_knowledge st))"
  let ?acc = "\<lambda>k. decode (kcfg_acc_codec cfg) (drop 16 (drop (length (kn_prefix cfg bn)) k))"
  have key: "\<exists>a. fst e = kn_key cfg bn a \<and> ?acc (fst e) = Some a" if "e \<in> set ?hits" for e
  proof -
    have "e \<in> set (kn_knowledge st)" "take (length (kn_prefix cfg bn)) (fst e) = kn_prefix cfg bn" using that by auto
    with wf obtain bn' a where "fst e = kn_key cfg bn' a" unfolding kn_wf_def by blast
    with kn_key_prefix [OF ok, of bn bn' a] \<open>take _ _ = _\<close> show ?thesis by auto
  qed
  have owners: "owners = map (\<lambda>e. the (?acc (fst e))) ?hits"
  proof -
    have "map fst (List.map_filter (\<lambda>(k, v). map_option (\<lambda>a. (a, v)) (?acc k)) es) = map (\<lambda>e. the (?acc (fst e))) es"
      if "\<forall>e\<in>set es. \<exists>a. ?acc (fst e) = Some a" for es :: "(bytes \<times> u32 list) list"
      using that by (induction es) (auto simp: map_filter_simps)
    with key show ?thesis unfolding owners_def knowledge_iter_prefix_def by blast
  qed
  show "set owners = {a. knowledge_get cfg bn a st \<noteq> None}"
  proof (intro set_eqI iffI)
    fix a assume "a \<in> set owners"
    then obtain e where e: "e \<in> set ?hits" "a = the (?acc (fst e))" unfolding owners by auto
    with key [OF e(1)] have "fst e = kn_key cfg bn a" by auto
    moreover have "e \<in> set (kn_knowledge st)" using e(1) by simp
    ultimately have "kn_key cfg bn a \<in> fst ` set (kn_knowledge st)" by (metis imageI)
    then show "a \<in> {a. knowledge_get cfg bn a st \<noteq> None}" by (simp add: knowledge_get_def map_of_eq_None_iff)
  next
    fix a assume "a \<in> {a. knowledge_get cfg bn a st \<noteq> None}"
    then obtain v where "(kn_key cfg bn a, v) \<in> set (kn_knowledge st)" by (auto simp: knowledge_get_def dest: map_of_SomeD)
    then have "(kn_key cfg bn a, v) \<in> set ?hits" using kn_key_prefix(1) [OF ok, of bn bn a] by simp
    then show "a \<in> set owners" using kn_key_prefix(2) [OF ok, of bn bn a] unfolding owners by force
  qed
  have "inj_on (\<lambda>e. the (?acc (fst e))) (set ?hits)"
  proof (rule inj_onI)
    fix e e' assume "e \<in> set ?hits" "e' \<in> set ?hits" "the (?acc (fst e)) = the (?acc (fst e'))"
    with key have "fst e = fst e'" by (metis option.sel)
    moreover have "e \<in> set (kn_knowledge st)" "e' \<in> set (kn_knowledge st)"
      using \<open>e \<in> _\<close> \<open>e' \<in> _\<close> by auto
    ultimately show "e = e'" using wf unfolding kn_wf_def by (metis eq_key_imp_eq_value prod.collapse)
  qed
  moreover have "distinct ?hits" using wf unfolding kn_wf_def by (simp add: distinct_map)
  ultimately show "distinct owners" unfolding owners by (simp add: distinct_map)
qed

text \<open>C32: the owners that are reported are the owners.  After any sequence of extrinsics from a chain without knowledge,
  \<open>get_knowledge_owners\<close> by a signed account succeeds and reports, without repetition, exactly the accounts that have an
  entry for the block.\<close>

theorem knowledge_owners_reported:
  assumes "kn_config_ok cfg" "kn_knowledge st0 = []" "st = fold (kn_extrinsic cfg) xs st0"
  shows "\<exists>owners. get_knowledge_owners cfg (Signed a) bn st = Done (kn_deposit_event cfg (Kn_Owners a bn owners) st, Ok ()) \<and>
    distinct owners \<and> set owners = {x. knowledge_get cfg bn x st \<noteq> None}"
proof -
  have "kn_wf cfg st0" using assms(2) by (simp add: kn_wf_def)
  then have "kn_wf cfg st" unfolding assms(3) by (rule kn_run_wf)
  from iter_prefix_owners [OF assms(1) this refl, of bn] show ?thesis
    by (intro exI [of _ "map fst (knowledge_iter_prefix cfg bn st)"]) (simp add: get_knowledge_owners_def)
qed

section \<open>Contents\<close>

abbreviation kn_overlay :: "('acc, 'data, 'ev) kn_chain \<Rightarrow> overlayed_changes" where
  "kn_overlay st \<equiv> io_overlay (tc_io (kn_tds st))"

lemma kn_index_set_effect:
  assumes "index_ok (kn_overlay st)"
  obtains oc where "kn_index_set key v st = Done (st\<lparr>kn_tds := (kn_tds st)\<lparr>tc_io := (tc_io (kn_tds st))\<lparr>io_overlay := oc\<rparr>\<rparr>\<rparr>)"
    "index_ok oc" "index_view oc = (index_view (kn_overlay st))(key \<mapsto> SetValue v)"
proof -
  obtain oc where "set_offchain_storage key (Some v) (kn_overlay st) = Done oc" "index_ok oc"
    "index_view oc = (index_view (kn_overlay st))(key \<mapsto> SetValue v)"
    using set_offchain_storage_view [OF assms, of key "Some v"] by auto
  then show ?thesis using that by (simp add: kn_index_set_def offchain_index_set_def)
qed

lemma kn_store_cid_effect:
  assumes "index_ok (kn_overlay st)"
  obtains oc where "kn_store_cid cfg bn body title st = Done (st\<lparr>kn_tds := (kn_tds st)\<lparr>tc_io := (tc_io (kn_tds st))\<lparr>io_overlay := oc\<rparr>\<rparr>\<rparr>)"
    "index_ok oc" "index_view oc = (index_view (kn_overlay st))(offchain_data_key (cfg_codecs (kcfg_tds cfg)) bn \<mapsto>
      SetValue (encode (data_codec (cfg_codecs (kcfg_tds cfg))) (new_offchain_data body title)))"
proof -
  let ?k = "offchain_data_key (cfg_codecs (kcfg_tds cfg)) bn"
  let ?v = "encode (data_codec (cfg_codecs (kcfg_tds cfg))) (new_offchain_data body title)"
  obtain oc where "set_offchain_storage ?k (Some ?v) (kn_overlay st) = Done oc" "index_ok oc"
    "index_view oc = (index_view (kn_overlay st))(?k \<mapsto> SetValue ?v)"
    using set_offchain_storage_view [OF assms, of ?k "Some ?v"] by auto
  then show ?thesis
    using that by (simp add: kn_store_cid_def store_cid_data_for_values_def store_cid_data_def store_cid_data_for_key_def
        store_offchain_data_def offchain_index_set_def)
qed

lemma create_effect:
  assumes "index_ok (kn_overlay st)"
  obtains oc st' where "create cfg (Signed a) title body st = Done (st', Ok ())" "index_ok oc" "kn_overlay st' = oc"
    "index_view oc = (index_view (kn_overlay st))(offchain_data_key (cfg_codecs (kcfg_tds cfg)) (sys_number (tc_sys (kn_tds st))) \<mapsto>
       SetValue (encode (bn_codec (cfg_codecs (kcfg_tds cfg))) (sys_number (tc_sys (kn_tds st)))))"
    "knowledge_get cfg (sys_number (tc_sys (kn_tds st))) a st' = Some [sys_number (tc_sys (kn_tds st))]"
    "kn_account st' (a, sys_number (tc_sys (kn_tds st))) = Some 1"
    "tc_commands (kn_tds st') = Some (case_option [] id (tc_commands (kn_tds st)) @ [kn_request cfg a st])"
proof -
  let ?bn = "sys_number (tc_sys (kn_tds st))" and ?cc = "cfg_codecs (kcfg_tds cfg)"
  let ?st0 = "knowledge_insert cfg ?bn a [?bn] (st\<lparr>kn_account := (kn_account st)((a, ?bn) \<mapsto> 1)\<rparr>)"
  have ok0: "index_ok (kn_overlay ?st0)" using assms by simp
  obtain oc1 where 1: "kn_store_cid cfg ?bn body title ?st0 = Done (?st0\<lparr>kn_tds := (kn_tds ?st0)\<lparr>tc_io := (tc_io (kn_tds ?st0))\<lparr>io_overlay := oc1\<rparr>\<rparr>\<rparr>)"
    "index_ok oc1" "index_view oc1 = (index_view (kn_overlay ?st0))(offchain_data_key ?cc ?bn \<mapsto>
      SetValue (encode (data_codec ?cc) (new_offchain_data body title)))"
    by (rule kn_store_cid_effect [OF ok0])
  let ?st1 = "?st0\<lparr>kn_tds := (kn_tds ?st0)\<lparr>tc_io := (tc_io (kn_tds ?st0))\<lparr>io_overlay := oc1\<rparr>\<rparr>\<rparr>"
  let ?st2 = "push_command (kn_request cfg a ?st1) ?st1"
  have ok2: "index_ok (kn_overlay ?st2)" using 1(2) by simp
  obtain oc where 2: "kn_index_set (offchain_data_key ?cc ?bn) (encode (bn_codec ?cc) ?bn) ?st2 =
      Done (?st2\<lparr>kn_tds := (kn_tds ?st2)\<lparr>tc_io := (tc_io (kn_tds ?st2))\<lparr>io_overlay := oc\<rparr>\<rparr>\<rparr>)"
    "index_ok oc" "index_view oc = (index_view (kn_overlay ?st2))(offchain_data_key ?cc ?bn \<mapsto> SetValue (encode (bn_codec ?cc) ?bn))"
    by (rule kn_index_set_effect [OF ok2])
  let ?st3 = "?st2\<lparr>kn_tds := (kn_tds ?st2)\<lparr>tc_io := (tc_io (kn_tds ?st2))\<lparr>io_overlay := oc\<rparr>\<rparr>\<rparr>"
  have run: "create cfg (Signed a) title body st = Done (kn_deposit_event cfg (Kn_Created a ?bn title body) ?st3, Ok ())"
    using 1(1) 2(1) by (simp add: create_def Let_def)
  show ?thesis
  proof (rule that [OF run 2(2)])
    show "index_view oc = (index_view (kn_overlay st))(offchain_data_key ?cc ?bn \<mapsto> SetValue (encode (bn_codec ?cc) ?bn))"
      using 2(3) 1(3) by simp
  qed (simp_all add: knowledge_get_def knowledge_insert_def update_conv push_command_def kn_request_def split: option.split)
qed

text \<open>Creating knowledge registers the owner and queues a request, but the contents are lost.  The call overwrites the data it
  has just stored for the workers with the number of the block; whatever the title and the text were, a worker
  finds the encoded block number under the key of the block.\<close>

theorem created_contents_overwritten:
  assumes "index_ok (kn_overlay st)" "bn = sys_number (tc_sys (kn_tds st))" "contains caps OFFCHAIN_DB_READ"
  shows "\<exists>st' kvs m. create cfg (Signed a) title body st = Done (st', Ok ()) \<and>
    knowledge_get cfg bn a st' = Some [bn] \<and> kn_account st' (a, bn) = Some 1 \<and>
    tc_commands (kn_tds st') = Some (case_option [] id (tc_commands (kn_tds st)) @ [kn_request cfg a st]) \<and>
    offchain_drain (offchain (kn_overlay st')) = Done (kvs, m) \<and>
    read_cid_data_for_block_number local_ops (cfg_codecs (kcfg_tds cfg)) bn (Some (caps, import_offchain True kvs s)) =
      Done (decode_stored (data_codec (cfg_codecs (kcfg_tds cfg))) (Some (encode (bn_codec (cfg_codecs (kcfg_tds cfg))) bn)))"
proof -
  obtain oc st' where 1: "create cfg (Signed a) title body st = Done (st', Ok ())" "index_ok oc" "kn_overlay st' = oc"
    "index_view oc = (index_view (kn_overlay st))(offchain_data_key (cfg_codecs (kcfg_tds cfg)) (sys_number (tc_sys (kn_tds st))) \<mapsto>
       SetValue (encode (bn_codec (cfg_codecs (kcfg_tds cfg))) (sys_number (tc_sys (kn_tds st)))))"
    "knowledge_get cfg (sys_number (tc_sys (kn_tds st))) a st' = Some [sys_number (tc_sys (kn_tds st))]"
    "kn_account st' (a, sys_number (tc_sys (kn_tds st))) = Some 1"
    "tc_commands (kn_tds st') = Some (case_option [] id (tc_commands (kn_tds st)) @ [kn_request cfg a st])"
    by (rule create_effect [OF assms(1)])
  obtain kvs m where imp: "offchain_drain (offchain oc) = Done (kvs, m)"
    "\<forall>key. db_lookup key (import_offchain True kvs s) =
       (case index_view oc key of Some (SetValue v) \<Rightarrow> Some v | Some Remove \<Rightarrow> None | None \<Rightarrow> db_lookup key s)"
    by (rule import_view [OF 1(2), where s = s])
  have "read_cid_data_for_block_number local_ops (cfg_codecs (kcfg_tds cfg)) bn (Some (caps, import_offchain True kvs s)) =
      Done (decode_stored (data_codec (cfg_codecs (kcfg_tds cfg))) (Some (encode (bn_codec (cfg_codecs (kcfg_tds cfg))) bn)))"
    by (simp add: read_cid_data_local [OF assms(3)] imp(2) 1(4) assms(2))
  with 1 imp(1) show ?thesis unfolding assms(2) by auto
qed

text \<open>C33: modifying knowledge never succeeds on chain.  A signed call without an entry of the caller panics instead of
  reporting \<open>NoContent\<close>, and one with an entry panics as well, because it reads the off-chain database, which is
  not available while a block is executed; so the extrinsic never changes the state.\<close>

theorem modify_content_never_succeeds_on_chain:
  assumes "index_ok (kn_overlay st)" "io_db (tc_io (kn_tds st)) = None"
  shows "modify_content cfg (Signed a) bn title body st = Panic \<and> kn_extrinsic cfg (o', Kc_modify_content bn title body) st = st"
proof -
  let ?now = "sys_number (tc_sys (kn_tds st))"
  obtain oc where 1: "kn_store_cid cfg ?now body title st = Done (st\<lparr>kn_tds := (kn_tds st)\<lparr>tc_io := (tc_io (kn_tds st))\<lparr>io_overlay := oc\<rparr>\<rparr>\<rparr>)"
    using kn_store_cid_effect [OF assms(1)] by blast
  have "read_cid_for_block_number local_ops cc bn None = Panic" for cc
    by (simp add: read_cid_for_block_number_def read_cid_data_for_block_number_def offchain_storage_data_for_key_def sv_get_def
        io_local_storage_get_def)
  then have p: "modify_content cfg (Signed a) bn title body st = Panic" for a
    using assms(2) by (simp add: modify_content_def 1 Let_def expect_def split: option.split)
  have "modify_content cfg Root bn title body st = Done (st, Err BadOrigin)"
    "modify_content cfg Unsigned bn title body st = Done (st, Err BadOrigin)"
    by (simp_all add: modify_content_def)
  with p have "kn_extrinsic cfg (o', Kc_modify_content bn title body) st = st"
    by (cases o') (simp_all add: kn_extrinsic_def dispatch_in_layer_def)
  with p show ?thesis by blast
qed

section \<open>Concrete instances\<close>

definition sample_kn_config :: "(nat, nat tds_event + nat knowledge_event) kn_config" where
  "sample_kn_config = \<lparr>kcfg_tds = \<lparr>cfg_codecs = sample_codecs,
       cfg_cid_codec = \<lparr>encode = tagged, decode = (\<lambda>b. Some (fst (untag (b @ [0]))))\<rparr>,
       cfg_blake2_256 = (\<lambda>x. replicate 32 (of_nat (length x))), cfg_blake2_128 = (\<lambda>x. replicate 16 (of_nat (length x))),
       cfg_into = Inl\<rparr>,
     kcfg_acc_codec = \<lparr>encode = (\<lambda>n. replicate n 1 @ [0]), decode = (\<lambda>bs. Some (length (takeWhile (\<lambda>b. b = 1) bs)))\<rparr>,
     kcfg_into = Inr, kcfg_index = 40\<rparr>"

definition sample_kn_chain :: "(nat, unit, nat tds_event + nat knowledge_event) kn_chain" where
  "sample_kn_chain = \<lparr>kn_tds = \<lparr>tc_sys = \<lparr>sys_number = 7, sys_execution_phase = None, sys_event_count = 0, sys_events = [],
         sys_event_topics = (\<lambda>_. []), sys_account = Map.empty\<rparr>,
       tc_io = \<lparr>io_overlay = default_changes, io_db = None\<rparr>, tc_random = [9], tc_commands = Some [], tc_files = []\<rparr>,
     kn_knowledge = [], kn_files = [], kn_ipfs_data = Map.empty, kn_account = Map.empty\<rparr>"

lemma sample_kn_ok: "kn_config_ok sample_kn_config" "index_ok (kn_overlay sample_kn_chain)" "kn_knowledge sample_kn_chain = []"
  "io_db (tc_io (kn_tds sample_kn_chain)) = None"
  using default_changes_ok
  by (simp_all add: kn_config_ok_def sample_kn_config_def sample_kn_chain_def codec_ok_def sample_codecs_def takeWhile_append)

lemma sample_create_extrinsic:
  "knowledge_get sample_kn_config 7 2 (kn_extrinsic sample_kn_config (Signed 2, Kc_create [1] [2]) sample_kn_chain) = Some [7]"
proof -
  obtain oc st' where "create sample_kn_config (Signed 2) [1] [2] sample_kn_chain = Done (st', Ok ())"
    "knowledge_get sample_kn_config (sys_number (tc_sys (kn_tds sample_kn_chain))) 2 st' = Some [sys_number (tc_sys (kn_tds sample_kn_chain))]"
    by (rule create_effect [OF sample_kn_ok(2)])
  then show ?thesis by (simp add: kn_extrinsic_def dispatch_in_layer_def) (simp add: sample_kn_chain_def)
qed

theorem knowledge_owners_reported_witness:
  "\<exists>owners. get_knowledge_owners sample_kn_config (Signed 3) 7
      (kn_extrinsic sample_kn_config (Signed 2, Kc_create [1] [2]) sample_kn_chain) =
    Done (kn_deposit_event sample_kn_config (Kn_Owners 3 7 owners)
      (kn_extrinsic sample_kn_config (Signed 2, Kc_create [1] [2]) sample_kn_chain), Ok ()) \<and> 2 \<in> set owners"
  using knowledge_owners_reported [OF sample_kn_ok(1,3), of _ "[(Signed 2, Kc_create [1] [2])]" 3 7] sample_create_extrinsic by auto

theorem created_contents_overwritten_witness:
  "\<exists>st' kvs. create sample_kn_config (Signed 2) [1] [2] sample_kn_chain = Done (st', Ok ()) \<and>
    read_cid_data_for_block_number local_ops sample_codecs 7 (Some (all_caps, import_offchain True kvs empty_local)) =
      Done (Ok (Some \<lparr>od_data = [], od_meta_data = []\<rparr>))"
proof -
  have "decode_stored (data_codec sample_codecs) (Some (encode (bn_codec sample_codecs) 7)) = Ok (Some \<lparr>od_data = [], od_meta_data = []\<rparr>)"
    by (simp add: decode_stored_def sample_codecs_def scale_u32_def le_bytes32_def) 
  with created_contents_overwritten [OF sample_kn_ok(2) _ all_caps(1), of 7 sample_kn_config 2 "[1]" "[2]" empty_local]
  show ?thesis by (auto simp: sample_kn_chain_def sample_kn_config_def)
qed

theorem modify_content_never_succeeds_on_chain_witness:
  "modify_content sample_kn_config (Signed 2) 7 [1] [2] sample_kn_chain = Panic"
  using modify_content_never_succeeds_on_chain [OF sample_kn_ok(2,4)] by blast

end
