(* ===== verification/Small_Pallets.thy ===== *)
theory Small_Pallets
  imports Frame_System
begin

text \<open>
  Three small pallets: the market of knowledge blocks (\<open>frame/knowledge-market\<close>), the claims of
  \<open>bin/node-template/pallets/tdstest\<close> and the template pallet (\<open>bin/node-template/pallets/template\<close>).  Each state holds the system
  state for the events and the pallet's own storage.
\<close>

section \<open>The market of knowledge blocks\<close>

record permit =
  viewable :: bool
  editable :: bool
  sellable :: bool

definition new_permit :: "bool \<Rightarrow> bool \<Rightarrow> bool \<Rightarrow> permit" where
  "new_permit v e s = \<lparr>viewable = v, editable = e, sellable = s\<rparr>"

record 'bal sale_data =
  price :: 'bal

datatype ('acc, 'bal) market_event =
    ListForSale u32 'acc 'bal
  | Sold u32 'acc 'acc
  | PermissionSet 'acc u32 permit

datatype market_error = PermissionNotSet | PermissionOwnerSetNotSale | NotOriginOwner | MarketOverflow

primrec market_dispatch_error :: "byte \<Rightarrow> market_error \<Rightarrow> dispatch_error" where
  "market_dispatch_error index PermissionNotSet = pallet_error index 0 ''PermissionNotSet''"
| "market_dispatch_error index PermissionOwnerSetNotSale = pallet_error index 1 ''PermissionOwnerSetNotSale''"
| "market_dispatch_error index NotOriginOwner = pallet_error index 2 ''NotOriginOwner''"
| "market_dispatch_error index MarketOverflow = pallet_error index 3 ''Overflow''"

record ('acc, 'data, 'ev, 'bal) market_chain =
  mk_sys :: "('acc, 'data, 'ev) system_state"
  mk_for_sale :: "u32 \<times> 'acc \<Rightarrow> 'bal sale_data option"
  mk_permission :: "u32 \<Rightarrow> permit option"

definition set_sale ::
  "byte \<Rightarrow> (('acc, 'bal) market_event \<Rightarrow> 'ev) \<Rightarrow> 'acc raw_origin \<Rightarrow> u32 \<Rightarrow> 'bal \<Rightarrow> ('acc, 'data, 'ev, 'bal) market_chain \<Rightarrow>
   (('acc, 'data, 'ev, 'bal) market_chain \<times> (unit, dispatch_error) result) exec" where
  "set_sale index into origin knowledge_block_id p st =
     (case ensure_signed origin of
        Err e \<Rightarrow> Done (st, Err e)
      | Ok from \<Rightarrow>
          if mk_permission st knowledge_block_id = None then Done (st, Err (market_dispatch_error index PermissionNotSet))
          else
            bind_exec (expect (mk_permission st knowledge_block_id)) (\<lambda>permission.
            if \<not> sellable permission then Done (st, Err (market_dispatch_error index PermissionOwnerSetNotSale))
            else
              (let st = st\<lparr>mk_for_sale := (mk_for_sale st)((knowledge_block_id, from) \<mapsto> \<lparr>price = p\<rparr>)\<rparr>
               in Done (st\<lparr>mk_sys := deposit_event (into (ListForSale knowledge_block_id from p)) (mk_sys st)\<rparr>, Ok ()))))"

definition market_extrinsic ::
  "byte \<Rightarrow> (('acc, 'bal) market_event \<Rightarrow> 'ev) \<Rightarrow> 'acc raw_origin \<times> u32 \<times> 'bal \<Rightarrow> ('acc, 'data, 'ev, 'bal) market_chain \<Rightarrow>
   ('acc, 'data, 'ev, 'bal) market_chain" where
  "market_extrinsic index into x st =
     (case dispatch_in_layer (set_sale index into (fst x) (fst (snd x)) (snd (snd x))) st of Done (st', _) \<Rightarrow> st' | Panic \<Rightarrow> st)"

section \<open>Claims\<close>

datatype ('acc, 'h) claim_event = ClaimCreated 'acc 'h | ClaimRevoked 'acc 'h

datatype claim_error = AlreadyClaimed | NoSuchClaim | NotClaimOwner

primrec claim_dispatch_error :: "byte \<Rightarrow> claim_error \<Rightarrow> dispatch_error" where
  "claim_dispatch_error index AlreadyClaimed = pallet_error index 0 ''AlreadyClaimed''"
| "claim_dispatch_error index NoSuchClaim = pallet_error index 1 ''NoSuchClaim''"
| "claim_dispatch_error index NotClaimOwner = pallet_error index 2 ''NotClaimOwner''"

record ('acc, 'data, 'ev, 'h) claim_chain =
  cl_sys :: "('acc, 'data, 'ev) system_state"
  cl_claims :: "'h \<Rightarrow> ('acc \<times> u32) option"

definition create_claim ::
  "byte \<Rightarrow> (('acc, 'h) claim_event \<Rightarrow> 'ev) \<Rightarrow> 'acc raw_origin \<Rightarrow> 'h \<Rightarrow> ('acc, 'data, 'ev, 'h) claim_chain \<Rightarrow>
   ('acc, 'data, 'ev, 'h) claim_chain \<times> (unit, dispatch_error) result" where
  "create_claim index into origin claim st =
     (case ensure_signed origin of
        Err e \<Rightarrow> (st, Err e)
      | Ok sender \<Rightarrow>
          if cl_claims st claim \<noteq> None then (st, Err (claim_dispatch_error index AlreadyClaimed))
          else
            (let current_block = sys_number (cl_sys st);
                 st = st\<lparr>cl_claims := (cl_claims st)(claim \<mapsto> (sender, current_block))\<rparr>
             in (st\<lparr>cl_sys := deposit_event (into (ClaimCreated sender claim)) (cl_sys st)\<rparr>, Ok ())))"

definition revoke_claim ::
  "byte \<Rightarrow> (('acc, 'h) claim_event \<Rightarrow> 'ev) \<Rightarrow> 'acc raw_origin \<Rightarrow> 'h \<Rightarrow> ('acc, 'data, 'ev, 'h) claim_chain \<Rightarrow>
   ('acc, 'data, 'ev, 'h) claim_chain \<times> (unit, dispatch_error) result" where
  "revoke_claim index into origin claim st =
     (case ensure_signed origin of
        Err e \<Rightarrow> (st, Err e)
      | Ok sender \<Rightarrow>
          (case cl_claims st claim of
             None \<Rightarrow> (st, Err (claim_dispatch_error index NoSuchClaim))
           | Some (owner, _) \<Rightarrow>
               if sender \<noteq> owner then (st, Err (claim_dispatch_error index NotClaimOwner))
               else
                 (let st = st\<lparr>cl_claims := (cl_claims st)(claim := None)\<rparr>
                  in (st\<lparr>cl_sys := deposit_event (into (ClaimRevoked sender claim)) (cl_sys st)\<rparr>, Ok ()))))"

datatype ('acc, 'h) claim_call = CreateClaim "'acc raw_origin" 'h | RevokeClaim "'acc raw_origin" 'h

primrec apply_claim ::
  "byte \<Rightarrow> (('acc, 'h) claim_event \<Rightarrow> 'ev) \<Rightarrow> ('acc, 'h) claim_call \<Rightarrow> ('acc, 'data, 'ev, 'h) claim_chain \<Rightarrow>
   ('acc, 'data, 'ev, 'h) claim_chain" where
  "apply_claim index into (CreateClaim origin claim) st = fst (create_claim index into origin claim st)"
| "apply_claim index into (RevokeClaim origin claim) st = fst (revoke_claim index into origin claim st)"

section \<open>The template pallet\<close>

datatype 'acc template_event = SomethingStored u32 'acc

datatype template_error = NoneValue | StorageOverflow

primrec template_dispatch_error :: "byte \<Rightarrow> template_error \<Rightarrow> dispatch_error" where
  "template_dispatch_error index NoneValue = pallet_error index 0 ''NoneValue''"
| "template_dispatch_error index StorageOverflow = pallet_error index 1 ''StorageOverflow''"

record ('acc, 'data, 'ev) template_chain =
  tp_sys :: "('acc, 'data, 'ev) system_state"
  tp_something :: "u32 option"

definition do_something ::
  "('acc template_event \<Rightarrow> 'ev) \<Rightarrow> 'acc raw_origin \<Rightarrow> u32 \<Rightarrow> ('acc, 'data, 'ev) template_chain \<Rightarrow>
   ('acc, 'data, 'ev) template_chain \<times> (unit, dispatch_error) result" where
  "do_something into origin something st =
     (case ensure_signed origin of
        Err e \<Rightarrow> (st, Err e)
      | Ok who \<Rightarrow>
          (st\<lparr>tp_something := Some something, tp_sys := deposit_event (into (SomethingStored something who)) (tp_sys st)\<rparr>, Ok ()))"

definition cause_error ::
  "byte \<Rightarrow> 'acc raw_origin \<Rightarrow> ('acc, 'data, 'ev) template_chain \<Rightarrow>
   ('acc, 'data, 'ev) template_chain \<times> (unit, dispatch_error) result" where
  "cause_error index origin st =
     (case ensure_signed origin of
        Err e \<Rightarrow> (st, Err e)
      | Ok _ \<Rightarrow>
          (case tp_something st of
             None \<Rightarrow> (st, Err (template_dispatch_error index NoneValue))
           | Some old \<Rightarrow>
               (case checked_add old 1 of
                  None \<Rightarrow> (st, Err (template_dispatch_error index StorageOverflow))
                | Some new \<Rightarrow> (st\<lparr>tp_something := Some new\<rparr>, Ok ()))))"

section \<open>Properties\<close>

text \<open>C34: nothing can be offered on the market.  No call writes a permission, so after any sequence of calls on a chain without
  permissions \<open>set_sale\<close> by a signed account fails with \<open>PermissionNotSet\<close> and nothing is for sale that was not before.\<close>

theorem market_never_lists:
  assumes "mk_permission st0 = Map.empty" "st = fold (market_extrinsic index into) xs st0"
  shows "set_sale index into (Signed a) block p st = Done (st, Err (market_dispatch_error index PermissionNotSet)) \<and> st = st0"
proof -
  have step: "market_extrinsic index into x st0 = st0" for x
    using assms(1) by (cases "fst x") (simp_all add: market_extrinsic_def dispatch_in_layer_def set_sale_def)
  have "fold (market_extrinsic index into) xs st0 = st0" by (induction xs) (simp_all add: step)
  with assms show ?thesis by (simp add: set_sale_def)
qed

lemma apply_claim_owner:
  assumes "cl_claims st claim = Some (a, bn)" "c \<noteq> RevokeClaim (Signed a) claim"
  shows "cl_claims (apply_claim index into c st) claim = Some (a, bn)"
proof (cases c)
  case (CreateClaim origin h)
  then show ?thesis using assms(1) by (cases origin) (auto simp: create_claim_def Let_def)
next
  case (RevokeClaim origin h)
  then show ?thesis using assms by (cases origin) (auto simp: revoke_claim_def Let_def split: option.splits)
qed

text \<open>C35: a claim belongs to its owner.  Once an account has made a claim, the claim with its block number survives every sequence of
  calls in which that account does not revoke it: others can neither take it over (\<open>AlreadyClaimed\<close>) nor revoke it
  (\<open>NotClaimOwner\<close>), and the owner can revoke it at the end, after which it is gone.\<close>

theorem claims_belong_to_their_owner:
  assumes "create_claim index into (Signed a) claim st0 = (st1, Ok ())"
    and "RevokeClaim (Signed a) claim \<notin> set cs" "st = fold (apply_claim index into) cs st1" "b \<noteq> a"
  shows "cl_claims st claim = Some (a, sys_number (cl_sys st0)) \<and>
    create_claim index into (Signed b) claim st = (st, Err (claim_dispatch_error index AlreadyClaimed)) \<and>
    revoke_claim index into (Signed b) claim st = (st, Err (claim_dispatch_error index NotClaimOwner)) \<and>
    (\<exists>st'. revoke_claim index into (Signed a) claim st = (st', Ok ()) \<and> cl_claims st' claim = None)"
proof -
  have "cl_claims st1 claim = Some (a, sys_number (cl_sys st0))"
    using assms(1) by (auto simp: create_claim_def Let_def split: if_splits)
  then have "cl_claims st claim = Some (a, sys_number (cl_sys st0))"
    using assms(2) unfolding assms(3)
  proof (induction cs arbitrary: st1)
    case (Cons c cs)
    then have "c \<noteq> RevokeClaim (Signed a) claim" by auto
    from apply_claim_owner [OF Cons.prems(1) this] Cons.IH Cons.prems(2) show ?case by simp
  qed simp
  with assms(4) show ?thesis by (simp add: create_claim_def revoke_claim_def)
qed

section \<open>Concrete instances\<close>

definition fresh_system :: "(nat, unit, 'ev) system_state" where
  "fresh_system = \<lparr>sys_number = 4, sys_execution_phase = None, sys_event_count = 0, sys_events = [], sys_event_topics = (\<lambda>_. []),
     sys_account = Map.empty\<rparr>"

definition fresh_market :: "(nat, unit, (nat, nat) market_event, nat) market_chain" where
  "fresh_market = \<lparr>mk_sys = fresh_system, mk_for_sale = Map.empty, mk_permission = Map.empty\<rparr>"

definition fresh_claims :: "(nat, unit, (nat, nat) claim_event, nat) claim_chain" where
  "fresh_claims = \<lparr>cl_sys = fresh_system, cl_claims = Map.empty\<rparr>"

theorem market_never_lists_witness:
  "set_sale 41 id (Signed 1) 5 10 fresh_market =
     Done (fresh_market, Err (ModuleError \<lparr>me_index = 41, me_error = [0, 0, 0, 0], me_message = Some ''PermissionNotSet''\<rparr>))"
  using market_never_lists [of fresh_market fresh_market 41 id "[]" 1 5 10]
  by (simp add: fresh_market_def pallet_error_def MAX_MODULE_ERROR_ENCODED_SIZE_def numeral_3_eq_3)

theorem claims_belong_to_their_owner_witness:
  "\<exists>st1. create_claim 9 id (Signed 1) 77 fresh_claims = (st1, Ok ()) \<and>
    cl_claims (apply_claim 9 id (RevokeClaim (Signed 2) 77) st1) 77 = Some (1, 4)"
proof -
  obtain st1 where st1: "create_claim 9 id (Signed 1) 77 fresh_claims = (st1, Ok ())"
    by (simp add: create_claim_def fresh_claims_def)
  from claims_belong_to_their_owner [OF this, of "[RevokeClaim (Signed 2) 77]" _ 2] st1 show ?thesis
    by (simp add: fresh_claims_def fresh_system_def)
qed

end
