(* ===== verification/Unixfs_Pb.thy ===== *)
theory Unixfs_Pb
  imports Rust_Str
begin

text \<open>
  The protobuf messages of UnixFS files, \<open>utils/rust-ipfs/unixfs/src/pb\<close>: the dag-pb node with its links
  (\<open>merkledag.rs\<close>), the UnixFS message inside it (\<open>unixfs.rs\<close>), and \<open>FlatUnixFs\<close>, the two combined
  (\<open>pb.rs\<close>), each with its writer, its size function and its reader.  The primitive readers and writers come from
  the crate \<open>quick_protobuf\<close> and are a parameter; \<open>pb_wire_ok\<close> states what the protobuf encoding promises of
  them.  The main result is that a written message is read back.
\<close>

section \<open>The primitives of quick-protobuf\<close>

text \<open>
  A writer appends to its output and a reader is given the bytes that are left and returns the rest, so each primitive is a
  function on byte lists.  Signed integers are kept as the words that represent them.
\<close>

record 'e pb_wire =
  put_tag :: "u32 \<Rightarrow> bytes"
  put_len :: "nat \<Rightarrow> bytes"
  put_bytes :: "bytes \<Rightarrow> bytes"
  put_string :: "bytes \<Rightarrow> bytes"
  put_uint64 :: "u64 \<Rightarrow> bytes"
  put_uint32 :: "u32 \<Rightarrow> bytes"
  put_int64 :: "u64 \<Rightarrow> bytes"
  put_fixed32 :: "u32 \<Rightarrow> bytes"
  put_enum :: "u32 \<Rightarrow> bytes"
  sizeof_varint :: "u64 \<Rightarrow> nat"
  sizeof_len :: "nat \<Rightarrow> nat"
  next_tag :: "bytes \<Rightarrow> (u32 \<times> bytes, 'e) result"
  read_bytes :: "bytes \<Rightarrow> (bytes \<times> bytes, 'e) result"
  read_string :: "bytes \<Rightarrow> (bytes \<times> bytes, 'e) result"
  read_uint64 :: "bytes \<Rightarrow> (u64 \<times> bytes, 'e) result"
  read_uint32 :: "bytes \<Rightarrow> (u32 \<times> bytes, 'e) result"
  read_int64 :: "bytes \<Rightarrow> (u64 \<times> bytes, 'e) result"
  read_fixed32 :: "bytes \<Rightarrow> (u32 \<times> bytes, 'e) result"
  read_int32 :: "bytes \<Rightarrow> (u32 \<times> bytes, 'e) result"
  read_unknown :: "u32 \<Rightarrow> bytes \<Rightarrow> (bytes, 'e) result"

text \<open>\<open>write_message\<close> writes the size that the message reports and then the message.\<close>

definition write_message :: "'e pb_wire \<Rightarrow> nat \<Rightarrow> bytes \<Rightarrow> bytes" where
  "write_message pw n message = put_len pw n @ message"

text \<open>\<open>read_message\<close> reads a message from a length-delimited slice.\<close>

definition read_message ::
  "'e pb_wire \<Rightarrow> (bytes \<Rightarrow> ('m, 'e) result option) \<Rightarrow> bytes \<Rightarrow> ('m \<times> bytes, 'e) result option" where
  "read_message pw from_reader bs =
     (case read_bytes pw bs of
        Err e \<Rightarrow> Some (Err e)
      | Ok (sub, rest) \<Rightarrow> map_option (map_result (\<lambda>m. (m, rest)) id) (from_reader sub))"

text \<open>
  The loop of every \<open>from_reader\<close>: while there is input, read a tag and the field it announces.  Whether it ends
  depends on the primitives; \<open>None\<close> is a reader that never returns.
\<close>

partial_function (option) read_fields ::
  "'e pb_wire \<Rightarrow> (u32 \<Rightarrow> bytes \<Rightarrow> 'm \<Rightarrow> ('m \<times> bytes, 'e) result option) \<Rightarrow> bytes \<Rightarrow> 'm \<Rightarrow> ('m, 'e) result option" where
  "read_fields pw field bs msg =
     (if bs = [] then Some (Ok msg)
      else case next_tag pw bs of
          Err e \<Rightarrow> Some (Err e)
        | Ok (t, bs) \<Rightarrow> Option.bind (field t bs msg) (\<lambda>r.
            case r of Err e \<Rightarrow> Some (Err e) | Ok (msg, bs) \<Rightarrow> read_fields pw field bs msg))"

text \<open>Lengths are 32-bit numbers on the wire.\<close>

definition len_limit :: nat where
  "len_limit = 2 ^ 32"

text \<open>What the encoding promises: every primitive reads back what its counterpart wrote and leaves the rest, and the
  size functions are the lengths of the encodings.\<close>

definition pb_wire_ok :: "'e pb_wire \<Rightarrow> bool" where
  "pb_wire_ok pw \<longleftrightarrow>
     (\<forall>t rest. next_tag pw (put_tag pw t @ rest) = Ok (t, rest)) \<and>
     (\<forall>t. t < 128 \<longrightarrow> length (put_tag pw t) = 1) \<and>
     (\<forall>b. put_bytes pw b = put_len pw (length b) @ b) \<and>
     (\<forall>b. put_string pw b = put_len pw (length b) @ b) \<and>
     (\<forall>n. sizeof_len pw n = length (put_len pw n) + n) \<and>
     (\<forall>b rest. length b < len_limit \<longrightarrow> read_bytes pw (put_len pw (length b) @ b @ rest) = Ok (b, rest)) \<and>
     (\<forall>b rest. length b < len_limit \<and> utf8_valid b \<longrightarrow> read_string pw (put_len pw (length b) @ b @ rest) = Ok (b, rest)) \<and>
     (\<forall>v. length (put_uint64 pw v) = sizeof_varint pw v) \<and>
     (\<forall>v rest. read_uint64 pw (put_uint64 pw v @ rest) = Ok (v, rest)) \<and>
     (\<forall>v. length (put_uint32 pw v) = sizeof_varint pw (ucast v)) \<and>
     (\<forall>v rest. read_uint32 pw (put_uint32 pw v @ rest) = Ok (v, rest)) \<and>
     (\<forall>v. length (put_int64 pw v) = sizeof_varint pw v) \<and>
     (\<forall>v rest. read_int64 pw (put_int64 pw v @ rest) = Ok (v, rest)) \<and>
     (\<forall>v. length (put_fixed32 pw v) = 4) \<and>
     (\<forall>v rest. read_fixed32 pw (put_fixed32 pw v @ rest) = Ok (v, rest)) \<and>
     (\<forall>v. v < 2 ^ 31 \<longrightarrow> length (put_enum pw v) = sizeof_varint pw (ucast v)) \<and>
     (\<forall>v rest. read_int32 pw (put_enum pw v @ rest) = Ok (v, rest))"

section \<open>dag-pb: \<open>merkledag.rs\<close>\<close>

record pb_link =
  Hash :: "bytes option"
  Name :: "bytes option"
  Tsize :: "u64 option"

definition pb_link_default :: pb_link where
  "pb_link_default = \<lparr>Hash = None, Name = None, Tsize = None\<rparr>"

definition pb_link_field ::
  "'e pb_wire \<Rightarrow> u32 \<Rightarrow> bytes \<Rightarrow> pb_link \<Rightarrow> (pb_link \<times> bytes, 'e) result option" where
  "pb_link_field pw t bs msg = Some (
     if t = 10 then map_result (map_prod (\<lambda>b. msg\<lparr>Hash := Some b\<rparr>) id) id (read_bytes pw bs)
     else if t = 18 then map_result (map_prod (\<lambda>s. msg\<lparr>Name := Some s\<rparr>) id) id (read_string pw bs)
     else if t = 24 then map_result (map_prod (\<lambda>v. msg\<lparr>Tsize := Some v\<rparr>) id) id (read_uint64 pw bs)
     else map_result (Pair msg) id (read_unknown pw t bs))"

definition pb_link_from_reader :: "'e pb_wire \<Rightarrow> bytes \<Rightarrow> (pb_link, 'e) result option" where
  "pb_link_from_reader pw bs = read_fields pw (pb_link_field pw) bs pb_link_default"

definition pb_link_get_size :: "'e pb_wire \<Rightarrow> pb_link \<Rightarrow> nat" where
  "pb_link_get_size pw l =
     (case Hash l of None \<Rightarrow> 0 | Some m \<Rightarrow> 1 + sizeof_len pw (length m)) +
     (case Name l of None \<Rightarrow> 0 | Some m \<Rightarrow> 1 + sizeof_len pw (length m)) +
     (case Tsize l of None \<Rightarrow> 0 | Some m \<Rightarrow> 1 + sizeof_varint pw m)"

definition pb_link_write :: "'e pb_wire \<Rightarrow> pb_link \<Rightarrow> bytes" where
  "pb_link_write pw l =
     (case Hash l of None \<Rightarrow> [] | Some s \<Rightarrow> put_tag pw 10 @ put_bytes pw s) @
     (case Name l of None \<Rightarrow> [] | Some s \<Rightarrow> put_tag pw 18 @ put_string pw s) @
     (case Tsize l of None \<Rightarrow> [] | Some s \<Rightarrow> put_tag pw 24 @ put_uint64 pw s)"

record pb_node =
  Links :: "pb_link list"
  node_Data :: "bytes option"

definition pb_node_default :: pb_node where
  "pb_node_default = \<lparr>Links = [], node_Data = None\<rparr>"

definition pb_node_field ::
  "'e pb_wire \<Rightarrow> u32 \<Rightarrow> bytes \<Rightarrow> pb_node \<Rightarrow> (pb_node \<times> bytes, 'e) result option" where
  "pb_node_field pw t bs msg =
     (if t = 18 then
        map_option (map_result (map_prod (\<lambda>l. msg\<lparr>Links := Links msg @ [l]\<rparr>) id) id) (read_message pw (pb_link_from_reader pw) bs)
      else if t = 10 then Some (map_result (map_prod (\<lambda>b. msg\<lparr>node_Data := Some b\<rparr>) id) id (read_bytes pw bs))
      else Some (map_result (Pair msg) id (read_unknown pw t bs)))"

definition pb_node_from_reader :: "'e pb_wire \<Rightarrow> bytes \<Rightarrow> (pb_node, 'e) result option" where
  "pb_node_from_reader pw bs = read_fields pw (pb_node_field pw) bs pb_node_default"

definition pb_node_get_size :: "'e pb_wire \<Rightarrow> pb_node \<Rightarrow> nat" where
  "pb_node_get_size pw n =
     sum_list (map (\<lambda>s. 1 + sizeof_len pw (pb_link_get_size pw s)) (Links n)) +
     (case node_Data n of None \<Rightarrow> 0 | Some m \<Rightarrow> 1 + sizeof_len pw (length m))"

definition pb_node_write :: "'e pb_wire \<Rightarrow> pb_node \<Rightarrow> bytes" where
  "pb_node_write pw n =
     concat (map (\<lambda>s. put_tag pw 18 @ write_message pw (pb_link_get_size pw s) (pb_link_write pw s)) (Links n)) @
     (case node_Data n of None \<Rightarrow> [] | Some s \<Rightarrow> put_tag pw 10 @ put_bytes pw s)"

section \<open>The UnixFS message: \<open>unixfs.rs\<close>\<close>

datatype data_type = Raw | Directory | File | Metadata | Symlink | HAMTShard

definition data_type_from :: "u32 \<Rightarrow> data_type" where
  "data_type_from i =
     (if i = 0 then Raw else if i = 1 then Directory else if i = 2 then File
      else if i = 3 then Metadata else if i = 4 then Symlink else if i = 5 then HAMTShard else Raw)"

primrec data_type_into :: "data_type \<Rightarrow> u32" where
  "data_type_into Raw = 0"
| "data_type_into Directory = 1"
| "data_type_into File = 2"
| "data_type_into Metadata = 3"
| "data_type_into Symlink = 4"
| "data_type_into HAMTShard = 5"

record unix_time =
  Seconds :: u64
  FractionalNanoseconds :: "u32 option"

definition unix_time_default :: unix_time where
  "unix_time_default = \<lparr>Seconds = 0, FractionalNanoseconds = None\<rparr>"

definition unix_time_field ::
  "'e pb_wire \<Rightarrow> u32 \<Rightarrow> bytes \<Rightarrow> unix_time \<Rightarrow> (unix_time \<times> bytes, 'e) result option" where
  "unix_time_field pw t bs msg = Some (
     if t = 8 then map_result (map_prod (\<lambda>v. msg\<lparr>Seconds := v\<rparr>) id) id (read_int64 pw bs)
     else if t = 21 then map_result (map_prod (\<lambda>v. msg\<lparr>FractionalNanoseconds := Some v\<rparr>) id) id (read_fixed32 pw bs)
     else map_result (Pair msg) id (read_unknown pw t bs))"

definition unix_time_from_reader :: "'e pb_wire \<Rightarrow> bytes \<Rightarrow> (unix_time, 'e) result option" where
  "unix_time_from_reader pw bs = read_fields pw (unix_time_field pw) bs unix_time_default"

definition unix_time_get_size :: "'e pb_wire \<Rightarrow> unix_time \<Rightarrow> nat" where
  "unix_time_get_size pw t =
     1 + sizeof_varint pw (Seconds t) + (case FractionalNanoseconds t of None \<Rightarrow> 0 | Some _ \<Rightarrow> 1 + 4)"

definition unix_time_write :: "'e pb_wire \<Rightarrow> unix_time \<Rightarrow> bytes" where
  "unix_time_write pw t =
     put_tag pw 8 @ put_int64 pw (Seconds t) @
     (case FractionalNanoseconds t of None \<Rightarrow> [] | Some s \<Rightarrow> put_tag pw 21 @ put_fixed32 pw s)"

record unix_fs =
  Type :: data_type
  Data :: "bytes option"
  filesize :: "u64 option"
  blocksizes :: "u64 list"
  hashType :: "u64 option"
  fanout :: "u64 option"
  mode :: "u32 option"
  mtime :: "unix_time option"

definition unix_fs_default :: unix_fs where
  "unix_fs_default = \<lparr>Type = Raw, Data = None, filesize = None, blocksizes = [], hashType = None, fanout = None,
     mode = None, mtime = None\<rparr>"

definition unix_fs_field ::
  "'e pb_wire \<Rightarrow> u32 \<Rightarrow> bytes \<Rightarrow> unix_fs \<Rightarrow> (unix_fs \<times> bytes, 'e) result option" where
  "unix_fs_field pw t bs msg =
     (if t = 8 then Some (map_result (map_prod (\<lambda>i. msg\<lparr>Type := data_type_from i\<rparr>) id) id (read_int32 pw bs))
      else if t = 18 then Some (map_result (map_prod (\<lambda>b. msg\<lparr>Data := Some b\<rparr>) id) id (read_bytes pw bs))
      else if t = 24 then Some (map_result (map_prod (\<lambda>v. msg\<lparr>filesize := Some v\<rparr>) id) id (read_uint64 pw bs))
      else if t = 32 then
        Some (map_result (map_prod (\<lambda>v. msg\<lparr>blocksizes := blocksizes msg @ [v]\<rparr>) id) id (read_uint64 pw bs))
      else if t = 40 then Some (map_result (map_prod (\<lambda>v. msg\<lparr>hashType := Some v\<rparr>) id) id (read_uint64 pw bs))
      else if t = 48 then Some (map_result (map_prod (\<lambda>v. msg\<lparr>fanout := Some v\<rparr>) id) id (read_uint64 pw bs))
      else if t = 56 then Some (map_result (map_prod (\<lambda>v. msg\<lparr>mode := Some v\<rparr>) id) id (read_uint32 pw bs))
      else if t = 66 then
        map_option (map_result (map_prod (\<lambda>m. msg\<lparr>mtime := Some m\<rparr>) id) id) (read_message pw (unix_time_from_reader pw) bs)
      else Some (map_result (Pair msg) id (read_unknown pw t bs)))"

definition unix_fs_from_reader :: "'e pb_wire \<Rightarrow> bytes \<Rightarrow> (unix_fs, 'e) result option" where
  "unix_fs_from_reader pw bs = read_fields pw (unix_fs_field pw) bs unix_fs_default"

definition unix_fs_get_size :: "'e pb_wire \<Rightarrow> unix_fs \<Rightarrow> nat" where
  "unix_fs_get_size pw d =
     1 + sizeof_varint pw (ucast (data_type_into (Type d))) +
     (case Data d of None \<Rightarrow> 0 | Some m \<Rightarrow> 1 + sizeof_len pw (length m)) +
     (case filesize d of None \<Rightarrow> 0 | Some m \<Rightarrow> 1 + sizeof_varint pw m) +
     sum_list (map (\<lambda>s. 1 + sizeof_varint pw s) (blocksizes d)) +
     (case hashType d of None \<Rightarrow> 0 | Some m \<Rightarrow> 1 + sizeof_varint pw m) +
     (case fanout d of None \<Rightarrow> 0 | Some m \<Rightarrow> 1 + sizeof_varint pw m) +
     (case mode d of None \<Rightarrow> 0 | Some m \<Rightarrow> 1 + sizeof_varint pw (ucast m)) +
     (case mtime d of None \<Rightarrow> 0 | Some m \<Rightarrow> 1 + sizeof_len pw (unix_time_get_size pw m))"

definition unix_fs_write :: "'e pb_wire \<Rightarrow> unix_fs \<Rightarrow> bytes" where
  "unix_fs_write pw d =
     put_tag pw 8 @ put_enum pw (data_type_into (Type d)) @
     (case Data d of None \<Rightarrow> [] | Some s \<Rightarrow> put_tag pw 18 @ put_bytes pw s) @
     (case filesize d of None \<Rightarrow> [] | Some s \<Rightarrow> put_tag pw 24 @ put_uint64 pw s) @
     concat (map (\<lambda>s. put_tag pw 32 @ put_uint64 pw s) (blocksizes d)) @
     (case hashType d of None \<Rightarrow> [] | Some s \<Rightarrow> put_tag pw 40 @ put_uint64 pw s) @
     (case fanout d of None \<Rightarrow> [] | Some s \<Rightarrow> put_tag pw 48 @ put_uint64 pw s) @
     (case mode d of None \<Rightarrow> [] | Some s \<Rightarrow> put_tag pw 56 @ put_uint32 pw s) @
     (case mtime d of None \<Rightarrow> [] | Some s \<Rightarrow> put_tag pw 66 @ write_message pw (unix_time_get_size pw s) (unix_time_write pw s))"

section \<open>Both layers: \<open>pb.rs\<close>\<close>

record flat_unix_fs =
  flat_links :: "pb_link list"
  flat_data :: unix_fs

datatype 'e parsing_failed = InvalidDagPb 'e | NoData pb_node | InvalidUnixFs 'e pb_node

definition flat_get_size :: "'e pb_wire \<Rightarrow> flat_unix_fs \<Rightarrow> nat" where
  "flat_get_size pw f =
     sum_list (map (\<lambda>s. 1 + sizeof_len pw (pb_link_get_size pw s)) (flat_links f)) +
     (1 + sizeof_len pw (unix_fs_get_size pw (flat_data f)))"

definition flat_write :: "'e pb_wire \<Rightarrow> flat_unix_fs \<Rightarrow> bytes" where
  "flat_write pw f =
     concat (map (\<lambda>link. put_tag pw 18 @ write_message pw (pb_link_get_size pw link) (pb_link_write pw link)) (flat_links f)) @
     put_tag pw 10 @ write_message pw (unix_fs_get_size pw (flat_data f)) (unix_fs_write pw (flat_data f))"

text \<open>\<open>TryFrom<Option<&[u8]>> for UnixFs\<close> and \<open>TryFrom<&[u8]> for FlatUnixFs\<close>.\<close>

definition unix_fs_try_from :: "'e pb_wire \<Rightarrow> bytes option \<Rightarrow> (unix_fs, 'e) result option" where
  "unix_fs_try_from pw data = unix_fs_from_reader pw (case data of Some b \<Rightarrow> b | None \<Rightarrow> [])"

definition flat_try_from :: "'e pb_wire \<Rightarrow> bytes \<Rightarrow> (flat_unix_fs, 'e parsing_failed) result option" where
  "flat_try_from pw data =
     Option.bind (pb_node_from_reader pw data) (\<lambda>r.
     case r of
       Err e \<Rightarrow> Some (Err (InvalidDagPb e))
     | Ok node \<Rightarrow>
         (case node_Data node of
            None \<Rightarrow> Some (Err (NoData node))
          | Some bs \<Rightarrow>
              if bs = [] then Some (Err (NoData node))
              else Option.bind (unix_fs_try_from pw (Some bs)) (\<lambda>r.
                Some (case r of
                    Ok data \<Rightarrow> Ok \<lparr>flat_links = Links node, flat_data = data\<rparr>
                  | Err e \<Rightarrow> Err (InvalidUnixFs e node)))))"

text \<open>The iterator \<open>RangeLinks\<close>: each link with the file range it covers, \<open>base\<close> being the offset where the next one
  starts.  \<open>checks\<close> says whether the build checks arithmetic for overflow.\<close>

definition add_u64 :: "bool \<Rightarrow> u64 \<Rightarrow> u64 \<Rightarrow> u64 exec" where
  "add_u64 checks a b = (if checks \<and> checked_add a b = None then Panic else Done (a + b))"

definition range_links_next ::
  "bool \<Rightarrow> (pb_link \<times> u64) list \<Rightarrow> u64 \<Rightarrow>
   ((pb_link \<times> (u64 \<times> u64)) \<times> (pb_link \<times> u64) list \<times> u64) option exec" where
  "range_links_next checks inner base =
     (case inner of
        [] \<Rightarrow> Done None
      | (link, blocksize) # inner \<Rightarrow>
          bind_exec (add_u64 checks base blocksize) (\<lambda>next.
          Done (Some ((link, (base, next)), inner, next))))"

section \<open>Sizes\<close>

lemma pb_wire_tag:
  "pb_wire_ok pw \<Longrightarrow> next_tag pw (put_tag pw t @ rest) = Ok (t, rest)"
  "pb_wire_ok pw \<Longrightarrow> t < 128 \<Longrightarrow> length (put_tag pw t) = 1"
  by (simp_all add: pb_wire_ok_def)

lemma pb_wire_delimited:
  assumes "pb_wire_ok pw"
  shows "put_bytes pw b = put_len pw (length b) @ b" "put_string pw b = put_len pw (length b) @ b"
    "sizeof_len pw n = length (put_len pw n) + n"
  using assms by (simp_all add: pb_wire_ok_def)

lemma pb_wire_read_delimited:
  assumes "pb_wire_ok pw" "length b < len_limit"
  shows "read_bytes pw (put_len pw (length b) @ b @ rest) = Ok (b, rest)"
    "utf8_valid b \<Longrightarrow> read_string pw (put_len pw (length b) @ b @ rest) = Ok (b, rest)"
  using assms by (simp_all add: pb_wire_ok_def)

lemma pb_wire_numbers:
  assumes "pb_wire_ok pw"
  shows "read_uint64 pw (put_uint64 pw v @ rest) = Ok (v, rest)"
    "read_uint32 pw (put_uint32 pw w @ rest) = Ok (w, rest)"
    "read_int64 pw (put_int64 pw v @ rest) = Ok (v, rest)"
    "read_fixed32 pw (put_fixed32 pw w @ rest) = Ok (w, rest)"
    "read_int32 pw (put_enum pw w @ rest) = Ok (w, rest)"
  using assms by (simp_all add: pb_wire_ok_def)

lemma pb_wire_sizes:
  assumes "pb_wire_ok pw"
  shows "length (put_uint64 pw v) = sizeof_varint pw v"
    "length (put_uint32 pw w) = sizeof_varint pw (ucast w)"
    "length (put_int64 pw v) = sizeof_varint pw v"
    "length (put_fixed32 pw w) = 4"
    "w < 2 ^ 31 \<Longrightarrow> length (put_enum pw w) = sizeof_varint pw (ucast w)"
  using assms by (simp_all add: pb_wire_ok_def)

lemma data_type_into_less: "data_type_into t < 2 ^ 31"
  by (cases t) simp_all

lemma data_type_roundtrip [simp]: "data_type_from (data_type_into t) = t"
  by (cases t) (simp_all add: data_type_from_def)

lemmas pb_size_simps = pb_wire_tag(2) pb_wire_delimited pb_wire_sizes

lemma length_pb_link_write:
  assumes "pb_wire_ok pw"
  shows "length (pb_link_write pw l) = pb_link_get_size pw l"
  using assms by (simp add: pb_link_write_def pb_link_get_size_def pb_size_simps split: option.split)

lemma length_unix_time_write:
  assumes "pb_wire_ok pw"
  shows "length (unix_time_write pw t) = unix_time_get_size pw t"
  using assms by (simp add: unix_time_write_def unix_time_get_size_def pb_size_simps split: option.split)

lemma length_unix_fs_write:
  assumes "pb_wire_ok pw"
  shows "length (unix_fs_write pw d) = unix_fs_get_size pw d"
proof -
  have bs: "length (concat (map (\<lambda>s. put_tag pw 32 @ put_uint64 pw s) ss)) =
      sum_list (map (\<lambda>s. 1 + sizeof_varint pw s) ss)" for ss
    by (induction ss) (simp_all add: pb_size_simps assms)
  have opt: "length (case x of None \<Rightarrow> [] | Some s \<Rightarrow> put_tag pw t @ f s) = (case x of None \<Rightarrow> 0 | Some s \<Rightarrow> 1 + length (f s))"
    if "t < 128" for x :: "'b option" and t :: u32 and f :: "'b \<Rightarrow> bytes"
    using that assms by (simp add: pb_wire_tag split: option.split)
  show ?thesis
    by (simp add: unix_fs_write_def unix_fs_get_size_def bs opt write_message_def length_unix_time_write pb_size_simps assms
        pb_wire_sizes(5) [OF assms data_type_into_less] cong: option.case_cong)
qed

lemma length_flat_write:
  assumes "pb_wire_ok pw"
  shows "length (flat_write pw f) = flat_get_size pw f"
proof -
  have "length (concat (map (\<lambda>link. put_tag pw 18 @ write_message pw (pb_link_get_size pw link) (pb_link_write pw link)) ls)) =
      sum_list (map (\<lambda>s. 1 + sizeof_len pw (pb_link_get_size pw s)) ls)" for ls
    by (induction ls) (simp_all add: pb_size_simps write_message_def length_pb_link_write assms)
  then show ?thesis
    by (simp add: flat_write_def flat_get_size_def write_message_def length_unix_fs_write pb_size_simps assms)
qed

section \<open>Reading back what was written\<close>

lemma read_fields_Nil [simp]: "read_fields pw field [] msg = Some (Ok msg)"
  by (simp add: read_fields.simps)

lemma read_fields_tag:
  assumes "pb_wire_ok pw" "t < 128" "field t bs msg = Some (Ok (msg', rest))"
  shows "read_fields pw field (put_tag pw t @ bs) msg = read_fields pw field rest msg'"
proof -
  have "put_tag pw t \<noteq> []" using pb_wire_tag(2) [OF assms(1,2)] by auto
  then show ?thesis
    by (subst read_fields.simps) (simp add: pb_wire_tag(1) assms)
qed

text \<open>An optional field, and a repeated one.\<close>

lemma read_fields_option:
  assumes "pb_wire_ok pw" "t < 128" "upd None msg = msg"
    and "\<And>v rest. x = Some v \<Longrightarrow> field t (w v @ rest) msg = Some (Ok (upd (Some v) msg, rest))"
  shows "read_fields pw field ((case x of None \<Rightarrow> [] | Some v \<Rightarrow> put_tag pw t @ w v) @ rest) msg =
    read_fields pw field rest (upd x msg)"
  by (cases x) (simp_all add: read_fields_tag [OF assms(1,2)] assms(3,4))

lemma read_fields_repeated:
  assumes "pb_wire_ok pw" "t < 128"
    and "\<And>v msg rest. v \<in> set xs \<Longrightarrow> field t (w v @ rest) msg = Some (Ok (upd v msg, rest))"
  shows "read_fields pw field (concat (map (\<lambda>v. put_tag pw t @ w v) xs) @ rest) msg =
    read_fields pw field rest (fold upd xs msg)"
  using assms(3)
  by (induction xs arbitrary: msg) (simp_all add: read_fields_tag [OF assms(1,2)])

text \<open>Messages that fit: every length-delimited part is shorter than \<open>len_limit\<close> and names are UTF-8.\<close>

definition pb_link_fits :: "'e pb_wire \<Rightarrow> pb_link \<Rightarrow> bool" where
  "pb_link_fits pw l \<longleftrightarrow> pb_link_get_size pw l < len_limit \<and> (case Name l of None \<Rightarrow> True | Some s \<Rightarrow> utf8_valid s)"

definition flat_fits :: "'e pb_wire \<Rightarrow> flat_unix_fs \<Rightarrow> bool" where
  "flat_fits pw f \<longleftrightarrow> (\<forall>l \<in> set (flat_links f). pb_link_fits pw l) \<and> unix_fs_get_size pw (flat_data f) < len_limit"

lemma read_message_written:
  assumes "pb_wire_ok pw" "length message < len_limit" "n = length message" "from_reader message = Some (Ok m)"
  shows "read_message pw from_reader (write_message pw n message @ rest) = Some (Ok (m, rest))"
  using assms by (simp add: read_message_def write_message_def pb_wire_read_delimited)

lemma pb_link_roundtrip:
  assumes ok: "pb_wire_ok pw" and fits: "pb_link_fits pw l"
  shows "pb_link_from_reader pw (pb_link_write pw l) = Some (Ok l)"
proof -
  let ?read = "read_fields pw (pb_link_field pw)"
  have h: "length b < len_limit" if "Hash l = Some b" for b
    using fits that ok by (simp add: pb_link_fits_def pb_link_get_size_def pb_wire_delimited)
  have n: "length b < len_limit" "utf8_valid b" if "Name l = Some b" for b
    using fits that ok by (simp_all add: pb_link_fits_def pb_link_get_size_def pb_wire_delimited)
  have hash: "?read ((case Hash l of None \<Rightarrow> [] | Some s \<Rightarrow> put_tag pw 10 @ put_bytes pw s) @ rest) msg =
      ?read rest (msg\<lparr>Hash := Hash l\<rparr>)" if "Hash msg = None" for rest msg
    by (rule read_fields_option [OF ok])
      (use that in \<open>simp_all add: pb_link_field_def pb_wire_delimited pb_wire_read_delimited ok h\<close>)
  have name: "?read ((case Name l of None \<Rightarrow> [] | Some s \<Rightarrow> put_tag pw 18 @ put_string pw s) @ rest) msg =
      ?read rest (msg\<lparr>Name := Name l\<rparr>)" if "Name msg = None" for rest msg
    by (rule read_fields_option [OF ok])
      (use that in \<open>simp_all add: pb_link_field_def pb_wire_delimited pb_wire_read_delimited ok n\<close>)
  have tsize: "?read ((case Tsize l of None \<Rightarrow> [] | Some s \<Rightarrow> put_tag pw 24 @ put_uint64 pw s) @ rest) msg =
      ?read rest (msg\<lparr>Tsize := Tsize l\<rparr>)" if "Tsize msg = None" for rest msg
    by (rule read_fields_option [OF ok]) (use that in \<open>simp_all add: pb_link_field_def pb_wire_numbers ok\<close>)
  show ?thesis
    using tsize [of _ "[]"] by (simp add: pb_link_from_reader_def pb_link_write_def hash name pb_link_default_def)
qed

lemma unix_time_roundtrip:
  assumes ok: "pb_wire_ok pw"
  shows "unix_time_from_reader pw (unix_time_write pw t) = Some (Ok t)"
proof -
  let ?read = "read_fields pw (unix_time_field pw)"
  have nanos: "?read ((case FractionalNanoseconds t of None \<Rightarrow> [] | Some s \<Rightarrow> put_tag pw 21 @ put_fixed32 pw s) @ rest) msg =
      ?read rest (msg\<lparr>FractionalNanoseconds := FractionalNanoseconds t\<rparr>)" if "FractionalNanoseconds msg = None" for rest msg
    by (rule read_fields_option [OF ok]) (use that in \<open>simp_all add: unix_time_field_def pb_wire_numbers ok\<close>)
  have "?read (put_tag pw 8 @ put_int64 pw (Seconds t) @ rest) msg = ?read rest (msg\<lparr>Seconds := Seconds t\<rparr>)" for rest msg
    by (rule read_fields_tag [OF ok]) (simp_all add: unix_time_field_def pb_wire_numbers ok)
  then show ?thesis
    using nanos [of _ "[]"] by (simp add: unix_time_from_reader_def unix_time_write_def unix_time_default_def)
qed

lemma fold_push_blocksizes:
  "fold (\<lambda>v m. m\<lparr>blocksizes := blocksizes m @ [v]\<rparr>) bs msg = msg\<lparr>blocksizes := blocksizes msg @ bs\<rparr>"
  by (induction bs arbitrary: msg) simp_all

lemma fold_push_links:
  "fold (\<lambda>v m. m\<lparr>Links := Links m @ [v]\<rparr>) ls msg = msg\<lparr>Links := Links msg @ ls\<rparr>"
  by (induction ls arbitrary: msg) simp_all

lemma unix_fs_roundtrip:
  assumes ok: "pb_wire_ok pw" and fits: "unix_fs_get_size pw d < len_limit"
  shows "unix_fs_from_reader pw (unix_fs_write pw d) = Some (Ok d)"
proof -
  let ?read = "read_fields pw (unix_fs_field pw)"
  have b: "length b < len_limit" if "Data d = Some b" for b
    using fits that ok by (simp add: unix_fs_get_size_def pb_wire_delimited)
  have m: "unix_time_get_size pw t < len_limit" if "mtime d = Some t" for t
    using fits that ok by (simp add: unix_fs_get_size_def pb_wire_delimited)
  note field = unix_fs_field_def pb_wire_numbers ok
  have ty: "?read (put_tag pw 8 @ put_enum pw (data_type_into (Type d)) @ rest) msg = ?read rest (msg\<lparr>Type := Type d\<rparr>)" for rest msg
    by (rule read_fields_tag [OF ok]) (simp_all add: field)
  have data: "?read ((case Data d of None \<Rightarrow> [] | Some s \<Rightarrow> put_tag pw 18 @ put_bytes pw s) @ rest) msg =
      ?read rest (msg\<lparr>Data := Data d\<rparr>)" if "Data msg = None" for rest msg
    by (rule read_fields_option [OF ok]) (use that in \<open>simp_all add: field pb_wire_delimited pb_wire_read_delimited b\<close>)
  have fsize: "?read ((case filesize d of None \<Rightarrow> [] | Some s \<Rightarrow> put_tag pw 24 @ put_uint64 pw s) @ rest) msg =
      ?read rest (msg\<lparr>filesize := filesize d\<rparr>)" if "filesize msg = None" for rest msg
    by (rule read_fields_option [OF ok]) (use that in \<open>simp_all add: field\<close>)
  have blocks: "?read (concat (map (\<lambda>s. put_tag pw 32 @ put_uint64 pw s) (blocksizes d)) @ rest) msg =
      ?read rest (msg\<lparr>blocksizes := blocksizes msg @ blocksizes d\<rparr>)" for rest msg
    by (subst read_fields_repeated [OF ok, where upd = "\<lambda>v m. m\<lparr>blocksizes := blocksizes m @ [v]\<rparr>"])
      (simp_all add: field fold_push_blocksizes)
  have hash: "?read ((case hashType d of None \<Rightarrow> [] | Some s \<Rightarrow> put_tag pw 40 @ put_uint64 pw s) @ rest) msg =
      ?read rest (msg\<lparr>hashType := hashType d\<rparr>)" if "hashType msg = None" for rest msg
    by (rule read_fields_option [OF ok]) (use that in \<open>simp_all add: field\<close>)
  have fan: "?read ((case fanout d of None \<Rightarrow> [] | Some s \<Rightarrow> put_tag pw 48 @ put_uint64 pw s) @ rest) msg =
      ?read rest (msg\<lparr>fanout := fanout d\<rparr>)" if "fanout msg = None" for rest msg
    by (rule read_fields_option [OF ok]) (use that in \<open>simp_all add: field\<close>)
  have mo: "?read ((case mode d of None \<Rightarrow> [] | Some s \<Rightarrow> put_tag pw 56 @ put_uint32 pw s) @ rest) msg =
      ?read rest (msg\<lparr>mode := mode d\<rparr>)" if "mode msg = None" for rest msg
    by (rule read_fields_option [OF ok]) (use that in \<open>simp_all add: field\<close>)
  have mt: "?read ((case mtime d of None \<Rightarrow> [] | Some s \<Rightarrow> put_tag pw 66 @
        write_message pw (unix_time_get_size pw s) (unix_time_write pw s)) @ rest) msg =
      ?read rest (msg\<lparr>mtime := mtime d\<rparr>)" if "mtime msg = None" for rest msg
    by (rule read_fields_option [OF ok])
      (use that in \<open>simp_all add: field read_message_written length_unix_time_write unix_time_roundtrip m\<close>)
  show ?thesis
    using mt [of _ "[]"]
    by (simp add: unix_fs_from_reader_def unix_fs_write_def ty data fsize blocks hash fan mo unix_fs_default_def)
qed

lemma unix_fs_write_not_Nil: "pb_wire_ok pw \<Longrightarrow> unix_fs_write pw d \<noteq> []"
  using pb_wire_tag(2) [of pw 8] by (auto simp: unix_fs_write_def)

lemma flat_roundtrip:
  assumes ok: "pb_wire_ok pw" and fits: "flat_fits pw f"
  shows "flat_try_from pw (flat_write pw f) = Some (Ok f)"
proof -
  let ?read = "read_fields pw (pb_node_field pw)"
  let ?data = "unix_fs_write pw (flat_data f)"
  have len: "length ?data = unix_fs_get_size pw (flat_data f)" "length ?data < len_limit"
    using fits by (simp_all add: flat_fits_def length_unix_fs_write ok)
  have links: "?read (concat (map (\<lambda>l. put_tag pw 18 @ write_message pw (pb_link_get_size pw l) (pb_link_write pw l)) (flat_links f)) @ rest) msg =
      ?read rest (msg\<lparr>Links := Links msg @ flat_links f\<rparr>)" for rest msg
  proof (subst read_fields_repeated [OF ok, where upd = "\<lambda>v m. m\<lparr>Links := Links m @ [v]\<rparr>"])
    fix l msg rest assume "l \<in> set (flat_links f)"
    then have "pb_link_fits pw l" using fits by (simp add: flat_fits_def)
    then show "pb_node_field pw 18 (write_message pw (pb_link_get_size pw l) (pb_link_write pw l) @ rest) msg =
        Some (Ok (msg\<lparr>Links := Links msg @ [l]\<rparr>, rest))"
      by (simp add: pb_node_field_def read_message_written ok length_pb_link_write pb_link_roundtrip pb_link_fits_def)
  qed (simp_all add: fold_push_links)
  have "?read (put_tag pw 10 @ put_len pw (length ?data) @ ?data) msg = ?read [] (msg\<lparr>node_Data := Some ?data\<rparr>)" for msg
    by (rule read_fields_tag [OF ok])
      (use pb_wire_read_delimited(1) [OF ok len(2), of "[]"] in \<open>simp_all add: pb_node_field_def\<close>)
  then have "pb_node_from_reader pw (flat_write pw f) = Some (Ok \<lparr>Links = flat_links f, node_Data = Some ?data\<rparr>)"
    by (simp add: pb_node_from_reader_def flat_write_def links [unfolded write_message_def] write_message_def len(1) [symmetric] pb_node_default_def)
  moreover have "unix_fs_from_reader pw ?data = Some (Ok (flat_data f))"
    using fits by (intro unix_fs_roundtrip ok) (simp add: flat_fits_def)
  ultimately show ?thesis
    by (simp add: flat_try_from_def unix_fs_try_from_def unix_fs_write_not_Nil ok)
qed

section \<open>The protobuf encoding satisfies the laws\<close>

text \<open>Base-128 numbers, least significant group first, and the encoding built from them.\<close>

fun varint :: "nat \<Rightarrow> bytes" where
  "varint n = (if n < 128 then [of_nat n] else of_nat (n mod 128 + 128) # varint (n div 128))"

declare varint.simps [simp del]

primrec read_varint :: "bytes \<Rightarrow> (nat \<times> bytes, unit) result" where
  "read_varint [] = Err ()"
| "read_varint (b # bs) =
     (if b < 128 then Ok (unat b, bs)
      else case read_varint bs of Err e \<Rightarrow> Err e | Ok (n, rest) \<Rightarrow> Ok (n * 128 + (unat b - 128), rest))"

definition read_delimited :: "bytes \<Rightarrow> (bytes \<times> bytes, unit) result" where
  "read_delimited bs =
     (case read_varint bs of
        Err e \<Rightarrow> Err e
      | Ok (n, rest) \<Rightarrow> if n \<le> length rest then Ok (take n rest, drop n rest) else Err ())"

definition skip_bytes :: "nat \<Rightarrow> bytes \<Rightarrow> (bytes, unit) result" where
  "skip_bytes n bs = (if n \<le> length bs then Ok (drop n bs) else Err ())"

definition protobuf :: "unit pb_wire" where
  "protobuf = \<lparr>
     put_tag = \<lambda>t. varint (unat t),
     put_len = varint,
     put_bytes = \<lambda>b. varint (length b) @ b,
     put_string = \<lambda>b. varint (length b) @ b,
     put_uint64 = \<lambda>v. varint (unat v),
     put_uint32 = \<lambda>v. varint (unat v),
     put_int64 = \<lambda>v. varint (unat v),
     put_fixed32 = le_bytes32,
     put_enum = \<lambda>v. varint (unat (scast v :: u64)),
     sizeof_varint = \<lambda>v. length (varint (unat v)),
     sizeof_len = \<lambda>n. length (varint n) + n,
     next_tag = \<lambda>bs. map_result (map_prod of_nat id) id (read_varint bs),
     read_bytes = read_delimited,
     read_string = \<lambda>bs. (case read_delimited bs of Err e \<Rightarrow> Err e | Ok (s, rest) \<Rightarrow> if utf8_valid s then Ok (s, rest) else Err ()),
     read_uint64 = \<lambda>bs. map_result (map_prod of_nat id) id (read_varint bs),
     read_uint32 = \<lambda>bs. map_result (map_prod of_nat id) id (read_varint bs),
     read_int64 = \<lambda>bs. map_result (map_prod of_nat id) id (read_varint bs),
     read_fixed32 = \<lambda>bs. (case le_word32 (take 4 bs) of None \<Rightarrow> Err () | Some v \<Rightarrow> Ok (v, drop 4 bs)),
     read_int32 = \<lambda>bs. map_result (map_prod of_nat id) id (read_varint bs),
     read_unknown = \<lambda>t bs.
       if t mod 8 = 0 then map_result snd id (read_varint bs)
       else if t mod 8 = 1 then skip_bytes 8 bs
       else if t mod 8 = 2 then map_result snd id (read_delimited bs)
       else if t mod 8 = 5 then skip_bytes 4 bs else Err ()\<rparr>"

lemma read_varint_varint: "read_varint (varint n @ rest) = Ok (n, rest)"
proof (induction n rule: varint.induct)
  case (1 n)
  show ?case
  proof (cases "n < 128")
    case True
    then show ?thesis by (subst varint.simps) (simp add: word_less_nat_alt unat_of_nat)
  next
    case False
    have "n mod 128 + 128 < 256" by simp
    then have "unat (of_nat (n mod 128 + 128) :: byte) = n mod 128 + 128"
      by (simp add: unat_of_nat del: of_nat_add)
    then show ?thesis
      using 1 False by (subst varint.simps) (simp add: word_less_nat_alt del: of_nat_add)
  qed
qed

lemma length_varint_less: "n < 128 \<Longrightarrow> length (varint n) = 1"
  by (simp add: varint.simps)

lemma read_delimited_varint: "read_delimited (varint (length b) @ b @ rest) = Ok (b, rest)"
  by (simp add: read_delimited_def read_varint_varint)

lemma ucast_scast_u32: "(ucast (scast (v :: u32) :: u64) :: u32) = v"
  by (rule bit_word_eqI) (simp add: bit_simps)

lemma scast_small: "v < 2 ^ 31 \<Longrightarrow> (scast (v :: u32) :: u64) = ucast v"
proof (rule bit_word_eqI)
  fix n assume v: "v < 2 ^ 31" and n: "n < LENGTH(64)"
  have "take_bit 31 v = v" using v by (simp add: word_unat_eq_iff unsigned_take_bit_eq take_bit_nat_eq_self word_less_nat_alt)
  then have "\<not> bit v m" if "31 \<le> m" for m
    using that by (metis bit_take_bit_iff linorder_not_less)
  then show "bit (scast v :: u64) n = bit (ucast v :: u64) n"
    using n by (cases "31 \<le> n") (simp_all add: bit_simps min_def)
qed

lemma protobuf_ok: "pb_wire_ok protobuf"
proof -
  have "(of_nat (unat (scast (v :: u32) :: u64)) :: u32) = v" for v
    using ucast_scast_u32 [of v] by simp
  moreover have "unat (ucast (v :: u32) :: u64) = unat v" for v
    by (simp add: unsigned_ucast_eq take_bit_nat_eq_self unsigned_less [of v, THEN order.strict_trans])
  moreover have "length (varint (unat (t :: u32))) = 1" if "t < 128" for t
    using that by (intro length_varint_less) (simp add: word_less_nat_alt)
  moreover have "length (le_bytes32 v) = 4" for v
    by (simp add: le_bytes32_def)
  ultimately show ?thesis
    by (simp add: pb_wire_ok_def protobuf_def read_varint_varint read_delimited_varint le_word32_le_bytes32 scast_small)
qed

end
