(* ===== verification/Repo_Mem.thy ===== *)
theory Repo_Mem
  imports Prelude
begin

text \<open>
  The in-memory repository of the IPFS node, \<open>utils/rust-ipfs/src/repo/mem.rs\<close>, with the pin kinds and modes of
  \<open>repo/mod.rs\<close>: blocks by multihash, IPNS records, and the pin documents with their update rules.  CIDs, blocks and the
  JSON form of a pin document come from other crates and are parameters.
\<close>

section \<open>CIDs and blocks\<close>

datatype version = V0 | V1

record ('cid, 'h, 'ce) cid_ops =
  co_version :: "'cid \<Rightarrow> version"
  co_hash :: "'cid \<Rightarrow> 'h"
  co_to_v1 :: "'cid \<Rightarrow> 'cid"
  co_to_bytes :: "'cid \<Rightarrow> bytes"
  co_to_string :: "'cid \<Rightarrow> bytes"
  co_from_bytes :: "bytes \<Rightarrow> ('cid, 'ce) result"
  co_from_string :: "bytes \<Rightarrow> ('cid, 'ce) result"

datatype block_put = NewBlock | Existed

datatype 'cid block_rm = Removed 'cid

datatype 'cid block_rm_error = NotFound 'cid

text \<open>The block store: a map from the multihash of a CID (the equality of \<open>RepoCid\<close>) to the CID it was inserted with and the
  block.\<close>

type_synonym ('cid, 'h, 'b) mem_block_store = "'h \<Rightarrow> ('cid \<times> 'b) option"

definition blocks_contains :: "('cid, 'h, 'ce) cid_ops \<Rightarrow> 'cid \<Rightarrow> ('cid, 'h, 'b) mem_block_store \<Rightarrow> bool" where
  "blocks_contains co cid blocks \<longleftrightarrow> blocks (co_hash co cid) \<noteq> None"

definition blocks_get :: "('cid, 'h, 'ce) cid_ops \<Rightarrow> 'cid \<Rightarrow> ('cid, 'h, 'b) mem_block_store \<Rightarrow> 'b option" where
  "blocks_get co cid blocks = map_option snd (blocks (co_hash co cid))"

definition blocks_put ::
  "('cid, 'h, 'ce) cid_ops \<Rightarrow> ('b \<Rightarrow> 'cid) \<Rightarrow> 'b \<Rightarrow> ('cid, 'h, 'b) mem_block_store \<Rightarrow>
   ('cid, 'h, 'b) mem_block_store \<times> 'cid \<times> block_put" where
  "blocks_put co block_cid block blocks =
     (let cid = block_cid block in
      case blocks (co_hash co cid) of
        Some _ \<Rightarrow> (blocks, cid, Existed)
      | None \<Rightarrow> (blocks(co_hash co cid \<mapsto> (cid, block)), cid, NewBlock))"

definition blocks_remove ::
  "('cid, 'h, 'ce) cid_ops \<Rightarrow> 'cid \<Rightarrow> ('cid, 'h, 'b) mem_block_store \<Rightarrow>
   ('cid, 'h, 'b) mem_block_store \<times> ('cid block_rm, 'cid block_rm_error) result" where
  "blocks_remove co cid blocks =
     (case blocks (co_hash co cid) of
        Some _ \<Rightarrow> (blocks(co_hash co cid := None), Ok (Removed cid))
      | None \<Rightarrow> (blocks, Err (NotFound cid)))"

definition blocks_wipe :: "('cid, 'h, 'b) mem_block_store \<Rightarrow> ('cid, 'h, 'b) mem_block_store" where
  "blocks_wipe blocks = Map.empty"

section \<open>Pin documents\<close>

datatype pin_mode = Pm_Indirect | Pm_Direct | Pm_Recursive

datatype pin_mode_requirement = Only pin_mode | Any

definition requirement_from :: "pin_mode option \<Rightarrow> pin_mode_requirement" where
  "requirement_from f = (case f of Some one \<Rightarrow> Only one | None \<Rightarrow> Any)"

definition is_indirect_or_any :: "pin_mode_requirement \<Rightarrow> bool" where
  "is_indirect_or_any r = (case r of Only m \<Rightarrow> m = Pm_Indirect | Any \<Rightarrow> True)"

text \<open>\<open>eq\<close> is the comparison of the other value with a pin mode.\<close>

definition requirement_matches :: "('p \<Rightarrow> pin_mode \<Rightarrow> bool) \<Rightarrow> pin_mode_requirement \<Rightarrow> 'p \<Rightarrow> bool" where
  "requirement_matches eq r other = (case r of Only one \<Rightarrow> eq other one | Any \<Rightarrow> True)"

definition required :: "pin_mode_requirement \<Rightarrow> pin_mode option" where
  "required r = (case r of Only one \<Rightarrow> Some one | Any \<Rightarrow> None)"

datatype 'cid pin_kind = IndirectFrom 'cid | Direct | RecursivePin u64 | RecursiveIntention

fun kind_eq_mode :: "'cid pin_kind \<Rightarrow> pin_mode \<Rightarrow> bool" where
  "kind_eq_mode (IndirectFrom _) Pm_Indirect = True"
| "kind_eq_mode Direct Pm_Direct = True"
| "kind_eq_mode (RecursivePin _) Pm_Recursive = True"
| "kind_eq_mode RecursiveIntention Pm_Recursive = True"
| "kind_eq_mode _ _ = False"

datatype recursive = Count u64 | Intent | Not

definition is_set :: "recursive \<Rightarrow> bool" where
  "is_set r = (case r of Count _ \<Rightarrow> True | Intent \<Rightarrow> True | Not \<Rightarrow> False)"

record pin_document =
  pd_version :: byte
  pd_direct :: bool
  pd_recursive :: recursive
  pd_cid_version :: byte
  pd_indirect_by :: "bytes list"

datatype pin_update_error =
    UnexpectedNumberOfDescendants u64 u64
  | NotPinnedRecursive
  | AlreadyPinnedRecursive
  | CannotUnpinUnpinned
  | CannotUnpinDirectOnRecursivelyPinned

definition v1_of :: "('cid, 'h, 'ce) cid_ops \<Rightarrow> 'cid \<Rightarrow> 'cid" where
  "v1_of co cid = (if co_version co cid = V1 then cid else co_to_v1 co cid)"

text \<open>Collecting into a \<open>BTreeSet\<close> and iterating over it.\<close>

definition as_btree_set :: "bytes list \<Rightarrow> bytes list" where
  "as_btree_set xs = sort (remdups xs)"

definition doc_update ::
  "('cid, 'h, 'ce) cid_ops \<Rightarrow> bool \<Rightarrow> 'cid pin_kind \<Rightarrow> pin_document \<Rightarrow> pin_document \<times> (bool, pin_update_error) result" where
  "doc_update co add kind doc =
     (case kind of
        IndirectFrom root \<Rightarrow>
          (let root = co_to_string co (v1_of co root) in
           if pd_indirect_by doc = [] then
             (if add then (doc\<lparr>pd_indirect_by := [root]\<rparr>, Ok True) else (doc, Ok False))
           else
             (let old = pd_indirect_by doc;
                  modified = (if add then root \<notin> set old else root \<in> set old);
                  xs = (if add then root # old else filter (\<lambda>x. x \<noteq> root) old)
              in (doc\<lparr>pd_indirect_by := as_btree_set xs\<rparr>, Ok modified)))
      | Direct \<Rightarrow>
          if is_set (pd_recursive doc) \<and> \<not> pd_direct doc \<and> add then (doc, Err AlreadyPinnedRecursive)
          else if \<not> add \<and> \<not> pd_direct doc then
            (if \<not> is_set (pd_recursive doc) then (doc, Err CannotUnpinUnpinned)
             else (doc, Err CannotUnpinDirectOnRecursivelyPinned))
          else (doc\<lparr>pd_direct := add\<rparr>, Ok (pd_direct doc \<noteq> add))
      | RecursiveIntention \<Rightarrow>
          if add then
            (case pd_recursive doc of
               Count _ \<Rightarrow> (doc, Err AlreadyPinnedRecursive)
             | Intent \<Rightarrow> (doc, Ok False)
             | Not \<Rightarrow> (doc\<lparr>pd_recursive := Intent, pd_direct := False\<rparr>, Ok True))
          else
            (case pd_recursive doc of
               Not \<Rightarrow> (doc, Ok False)
             | _ \<Rightarrow> (doc\<lparr>pd_recursive := Not\<rparr>, Ok True))
      | RecursivePin descendants \<Rightarrow>
          if add then
            (case pd_recursive doc of
               Count other \<Rightarrow>
                 if other \<noteq> descendants then (doc, Err (UnexpectedNumberOfDescendants other descendants)) else (doc, Ok False)
             | _ \<Rightarrow> (doc\<lparr>pd_recursive := Count descendants, pd_direct := False\<rparr>, Ok True))
          else
            (case pd_recursive doc of
               Count other \<Rightarrow>
                 if other \<noteq> descendants then (doc, Err (UnexpectedNumberOfDescendants other descendants))
                 else (doc\<lparr>pd_recursive := Not\<rparr>, Ok True)
             | Intent \<Rightarrow> (doc\<lparr>pd_recursive := Not\<rparr>, Ok True)
             | Not \<Rightarrow> (doc, Err NotPinnedRecursive)))"

definition can_remove :: "pin_document \<Rightarrow> bool" where
  "can_remove doc \<longleftrightarrow> \<not> pd_direct doc \<and> \<not> is_set (pd_recursive doc) \<and> pd_indirect_by doc = []"

definition doc_mode :: "pin_document \<Rightarrow> pin_mode option" where
  "doc_mode doc =
     (if is_set (pd_recursive doc) then Some Pm_Recursive
      else if pd_indirect_by doc \<noteq> [] then Some Pm_Indirect
      else if pd_direct doc then Some Pm_Direct
      else None)"

text \<open>The \<open>unreachable!\<close> branch is a panic.\<close>

definition pick_kind :: "('cid, 'h, 'ce) cid_ops \<Rightarrow> pin_document \<Rightarrow> ('cid pin_kind, 'ce) result option exec" where
  "pick_kind co doc =
     (case doc_mode doc of
        None \<Rightarrow> Done None
      | Some Pm_Recursive \<Rightarrow>
          (case pd_recursive doc of
             Intent \<Rightarrow> Done (Some (Ok RecursiveIntention))
           | Count descendants \<Rightarrow> Done (Some (Ok (RecursivePin descendants)))
           | Not \<Rightarrow> Panic)
      | Some Pm_Indirect \<Rightarrow>
          (case co_from_string co (hd (pd_indirect_by doc)) of
             Ok cid \<Rightarrow> Done (Some (Ok (IndirectFrom cid)))
           | Err e \<Rightarrow> Done (Some (Err e)))
      | Some Pm_Direct \<Rightarrow> Done (Some (Ok Direct)))"

section \<open>The pin store\<close>

type_synonym pins = "bytes \<Rightarrow> bytes option"

datatype ('cid, 'ce, 're) pin_error =
    Pe_Json
  | Pe_Update pin_update_error
  | Pe_NotPinned
  | Pe_NotPinnedOrIndirectly
  | Pe_PinnedIndirectlyThrough 'cid
  | Pe_Refs 're
  | Pe_IsNotPinned 'cid
  | Pe_IsNotPinnedAs 'cid pin_mode
  | Pe_InvalidCid 'ce
  | Pe_InvalidMode

definition new_document :: "('cid, 'h, 'ce) cid_ops \<Rightarrow> 'cid \<Rightarrow> pin_document" where
  "new_document co target = \<lparr>pd_version = 0, pd_direct = False, pd_recursive = Not,
     pd_cid_version = (case co_version co target of V0 \<Rightarrow> 0 | V1 \<Rightarrow> 1), pd_indirect_by = []\<rparr>"

definition insert_pin ::
  "('cid, 'h, 'ce) cid_ops \<Rightarrow> pin_document codec \<Rightarrow> 'cid \<Rightarrow> 'cid pin_kind \<Rightarrow> pins \<Rightarrow>
   (pins \<times> (bool, ('cid, 'ce, 're) pin_error) result) exec" where
  "insert_pin co dc target kind g =
     (let key = co_to_bytes co target in
      case g key of
        Some raw \<Rightarrow>
          (case decode dc raw of
             None \<Rightarrow> Done (g, Err Pe_Json)
           | Some doc \<Rightarrow>
               (case doc_update co True kind doc of
                  (doc, Err e) \<Rightarrow> Done (g, Err (Pe_Update e))
                | (doc, Ok modified) \<Rightarrow>
                    if modified then Done (g(key \<mapsto> encode dc doc), Ok True) else Done (g, Ok False)))
      | None \<Rightarrow>
          (case doc_update co True kind (new_document co target) of
             (doc, Err _) \<Rightarrow> Panic
           | (doc, Ok _) \<Rightarrow> Done (g(key \<mapsto> encode dc doc), Ok True)))"

definition remove_pin ::
  "('cid, 'h, 'ce) cid_ops \<Rightarrow> pin_document codec \<Rightarrow> 'cid \<Rightarrow> 'cid pin_kind \<Rightarrow> pins \<Rightarrow>
   pins \<times> (bool, ('cid, 'ce, 're) pin_error) result" where
  "remove_pin co dc target kind g =
     (let key = co_to_bytes co target in
      case g key of
        Some raw \<Rightarrow>
          (case decode dc raw of
             None \<Rightarrow> (g, Err Pe_Json)
           | Some doc \<Rightarrow>
               (case doc_update co False kind doc of
                  (doc, Err e) \<Rightarrow> (g, Err (Pe_Update e))
                | (doc, Ok modified) \<Rightarrow>
                    if \<not> modified then (g, Ok False)
                    else if can_remove doc then (g(key := None), Ok True)
                    else (g(key \<mapsto> encode dc doc), Ok True)))
      | None \<Rightarrow> (g, Err Pe_NotPinned))"

definition is_pinned :: "('cid, 'h, 'ce) cid_ops \<Rightarrow> 'cid \<Rightarrow> pins \<Rightarrow> bool" where
  "is_pinned co block g \<longleftrightarrow> g (co_to_bytes co block) \<noteq> None"

definition insert_direct_pin ::
  "('cid, 'h, 'ce) cid_ops \<Rightarrow> pin_document codec \<Rightarrow> 'cid \<Rightarrow> pins \<Rightarrow> (pins \<times> (unit, ('cid, 'ce, 're) pin_error) result) exec" where
  "insert_direct_pin co dc target g =
     bind_exec (insert_pin co dc target Direct g) (\<lambda>(g, r). Done (g, case r of Ok _ \<Rightarrow> Ok () | Err e \<Rightarrow> Err e))"

definition remove_direct_pin ::
  "('cid, 'h, 'ce) cid_ops \<Rightarrow> pin_document codec \<Rightarrow> 'cid \<Rightarrow> pins \<Rightarrow> pins \<times> (unit, ('cid, 'ce, 're) pin_error) result" where
  "remove_direct_pin co dc target g =
     (case remove_pin co dc target Direct g of (g, r) \<Rightarrow> (g, case r of Ok _ \<Rightarrow> Ok () | Err e \<Rightarrow> Err e))"

text \<open>The loops over the stream of references; \<open>count\<close> is the number pinned so far.\<close>

primrec insert_refs ::
  "('cid, 'h, 'ce) cid_ops \<Rightarrow> pin_document codec \<Rightarrow> 'cid pin_kind \<Rightarrow> ('cid, 're) result list \<Rightarrow> nat \<Rightarrow> pins \<Rightarrow>
   (pins \<times> (nat, ('cid, 'ce, 're) pin_error) result) exec" where
  "insert_refs co dc kind [] n g = Done (g, Ok n)"
| "insert_refs co dc kind (r # rs) n g =
     (case r of
        Err e \<Rightarrow> Done (g, Err (Pe_Refs e))
      | Ok next \<Rightarrow>
          bind_exec (insert_pin co dc next kind g) (\<lambda>(g, x).
          case x of Err e \<Rightarrow> Done (g, Err e) | Ok _ \<Rightarrow> insert_refs co dc kind rs (Suc n) g))"

primrec remove_refs ::
  "('cid, 'h, 'ce) cid_ops \<Rightarrow> pin_document codec \<Rightarrow> 'cid pin_kind \<Rightarrow> ('cid, 're) result list \<Rightarrow> pins \<Rightarrow>
   pins \<times> (unit, ('cid, 'ce, 're) pin_error) result" where
  "remove_refs co dc kind [] g = (g, Ok ())"
| "remove_refs co dc kind (r # rs) g =
     (case r of
        Err e \<Rightarrow> (g, Err (Pe_Refs e))
      | Ok next \<Rightarrow>
          (case remove_pin co dc next kind g of
             (g, Err e) \<Rightarrow> (g, Err e)
           | (g, Ok _) \<Rightarrow> remove_refs co dc kind rs g))"

definition insert_recursive_pin ::
  "('cid, 'h, 'ce) cid_ops \<Rightarrow> pin_document codec \<Rightarrow> 'cid \<Rightarrow> ('cid, 're) result list \<Rightarrow> pins \<Rightarrow>
   (pins \<times> (unit, ('cid, 'ce, 're) pin_error) result) exec" where
  "insert_recursive_pin co dc target refs g =
     bind_exec (insert_pin co dc target RecursiveIntention g) (\<lambda>(g, x).
     case x of
       Err e \<Rightarrow> Done (g, Err e)
     | Ok _ \<Rightarrow>
         (let target_v1 = v1_of co target in
          bind_exec (insert_refs co dc (IndirectFrom target_v1) refs 0 g) (\<lambda>(g, x).
          case x of
            Err e \<Rightarrow> Done (g, Err e)
          | Ok n \<Rightarrow>
              bind_exec (insert_pin co dc target (RecursivePin (of_nat n)) g) (\<lambda>(g, x).
              Done (g, case x of Err e \<Rightarrow> Err e | Ok _ \<Rightarrow> Ok ())))))"

definition remove_recursive_pin ::
  "('cid, 'h, 'ce) cid_ops \<Rightarrow> pin_document codec \<Rightarrow> 'cid \<Rightarrow> ('cid, 're) result list \<Rightarrow> pins \<Rightarrow>
   (pins \<times> (unit, ('cid, 'ce, 're) pin_error) result) exec" where
  "remove_recursive_pin co dc target refs g =
     (case g (co_to_bytes co target) of
        None \<Rightarrow> Done (g, Err Pe_NotPinnedOrIndirectly)
      | Some raw \<Rightarrow>
          (case decode dc raw of
             None \<Rightarrow> Done (g, Err Pe_Json)
           | Some doc \<Rightarrow>
               bind_exec (pick_kind co doc) (\<lambda>k.
               case k of
                 Some (Ok Direct) \<Rightarrow>
                   Done (case remove_pin co dc target Direct g of (g, r) \<Rightarrow> (g, case r of Ok _ \<Rightarrow> Ok () | Err e \<Rightarrow> Err e))
               | Some (Ok (IndirectFrom cid)) \<Rightarrow> Done (g, Err (Pe_PinnedIndirectlyThrough cid))
               | Some (Ok kind) \<Rightarrow>
                   Done (case remove_pin co dc target kind g of
                       (g, Err e) \<Rightarrow> (g, Err e)
                     | (g, Ok _) \<Rightarrow> remove_refs co dc (IndirectFrom (v1_of co target)) refs g)
               | _ \<Rightarrow> Done (g, Err Pe_NotPinnedOrIndirectly))))"

text \<open>\<open>order\<close> is the order in which the hash map is iterated.\<close>

definition pin_list ::
  "('cid, 'h, 'ce) cid_ops \<Rightarrow> pin_document codec \<Rightarrow> pin_mode option \<Rightarrow> bytes list \<Rightarrow> pins \<Rightarrow>
   ('cid \<times> pin_mode, ('cid, 'ce, 're) pin_error) result list" where
  "pin_list co dc requirement order g =
     (let requirement = requirement_from requirement in
      filter (\<lambda>res. case res of Ok (_, mode) \<Rightarrow> requirement_matches (=) requirement mode | Err _ \<Rightarrow> True)
        (map (\<lambda>(key, raw).
           case co_from_bytes co key of
             Err e \<Rightarrow> Err (Pe_InvalidCid e)
           | Ok cid \<Rightarrow>
               (case decode dc raw of
                  None \<Rightarrow> Err Pe_Json
                | Some doc \<Rightarrow> (case doc_mode doc of Some mode \<Rightarrow> Ok (cid, mode) | None \<Rightarrow> Err Pe_InvalidMode)))
          (List.map_filter (\<lambda>key. map_option (Pair key) (g key)) order)))"

definition query_one ::
  "('cid, 'h, 'ce) cid_ops \<Rightarrow> pin_document codec \<Rightarrow> pin_mode_requirement \<Rightarrow> pins \<Rightarrow> 'cid \<Rightarrow>
   ('cid \<times> 'cid pin_kind, ('cid, 'ce, 're) pin_error) result exec" where
  "query_one co dc requirement g cid =
     (case g (co_to_bytes co cid) of
        None \<Rightarrow> Done (Err (Pe_IsNotPinned cid))
      | Some raw \<Rightarrow>
          (case decode dc raw of
             None \<Rightarrow> Done (Err Pe_Json)
           | Some doc \<Rightarrow>
               bind_exec (pick_kind co doc) (\<lambda>k.
               case k of
                 Some (Err e) \<Rightarrow> Done (Err (Pe_InvalidCid e))
               | None \<Rightarrow> Done (Err (Pe_IsNotPinned cid))
               | Some (Ok mode) \<Rightarrow>
                   if requirement_matches kind_eq_mode requirement mode then Done (Ok (cid, mode))
                   else bind_exec (expect (required requirement)) (\<lambda>m. Done (Err (Pe_IsNotPinnedAs cid m))))))"

primrec query_all ::
  "('cid, 'h, 'ce) cid_ops \<Rightarrow> pin_document codec \<Rightarrow> pin_mode_requirement \<Rightarrow> pins \<Rightarrow> 'cid list \<Rightarrow>
   (('cid \<times> 'cid pin_kind) list, ('cid, 'ce, 're) pin_error) result exec" where
  "query_all co dc requirement g [] = Done (Ok [])"
| "query_all co dc requirement g (cid # cids) =
     bind_exec (query_one co dc requirement g cid) (\<lambda>r.
     case r of
       Err e \<Rightarrow> Done (Err e)
     | Ok x \<Rightarrow> bind_exec (query_all co dc requirement g cids) (\<lambda>rs.
         Done (case rs of Err e \<Rightarrow> Err e | Ok xs \<Rightarrow> Ok (x # xs))))"

definition pin_query ::
  "('cid, 'h, 'ce) cid_ops \<Rightarrow> pin_document codec \<Rightarrow> 'cid list \<Rightarrow> pin_mode option \<Rightarrow> pins \<Rightarrow>
   (('cid \<times> 'cid pin_kind) list, ('cid, 'ce, 're) pin_error) result exec" where
  "pin_query co dc cids requirement g = query_all co dc (requirement_from requirement) g cids"


section \<open>The documents stay consistent\<close>

definition doc_inv :: "pin_document \<Rightarrow> bool" where
  "doc_inv doc \<longleftrightarrow> \<not> (pd_direct doc \<and> is_set (pd_recursive doc)) \<and> sorted (pd_indirect_by doc) \<and> distinct (pd_indirect_by doc)"

definition pins_inv :: "pin_document codec \<Rightarrow> pins \<Rightarrow> bool" where
  "pins_inv dc g \<longleftrightarrow> (\<forall>k raw. g k = Some raw \<longrightarrow> (\<exists>doc. raw = encode dc doc \<and> doc_inv doc \<and> \<not> can_remove doc))"

lemma is_set_simps [simp]: "is_set (Count n)" "is_set Intent" "\<not> is_set Not"
  by (simp_all add: is_set_def)

lemma as_btree_set_simps [simp]:
  "sorted (as_btree_set xs)" "distinct (as_btree_set xs)" "set (as_btree_set xs) = set xs" "as_btree_set xs = [] \<longleftrightarrow> xs = []"
  by (simp_all add: as_btree_set_def) (metis remdups_eq_nil_iff set_empty set_sort)

lemma as_btree_set_id: "sorted xs \<Longrightarrow> distinct xs \<Longrightarrow> as_btree_set xs = xs"
  by (simp add: as_btree_set_def distinct_remdups_id sorted_sort_id)

lemma doc_update_inv:
  assumes "doc_inv doc" "doc_update co add kind doc = (doc', Ok m)"
  shows "doc_inv doc'"
  using assms
  by (auto simp: doc_update_def doc_inv_def Let_def split: pin_kind.splits if_splits recursive.splits)

lemma doc_update_add:
  assumes "doc_update co True kind doc = (doc', Ok m)" "m \<or> \<not> can_remove doc"
  shows "\<not> can_remove doc'"
  using assms
  by (auto simp: doc_update_def can_remove_def Let_def split: pin_kind.splits if_splits recursive.splits)

lemma doc_update_new:
  obtains doc where "doc_update co True kind (new_document co target) = (doc, Ok True)"
  by (cases kind) (auto simp: doc_update_def new_document_def Let_def)

lemma insert_pin_cases:
  fixes co :: "('cid, 'h, 'ce) cid_ops"
  assumes "codec_ok dc" "pins_inv dc g"
  obtains e where "insert_pin co dc target kind g = Done (g, Err (Pe_Update e))"
  | "insert_pin co dc target kind g = Done (g, Ok False)" "g (co_to_bytes co target) \<noteq> None"
  | doc where "insert_pin co dc target kind g = Done (g(co_to_bytes co target \<mapsto> encode dc doc), Ok True)"
      "doc_inv doc" "\<not> can_remove doc"
proof (cases "g (co_to_bytes co target)")
  case None
  obtain doc where doc: "doc_update co True kind (new_document co target) = (doc, Ok True)" by (rule doc_update_new)
  have "doc_inv (new_document co target)" by (simp add: doc_inv_def new_document_def)
  from doc_update_inv [OF this doc] doc_update_add [OF doc] that(3) [of doc] show thesis
    by (simp add: insert_pin_def None doc)
next
  case (Some raw)
  then obtain doc where doc: "raw = encode dc doc" "doc_inv doc" "\<not> can_remove doc" using assms(2) by (auto simp: pins_inv_def)
  obtain doc' r where u: "doc_update co True kind doc = (doc', r)" by (cases "doc_update co True kind doc")
  show thesis
  proof (cases r)
    case (Err e)
    with that(1) [of e] assms(1) show thesis by (simp add: insert_pin_def Some doc(1) u)
  next
    case (Ok m)
    with u have u': "doc_update co True kind doc = (doc', Ok m)" by simp
    show thesis
    proof (cases m)
      case True
      with that(3) [of doc'] assms(1) doc_update_inv [OF doc(2) u'] doc_update_add [OF u'] show thesis
        by (simp add: insert_pin_def Some doc(1) u')
    next
      case False
      with that(2) assms(1) show thesis by (simp add: insert_pin_def Some doc(1) u')
    qed
  qed
qed

lemma pins_inv_upd: "pins_inv dc g \<Longrightarrow> doc_inv doc \<Longrightarrow> \<not> can_remove doc \<Longrightarrow> pins_inv dc (g(k \<mapsto> encode dc doc))"
  by (auto simp: pins_inv_def)

lemma pins_inv_del: "pins_inv dc g \<Longrightarrow> pins_inv dc (g(k := None))"
  by (auto simp: pins_inv_def)

lemma insert_pin_inv:
  assumes "codec_ok dc" "pins_inv dc g"
  shows "\<exists>g' r. insert_pin co dc target kind g = Done (g', r) \<and> pins_inv dc g'"
  by (rule insert_pin_cases [OF assms, of co target kind]) (use assms(2) pins_inv_upd in \<open>auto\<close>)

lemma remove_pin_inv:
  assumes "codec_ok dc" "pins_inv dc g" "remove_pin co dc target kind g = (g', r)"
  shows "pins_inv dc g'"
proof (cases "g (co_to_bytes co target)")
  case None
  with assms show ?thesis by (simp add: remove_pin_def)
next
  case (Some raw)
  then obtain doc where doc: "raw = encode dc doc" "doc_inv doc" "\<not> can_remove doc" using assms(2) by (auto simp: pins_inv_def)
  obtain doc' x where u: "doc_update co False kind doc = (doc', x)" by (cases "doc_update co False kind doc")
  show ?thesis
  proof (cases x)
    case (Err e)
    with assms u Some doc(1) show ?thesis by (simp add: remove_pin_def)
  next
    case (Ok m)
    with u have "doc_inv doc'" by (auto intro: doc_update_inv [OF doc(2)])
    with Ok assms u Some doc(1) show ?thesis
      by (auto simp: remove_pin_def Let_def pins_inv_upd pins_inv_del split: if_splits)
  qed
qed

lemma insert_refs_inv:
  fixes co :: "('cid, 'h, 'ce) cid_ops" and refs :: "('cid, 're) result list"
  assumes "codec_ok dc" "pins_inv dc g"
  shows "\<exists>g' r. insert_refs co dc kind refs n g = Done (g', r) \<and> pins_inv dc g'"
  using assms(2)
proof (induction refs arbitrary: g n)
  case (Cons x refs)
  show ?case
  proof (cases x)
    case (Ok next_cid)
    obtain g1 and r :: "(bool, ('cid, 'ce, 're) pin_error) result" where
      g1: "insert_pin co dc next_cid kind g = Done (g1, r)" "pins_inv dc g1"
      using insert_pin_inv [OF assms(1) Cons.prems, of co next_cid kind] by blast
    show ?thesis
    proof (cases r)
      case r: (Ok b)
      from Cons.IH [OF g1(2), of "Suc n"] show ?thesis by (simp add: Ok r g1(1))
    qed (use g1 Ok in simp)
  qed (use Cons.prems in simp)
qed simp

lemma remove_refs_inv:
  fixes co :: "('cid, 'h, 'ce) cid_ops" and refs :: "('cid, 're) result list"
  assumes "codec_ok dc" "pins_inv dc g" "remove_refs co dc kind refs g = (g', r)"
  shows "pins_inv dc g'"
  using assms(2,3)
proof (induction refs arbitrary: g)
  case (Cons x refs)
  show ?case
  proof (cases x)
    case (Ok next_cid)
    obtain g1 and y :: "(bool, ('cid, 'ce, 're) pin_error) result" where g1: "remove_pin co dc next_cid kind g = (g1, y)"
      by (rule prod.exhaust)
    from remove_pin_inv [OF assms(1) Cons.prems(1) this] Cons.IH [of g1] Cons.prems(2) Ok g1
    show ?thesis by (cases y) simp_all
  qed (use Cons.prems in simp)
qed simp

datatype ('cid, 're) pin_op =
    InsertDirect 'cid
  | RemoveDirect 'cid
  | InsertRecursive 'cid "('cid, 're) result list"
  | RemoveRecursive 'cid "('cid, 're) result list"

primrec run_pin_op ::
  "('cid, 'h, 'ce) cid_ops \<Rightarrow> pin_document codec \<Rightarrow> ('cid, 're) pin_op \<Rightarrow> pins \<Rightarrow>
   (pins \<times> (unit, ('cid, 'ce, 're) pin_error) result) exec" where
  "run_pin_op co dc (InsertDirect target) g = insert_direct_pin co dc target g"
| "run_pin_op co dc (RemoveDirect target) g = Done (remove_direct_pin co dc target g)"
| "run_pin_op co dc (InsertRecursive target refs) g = insert_recursive_pin co dc target refs g"
| "run_pin_op co dc (RemoveRecursive target refs) g = remove_recursive_pin co dc target refs g"

primrec run_pin_ops ::
  "('cid, 'h, 'ce) cid_ops \<Rightarrow> pin_document codec \<Rightarrow> ('cid, 're) pin_op list \<Rightarrow> pins \<Rightarrow> pins exec" where
  "run_pin_ops co dc [] g = Done g"
| "run_pin_ops co dc (p # ps) g = bind_exec (run_pin_op co dc p g) (\<lambda>(g, _). run_pin_ops co dc ps g)"

lemma pick_kind_Done: "\<exists>k. pick_kind co doc = Done k"
  by (cases "pd_recursive doc") (simp_all add: pick_kind_def doc_mode_def split: result.split)

lemma insert_direct_inv:
  fixes co :: "('cid, 'h, 'ce) cid_ops"
  assumes "codec_ok dc" "pins_inv dc g"
  shows "\<exists>g' (r :: (unit, ('cid, 'ce, 're) pin_error) result). insert_direct_pin co dc target g = Done (g', r) \<and> pins_inv dc g'"
proof -
  obtain g1 and r :: "(bool, ('cid, 'ce, 're) pin_error) result" where
    "insert_pin co dc target Direct g = Done (g1, r)" "pins_inv dc g1"
    using insert_pin_inv [OF assms, of co target Direct] by blast
  then show ?thesis by (simp add: insert_direct_pin_def)
qed

lemma insert_recursive_inv:
  fixes co :: "('cid, 'h, 'ce) cid_ops" and refs :: "('cid, 're) result list"
  assumes "codec_ok dc" "pins_inv dc g"
  shows "\<exists>g' r. insert_recursive_pin co dc target refs g = Done (g', r) \<and> pins_inv dc g'"
proof -
  obtain g1 and r1 :: "(bool, ('cid, 'ce, 're) pin_error) result" where
    1: "insert_pin co dc target RecursiveIntention g = Done (g1, r1)" "pins_inv dc g1"
    using insert_pin_inv [OF assms, of co target RecursiveIntention] by blast
  show ?thesis
  proof (cases r1)
    case (Err e)
    with 1 show ?thesis by (simp add: insert_recursive_pin_def)
  next
    case (Ok b)
    obtain g2 and r2 where 2: "insert_refs co dc (IndirectFrom (v1_of co target)) refs 0 g1 = Done (g2, r2)" "pins_inv dc g2"
      using insert_refs_inv [OF assms(1) 1(2), of co "IndirectFrom (v1_of co target)" refs 0] by blast
    show ?thesis
    proof (cases r2)
      case Err': (Err e)
      with 1 2 Ok show ?thesis by (simp add: insert_recursive_pin_def)
    next
      case Ok': (Ok n)
      obtain g3 and r3 :: "(bool, ('cid, 'ce, 're) pin_error) result" where
        "insert_pin co dc target (RecursivePin (of_nat n)) g2 = Done (g3, r3)" "pins_inv dc g3"
        using insert_pin_inv [OF assms(1) 2(2), of co target "RecursivePin (of_nat n)"] by blast
      with 1 2 Ok Ok' show ?thesis by (simp add: insert_recursive_pin_def)
    qed
  qed
qed

lemma remove_recursive_inv:
  fixes co :: "('cid, 'h, 'ce) cid_ops" and refs :: "('cid, 're) result list"
  assumes "codec_ok dc" "pins_inv dc g"
  shows "\<exists>g' r. remove_recursive_pin co dc target refs g = Done (g', r) \<and> pins_inv dc g'"
proof (cases "g (co_to_bytes co target)")
  case None
  with assms(2) show ?thesis by (simp add: remove_recursive_pin_def)
next
  case (Some raw)
  then obtain doc where doc: "raw = encode dc doc" using assms(2) by (auto simp: pins_inv_def)
  obtain k where k: "pick_kind co doc = Done k" using pick_kind_Done by blast
  have rm: "pins_inv dc (fst (remove_pin co dc target kind g :: _ \<times> (bool, ('cid, 'ce, 're) pin_error) result))" for kind
    using remove_pin_inv [OF assms] by (metis prod.collapse)
  have rf: "pins_inv dc (fst (remove_refs co dc kind refs g' :: _ \<times> (unit, ('cid, 'ce, 're) pin_error) result))"
    if "pins_inv dc g'" for kind g'
    using remove_refs_inv [OF assms(1) that] by (metis prod.collapse)
  have go: "\<exists>g' r. (case remove_pin co dc target kind g of (g, Err e) \<Rightarrow> (g, Err e)
      | (g, Ok _) \<Rightarrow> remove_refs co dc (IndirectFrom (v1_of co target)) refs g) = (g', r) \<and> pins_inv dc g'" for kind
  proof -
    obtain g1 and y :: "(bool, ('cid, 'ce, 're) pin_error) result" where y: "remove_pin co dc target kind g = (g1, y)"
      by (rule prod.exhaust)
    then have "pins_inv dc g1" using rm [of kind] by simp
    with rf [of g1 "IndirectFrom (v1_of co target)"] y show ?thesis
      by (cases y) (auto, metis prod.collapse)
  qed
  have dir: "\<exists>g' r. (case remove_pin co dc target Direct g of (g, r) \<Rightarrow>
      (g, case r of Ok _ \<Rightarrow> Ok () | Err (e :: ('cid, 'ce, 're) pin_error) \<Rightarrow> Err e)) = (g', r) \<and> pins_inv dc g'"
    using rm [of Direct] by (simp add: split_def)
  have unfold: "remove_recursive_pin co dc target refs g = (case k of
      Some (Ok Direct) \<Rightarrow> Done (case remove_pin co dc target Direct g of (g, r) \<Rightarrow> (g, case r of Ok _ \<Rightarrow> Ok () | Err e \<Rightarrow> Err e))
    | Some (Ok (IndirectFrom cid)) \<Rightarrow> Done (g, Err (Pe_PinnedIndirectlyThrough cid))
    | Some (Ok kind) \<Rightarrow> Done (case remove_pin co dc target kind g of
           (g, Err e) \<Rightarrow> (g, Err e) | (g, Ok _) \<Rightarrow> remove_refs co dc (IndirectFrom (v1_of co target)) refs g)
    | _ \<Rightarrow> Done (g, Err Pe_NotPinnedOrIndirectly))"
    using assms(1) by (simp add: remove_recursive_pin_def Some doc k)
  show ?thesis unfolding unfold using assms(2) dir go
    by (cases k) (auto split: result.splits pin_kind.splits)
qed


lemma run_pin_op_inv:
  assumes "codec_ok dc" "pins_inv dc g"
  shows "\<exists>g' r. run_pin_op co dc p g = Done (g', r) \<and> pins_inv dc g'"
proof (cases p)
  case (RemoveDirect target)
  then show ?thesis using remove_pin_inv [OF assms] by (auto simp: remove_direct_pin_def split: prod.split)
qed (use insert_direct_inv [OF assms] insert_recursive_inv [OF assms] remove_recursive_inv [OF assms] in auto)


section \<open>Pinning and unpinning\<close>

text \<open>A reference that is not yet pinned through the root: pinning it and unpinning it again restores the entry.\<close>

lemma as_btree_set_single: "as_btree_set [x] = [x]"
  by (simp add: as_btree_set_def)

lemma pin_unpin_reference:
  assumes "codec_ok dc" "pins_inv dc g"
    and "\<forall>d. g (co_to_bytes co r) = Some (encode dc d) \<longrightarrow> co_to_string co (v1_of co root) \<notin> set (pd_indirect_by d)"
  obtains d where "insert_pin co dc r (IndirectFrom root) g = Done (g(co_to_bytes co r \<mapsto> d), Ok True)"
    "pins_inv dc (g(co_to_bytes co r \<mapsto> d))"
    "\<forall>h. h (co_to_bytes co r) = Some d \<longrightarrow>
       remove_pin co dc r (IndirectFrom root) h = (h(co_to_bytes co r := g (co_to_bytes co r)), Ok True)"
proof (cases "g (co_to_bytes co r)")
  case None
  let ?d = "(new_document co r)\<lparr>pd_indirect_by := [co_to_string co (v1_of co root)]\<rparr>"
  have "pins_inv dc (g(co_to_bytes co r \<mapsto> encode dc ?d))"
    by (rule pins_inv_upd [OF assms(2)]) (simp_all add: doc_inv_def can_remove_def new_document_def)
  with None that [of "encode dc ?d"] assms(1) show thesis
    by (simp add: insert_pin_def doc_update_def new_document_def remove_pin_def can_remove_def as_btree_set_def Let_def)
next
  case (Some raw)
  then obtain doc where doc: "raw = encode dc doc" "doc_inv doc" "\<not> can_remove doc" using assms(2) by (auto simp: pins_inv_def)
  let ?R = "co_to_string co (v1_of co root)" and ?old = "pd_indirect_by doc"
  let ?d = "doc\<lparr>pd_indirect_by := as_btree_set (?R # ?old)\<rparr>"
  have R: "?R \<notin> set ?old" using assms(3) Some doc(1) by simp
  have old: "as_btree_set ?old = ?old" using doc(2) by (simp add: as_btree_set_id doc_inv_def)
  have "filter (\<lambda>x. x \<noteq> ?R) (as_btree_set (?R # ?old)) = ?old"
  proof (rule sorted_distinct_set_unique)
    show "sorted (filter (\<lambda>x. x \<noteq> ?R) (as_btree_set (?R # ?old)))" by (simp add: sorted_wrt_filter)
    show "set (filter (\<lambda>x. x \<noteq> ?R) (as_btree_set (?R # ?old))) = set ?old" using R by auto
  qed (use doc(2) in \<open>auto simp: doc_inv_def\<close>)
  with old have restored: "as_btree_set (filter (\<lambda>x. x \<noteq> ?R) (as_btree_set (?R # ?old))) = ?old" by simp
  have up: "doc_update co True (IndirectFrom root) doc = (?d, Ok True)"
    using R by (cases "?old = []") (simp_all add: doc_update_def Let_def as_btree_set_single)
  have down: "doc_update co False (IndirectFrom root) ?d = (doc, Ok True)"
    using restored by (simp add: doc_update_def Let_def)
  have "pins_inv dc (g(co_to_bytes co r \<mapsto> encode dc ?d))"
    using doc_update_inv [OF doc(2) up] doc_update_add [OF up] by (intro pins_inv_upd [OF assms(2)]) simp_all
  with that [of "encode dc ?d"] assms(1) Some doc(1,3) show thesis
    by (simp add: insert_pin_def remove_pin_def up down)
qed

lemma pin_unpin_references:
  fixes co :: "('cid, 'h, 'ce) cid_ops"
  assumes "codec_ok dc" "pins_inv dc g" "distinct (map (co_to_bytes co) rs)"
    and "\<forall>r\<in>set rs. \<forall>d. g (co_to_bytes co r) = Some (encode dc d) \<longrightarrow> co_to_string co (v1_of co root) \<notin> set (pd_indirect_by d)"
  shows "\<exists>g'. insert_refs co dc (IndirectFrom root) (map Ok rs :: ('cid, 're) result list) n g = Done (g', Ok (n + length rs)) \<and> pins_inv dc g' \<and>
    (\<forall>k. k \<notin> co_to_bytes co ` set rs \<longrightarrow> g' k = g k) \<and> (\<forall>k\<in>co_to_bytes co ` set rs. g' k \<noteq> None) \<and>
    (\<forall>h. (\<forall>k\<in>co_to_bytes co ` set rs. h k = g' k) \<longrightarrow>
      remove_refs co dc (IndirectFrom root) (map Ok rs :: ('cid, 're) result list) h = (\<lambda>k. if k \<in> co_to_bytes co ` set rs then g k else h k, Ok ()))"
  using assms(2-4)
proof (induction rs arbitrary: g n)
  case Nil
  then show ?case by simp
next
  case (Cons r rs)
  let ?k = "co_to_bytes co r" and ?ks = "co_to_bytes co ` set rs"
  have k: "?k \<notin> ?ks" "distinct (map (co_to_bytes co) rs)" using Cons.prems(2) by auto
  obtain d where d: "insert_pin co dc r (IndirectFrom root) g = Done (g(?k \<mapsto> d), Ok True :: (bool, ('cid, 'ce, 're) pin_error) result)"
    "pins_inv dc (g(?k \<mapsto> d))"
    "\<forall>h. h ?k = Some d \<longrightarrow> remove_pin co dc r (IndirectFrom root) h =
      (h(?k := g ?k), Ok True :: (bool, ('cid, 'ce, 're) pin_error) result)"
    by (rule pin_unpin_reference [OF assms(1) Cons.prems(1)]) (use Cons.prems(3) in auto)
  have "\<forall>x\<in>set rs. \<forall>e. (g(?k \<mapsto> d)) (co_to_bytes co x) = Some (encode dc e) \<longrightarrow>
      co_to_string co (v1_of co root) \<notin> set (pd_indirect_by e)"
    using Cons.prems(3) k(1) by (metis fun_upd_apply image_eqI list.set_intros(2))
  from Cons.IH [OF d(2) k(2) this, of "Suc n"]
  obtain g' where g': "insert_refs co dc (IndirectFrom root) (map Ok rs :: ('cid, 're) result list) (Suc n) (g(?k \<mapsto> d)) = Done (g', Ok (Suc n + length rs))"
    "pins_inv dc g'" "\<forall>x. x \<notin> ?ks \<longrightarrow> g' x = (g(?k \<mapsto> d)) x" "\<forall>x\<in>?ks. g' x \<noteq> None"
    "\<forall>h. (\<forall>x\<in>?ks. h x = g' x) \<longrightarrow>
      remove_refs co dc (IndirectFrom root) (map Ok rs :: ('cid, 're) result list) h = (\<lambda>x. if x \<in> ?ks then (g(?k \<mapsto> d)) x else h x, Ok ())"
    by blast
  have "remove_refs co dc (IndirectFrom root) (map Ok (r # rs) :: ('cid, 're) result list) h =
      (\<lambda>x. if x \<in> co_to_bytes co ` set (r # rs) then g x else h x, Ok ())"
    if h: "\<forall>x\<in>co_to_bytes co ` set (r # rs). h x = g' x" for h
  proof -
    have "h ?k = Some d" using h g'(3) k(1) by simp
    moreover have "\<forall>x\<in>?ks. (h(?k := g ?k)) x = g' x" using h k(1) by (metis fun_upd_other image_insert insertCI list.simps(15))
    ultimately have "remove_refs co dc (IndirectFrom root) (map Ok (r # rs) :: ('cid, 're) result list) h =
        (\<lambda>x. if x \<in> ?ks then (g(?k \<mapsto> d)) x else (h(?k := g ?k)) x, Ok ())"
      using d(3) g'(5) unfolding list.map(2) remove_refs.simps by simp
    also have "(\<lambda>x. if x \<in> ?ks then (g(?k \<mapsto> d)) x else (h(?k := g ?k)) x) =
        (\<lambda>x. if x \<in> co_to_bytes co ` set (r # rs) then g x else h x)"
      by (rule ext) (use k(1) in simp)
    finally show ?thesis .
  qed
  moreover have "insert_refs co dc (IndirectFrom root) (map Ok (r # rs) :: ('cid, 're) result list) n g = Done (g', Ok (n + length (r # rs)))"
    using d(1) g'(1) by simp
  moreover have "\<forall>x. x \<notin> co_to_bytes co ` set (r # rs) \<longrightarrow> g' x = g x" "\<forall>x\<in>co_to_bytes co ` set (r # rs). g' x \<noteq> None"
    using g'(3,4) k(1) by (simp_all add: image_iff)
  ultimately show ?case using g'(2) by blast
qed

lemma unpinned_target:
  assumes "pins_inv dc g" "\<forall>d. g (co_to_bytes co target) = Some (encode dc d) \<longrightarrow> \<not> pd_direct d \<and> pd_recursive d = Not"
  obtains doc where "doc_inv doc" "\<not> pd_direct doc" "pd_recursive doc = Not" "g (co_to_bytes co target) = None \<longleftrightarrow> can_remove doc"
    "g (co_to_bytes co target) = None \<and> doc = new_document co target \<or> g (co_to_bytes co target) = Some (encode dc doc)"
proof (cases "g (co_to_bytes co target)")
  case None
  then show thesis by (intro that [of "new_document co target"]) (simp_all add: new_document_def doc_inv_def can_remove_def)
next
  case (Some raw)
  then obtain d where "raw = encode dc d" "doc_inv d" "\<not> can_remove d" using assms(1) by (auto simp: pins_inv_def)
  with Some assms(2) show thesis by (intro that [of d]) simp_all
qed

text \<open>
  Unpinning undoes pinning.  For a target that is not pinned itself and references that are not yet pinned through it, with no
  CID occurring twice, \<open>insert_recursive_pin\<close> succeeds and pins the target and all references, and
  \<open>remove_recursive_pin\<close> with the same references then restores the store exactly, including the pins that others hold on
  the references.
\<close>

lemma recursive_pin_restored:
  fixes co :: "('cid, 'h, 'ce) cid_ops"
  assumes "codec_ok dc" "pins_inv dc g" "distinct (map (co_to_bytes co) (target # rs))"
    and "\<forall>d. g (co_to_bytes co target) = Some (encode dc d) \<longrightarrow> \<not> pd_direct d \<and> pd_recursive d = Not"
    and "\<forall>r\<in>set rs. \<forall>d. g (co_to_bytes co r) = Some (encode dc d) \<longrightarrow>
      co_to_string co (v1_of co (v1_of co target)) \<notin> set (pd_indirect_by d)"
  shows "\<exists>g'. insert_recursive_pin co dc target (map Ok rs :: ('cid, 're) result list) g = Done (g', Ok ()) \<and>
    (\<forall>c\<in>set (target # rs). is_pinned co c g') \<and>
    (\<exists>d. g' (co_to_bytes co target) = Some (encode dc d) \<and> is_set (pd_recursive d)) \<and>
    remove_recursive_pin co dc target (map Ok rs :: ('cid, 're) result list) g' = Done (g, Ok ())"
proof -
  let ?t = "co_to_bytes co target" and ?ks = "co_to_bytes co ` set rs" and ?kind = "IndirectFrom (v1_of co target)"
  let ?rs = "map Ok rs :: ('cid, 're) result list"
  obtain doc where doc: "doc_inv doc" "\<not> pd_direct doc" "pd_recursive doc = Not" "g ?t = None \<longleftrightarrow> can_remove doc"
    "g ?t = None \<and> doc = new_document co target \<or> g ?t = Some (encode dc doc)"
    by (rule unpinned_target [OF assms(2,4)])
  let ?i = "doc\<lparr>pd_recursive := Intent\<rparr>" and ?c = "doc\<lparr>pd_recursive := Count (of_nat (length rs))\<rparr>"
  let ?g1 = "g(?t \<mapsto> encode dc ?i)"
  have nd: "doc\<lparr>pd_recursive := r, pd_direct := False\<rparr> = doc\<lparr>pd_recursive := r\<rparr>" for r using doc(2) by (cases doc) simp
  have "doc_update co True RecursiveIntention doc = (?i, Ok True)" by (simp add: doc_update_def doc(3) nd)
  with doc(5) assms(1) have 1: "insert_pin co dc target RecursiveIntention g =
      Done (?g1, Ok True :: (bool, ('cid, 'ce, 're) pin_error) result)"
    by (auto simp: insert_pin_def)
  have "doc_inv ?i" "\<not> can_remove ?i" using doc(1,2) by (simp_all add: doc_inv_def can_remove_def)
  then have inv1: "pins_inv dc ?g1" by (rule pins_inv_upd [OF assms(2)])
  have t: "?t \<notin> ?ks" "distinct (map (co_to_bytes co) rs)" using assms(3) by auto
  have "\<forall>r\<in>set rs. \<forall>d. ?g1 (co_to_bytes co r) = Some (encode dc d) \<longrightarrow>
      co_to_string co (v1_of co (v1_of co target)) \<notin> set (pd_indirect_by d)"
    using assms(5) t(1) by (metis fun_upd_other image_eqI)
  from pin_unpin_references [OF assms(1) inv1 t(2) this, of 0]
  obtain g2 where g2: "insert_refs co dc ?kind ?rs 0 ?g1 = Done (g2, Ok (length rs))"
    "\<forall>k. k \<notin> ?ks \<longrightarrow> g2 k = ?g1 k" "\<forall>k\<in>?ks. g2 k \<noteq> None"
    "\<forall>h. (\<forall>k\<in>?ks. h k = g2 k) \<longrightarrow> remove_refs co dc ?kind ?rs h = (\<lambda>k. if k \<in> ?ks then ?g1 k else h k, Ok ())"
    unfolding add_0 by blast
  let ?g3 = "g2(?t \<mapsto> encode dc ?c)"
  have g2t: "g2 ?t = Some (encode dc ?i)" using g2(2) t(1) by simp
  have 3: "insert_pin co dc target (RecursivePin (of_nat (length rs))) g2 = Done (?g3, Ok True :: (bool, ('cid, 'ce, 're) pin_error) result)"
    using assms(1) by (simp add: insert_pin_def g2t doc_update_def nd)
  have ins: "insert_recursive_pin co dc target ?rs g = Done (?g3, Ok ())"
    by (simp add: insert_recursive_pin_def 1 g2(1) 3)
  have pinned: "\<forall>c\<in>set (target # rs). is_pinned co c ?g3" using g2(3) by (auto simp: is_pinned_def)
  have "remove_pin co dc target (RecursivePin (of_nat (length rs))) ?g3 = (g2(?t := g ?t), Ok True :: (bool, ('cid, 'ce, 're) pin_error) result)"
  proof -
    have "doc\<lparr>pd_recursive := Not\<rparr> = doc" using doc(3) by (cases doc) simp
    then have "doc_update co False (RecursivePin (of_nat (length rs))) ?c = (doc, Ok True)" by (simp add: doc_update_def)
    with doc(4,5) assms(1) show ?thesis by (auto simp: remove_pin_def)
  qed
  moreover have "pick_kind co ?c = Done (Some (Ok (RecursivePin (of_nat (length rs)))))"
    by (simp add: pick_kind_def doc_mode_def)
  moreover have "\<forall>k\<in>?ks. (g2(?t := g ?t)) k = g2 k" using t(1) by (metis fun_upd_other)
  with g2(4) have "remove_refs co dc ?kind ?rs (g2(?t := g ?t)) = (\<lambda>k. if k \<in> ?ks then ?g1 k else (g2(?t := g ?t)) k, Ok ())"
    by blast
  moreover have "(\<lambda>k. if k \<in> ?ks then ?g1 k else (g2(?t := g ?t)) k) = g"
    by (rule ext) (use t(1) g2(2) in auto)
  ultimately have "remove_recursive_pin co dc target ?rs ?g3 = Done (g, Ok ())"
    using assms(1) by (simp add: remove_recursive_pin_def)
  moreover have "?g3 ?t = Some (encode dc ?c) \<and> is_set (pd_recursive ?c)" by simp
  ultimately show ?thesis using ins pinned by blast
qed


section \<open>Concrete instances\<close>

text \<open>A byte form of pin documents for the examples, and CIDs that are a version and a number.\<close>

definition enlist :: "bytes list \<Rightarrow> bytes" where
  "enlist ss = concat (map (\<lambda>s. concat (map (\<lambda>b. [1, b]) s) @ [2]) ss) @ [0]"

fun unlist :: "bytes \<Rightarrow> bytes list" where
  "unlist [] = []"
| "unlist [t] = (if t = 2 then [[]] else [])"
| "unlist (t # b # r) =
     (if t = 0 then [] else if t = 2 then [] # unlist (b # r)
      else (case unlist r of s # ss \<Rightarrow> (b # s) # ss | [] \<Rightarrow> []))"

lemma unlist_enlist: "unlist (enlist ss) = ss"
proof -
  have sep: "r \<noteq> [] \<Longrightarrow> unlist (2 # r) = [] # unlist r" for r by (cases r) simp_all
  have str: "r \<noteq> [] \<Longrightarrow> unlist (concat (map (\<lambda>b. [1, b]) s) @ 2 # r) = s # unlist r" for s r
    by (induction s) (simp_all add: sep)
  show ?thesis by (induction ss) (simp_all add: enlist_def str)
qed

definition sample_doc_codec :: "pin_document codec" where
  "sample_doc_codec = \<lparr>
     encode = (\<lambda>d. [pd_version d, if pd_direct d then 1 else 0, pd_cid_version d,
       case pd_recursive d of Count _ \<Rightarrow> 0 | Intent \<Rightarrow> 1 | Not \<Rightarrow> 2] @
       le_bytes64 (case pd_recursive d of Count n \<Rightarrow> n | _ \<Rightarrow> 0) @ enlist (pd_indirect_by d)),
     decode = (\<lambda>b. if length b < 12 then None else Some \<lparr>pd_version = b ! 0, pd_direct = (b ! 1 = 1),
       pd_recursive = (if b ! 3 = 0 then Count (the (le_word64 (take 8 (drop 4 b)))) else if b ! 3 = 1 then Intent else Not),
       pd_cid_version = b ! 2, pd_indirect_by = unlist (drop 12 b)\<rparr>)\<rparr>"

lemma sample_doc_codec_ok: "codec_ok sample_doc_codec"
proof -
  have l: "length (le_bytes64 n) = 8" for n by (simp add: le_bytes64_def le_bytes32_def)
  have "le_word64 (le_bytes64 n) = Some n" for n
    using scale_u64_ok by (simp add: codec_ok_def scale_u64_def)
  then show ?thesis
    by (simp add: codec_ok_def sample_doc_codec_def l unlist_enlist split: recursive.split)
qed

definition sample_cids :: "(version \<times> byte, byte, unit) cid_ops" where
  "sample_cids = \<lparr>co_version = fst, co_hash = snd, co_to_v1 = (\<lambda>c. (V1, snd c)),
     co_to_bytes = (\<lambda>c. [if fst c = V0 then 0 else 1, snd c]), co_to_string = (\<lambda>c. [snd c]),
     co_from_bytes = (\<lambda>b. Ok (if hd b = 0 then V0 else V1, last b)), co_from_string = (\<lambda>b. Ok (V1, hd b))\<rparr>"


end
