(* ===== verification/Unixfs_Adder.thy ===== *)
theory Unixfs_Adder
  imports Unixfs_Pb Repo_Mem
begin

text \<open>
  Building the tree of a UnixFS file, \<open>utils/rust-ipfs/unixfs/src/file/adder.rs\<close>: the chunker, the balanced
  collector that turns pending links into link blocks, and the \<open>FileAdder\<close> with \<open>push\<close> and \<open>finish\<close>.  The
  reference is a tree of chunks (\<open>file_dag\<close>) that groups the leaves, then the groups, until one node is left; the
  main result is that the adder, fed in pieces of any size, emits exactly the blocks of that tree and the root last.
  Hashing and CIDs come from other crates and are parameters.
\<close>

section \<open>Hashing\<close>

text \<open>The digest, \<open>Multihash::wrap\<close> for the SHA2-256 code, \<open>Cid::new_v0\<close> and \<open>Cid::new_v1\<close>.\<close>

record ('cid, 'h, 'ce) cid_build = "('cid, 'h, 'ce) cid_ops" +
  cb_sha256 :: "bytes \<Rightarrow> bytes"
  cb_wrap :: "bytes \<Rightarrow> 'h option"
  cb_new_v0 :: "'h \<Rightarrow> ('cid, 'ce) result"
  cb_new_v1 :: "u64 \<Rightarrow> 'h \<Rightarrow> 'cid"

definition DEFAULT_CID_VERSION :: version where
  "DEFAULT_CID_VERSION = V0"

definition create_cid :: "('cid, 'h, 'ce) cid_build \<Rightarrow> 'h \<Rightarrow> version \<Rightarrow> ('cid, 'ce) result" where
  "create_cid cb multi_hash v =
     (case v of V0 \<Rightarrow> cb_new_v0 cb multi_hash | V1 \<Rightarrow> Ok (cb_new_v1 cb 0x70 multi_hash))"

definition render_and_hash ::
  "'e pb_wire \<Rightarrow> ('cid, 'h, 'ce) cid_build \<Rightarrow> flat_unix_fs \<Rightarrow> version \<Rightarrow> ('cid \<times> bytes) exec" where
  "render_and_hash pw cb flat v =
     (let out = flat_write pw flat in
      bind_exec (expect (cb_wrap cb (cb_sha256 cb out))) (\<lambda>mh.
      bind_exec (expect_ok (create_cid cb mh v)) (\<lambda>cid. Done (cid, out))))"

section \<open>Links, the chunker and the collector\<close>

record 'cid link =
  depth :: nat
  target :: 'cid
  total_size :: u64
  file_size :: u64

datatype chunker = Size nat

definition chunker_default :: chunker where
  "chunker_default = Size (256 * 1024)"

text \<open>\<open>*max - buffered.len()\<close> is a subtraction of \<open>usize\<close>: it panics below zero when overflow is checked.\<close>

definition chunker_accept :: "bool \<Rightarrow> chunker \<Rightarrow> bytes \<Rightarrow> bytes \<Rightarrow> (bytes \<times> bool) exec" where
  "chunker_accept checks c input buffered =
     (case c of Size mx \<Rightarrow>
        if checks \<and> mx < length buffered then Panic
        else
          (let room = (if mx < length buffered then mx + 2 ^ 64 - length buffered else mx - length buffered);
               l = min (length input) room
           in Done (take l input, mx \<le> length buffered + l)))"

primrec chunker_size_hint :: "chunker \<Rightarrow> nat" where
  "chunker_size_hint (Size mx) = mx"

text \<open>The vectors \<open>reused_links\<close> and \<open>reused_blocksizes\<close> of the collector are emptied before every use; they keep
  only their allocation and are not part of the model.\<close>

record balanced_collector =
  branching_factor :: nat
  bc_cid_version :: version

definition with_branching_factor :: "nat \<Rightarrow> balanced_collector exec" where
  "with_branching_factor n =
     (if 0 < n then Done \<lparr>branching_factor = n, bc_cid_version = DEFAULT_CID_VERSION\<rparr> else Panic)"

definition balanced_collector_default :: balanced_collector where
  "balanced_collector_default = \<lparr>branching_factor = 174, bc_cid_version = DEFAULT_CID_VERSION\<rparr>"

datatype collector = Balanced balanced_collector

record 'cid file_adder =
  fa_chunker :: chunker
  fa_collector :: collector
  block_buffer :: bytes
  unflushed_links :: "'cid link list"
  fa_cid_version :: version

definition file_adder_default :: "'cid file_adder" where
  "file_adder_default = \<lparr>fa_chunker = chunker_default, fa_collector = Balanced balanced_collector_default,
     block_buffer = [], unflushed_links = [], fa_cid_version = DEFAULT_CID_VERSION\<rparr>"

text \<open>\<open>FileAdderBuilder\<close>.\<close>

record file_adder_builder =
  fb_chunker :: chunker
  fb_collector :: collector

definition adder_builder_default :: file_adder_builder where
  "adder_builder_default = \<lparr>fb_chunker = chunker_default, fb_collector = Balanced balanced_collector_default\<rparr>"

definition with_chunker :: "chunker \<Rightarrow> file_adder_builder \<Rightarrow> file_adder_builder" where
  "with_chunker c b = b\<lparr>fb_chunker := c\<rparr>"

definition with_collector :: "balanced_collector \<Rightarrow> file_adder_builder \<Rightarrow> file_adder_builder" where
  "with_collector c b = b\<lparr>fb_collector := Balanced c\<rparr>"

definition build :: "file_adder_builder \<Rightarrow> 'cid file_adder" where
  "build b = file_adder_default\<lparr>fa_chunker := fb_chunker b, fa_collector := fb_collector b\<rparr>"

section \<open>Link blocks\<close>

text \<open>The four accumulators of \<open>partition_link\<close>.\<close>

record partition =
  pt_links :: "pb_link list"
  pt_blocksizes :: "u64 list"
  nested_size :: u64
  nested_total_size :: u64

definition partition_link ::
  "bool \<Rightarrow> ('cid, 'h, 'ce, 'z) cid_ops_scheme \<Rightarrow> 'cid link \<Rightarrow> partition \<Rightarrow> partition exec" where
  "partition_link checks co l p =
     bind_exec (add_u64 checks (nested_size p) (file_size l)) (\<lambda>s.
     bind_exec (add_u64 checks (nested_total_size p) (total_size l)) (\<lambda>t.
     Done \<lparr>pt_links = pt_links p @ [\<lparr>Hash = Some (co_to_bytes co (target l)), Name = Some [], Tsize = Some (total_size l)\<rparr>],
       pt_blocksizes = pt_blocksizes p @ [file_size l], nested_size = s, nested_total_size = t\<rparr>))"

text \<open>The loop over \<open>pending[first_at..last]\<close>, with its assertion on the depth of each link.\<close>

fun partition_links ::
  "bool \<Rightarrow> ('cid, 'h, 'ce, 'z) cid_ops_scheme \<Rightarrow> nat \<Rightarrow> 'cid link list \<Rightarrow> partition \<Rightarrow> partition exec" where
  "partition_links checks co level [] p = Done p"
| "partition_links checks co level (l # ls) p =
     (if depth l \<noteq> level then Panic
      else bind_exec (partition_link checks co l p) (partition_links checks co level ls))"

definition link_block ::
  "'e pb_wire \<Rightarrow> ('cid, 'h, 'ce) cid_build \<Rightarrow> bool \<Rightarrow> version \<Rightarrow> nat \<Rightarrow> 'cid link list \<Rightarrow>
   ('cid link \<times> ('cid \<times> bytes)) exec" where
  "link_block pw cb checks v level ls =
     bind_exec (partition_links checks cb level ls
       \<lparr>pt_links = [], pt_blocksizes = [], nested_size = 0, nested_total_size = 0\<rparr>) (\<lambda>p.
     bind_exec (render_and_hash pw cb
       \<lparr>flat_links = pt_links p,
        flat_data = unix_fs_default\<lparr>Type := File, filesize := Some (nested_size p), blocksizes := pt_blocksizes p\<rparr>\<rparr> v)
       (\<lambda>(cid, vec).
     bind_exec (add_u64 checks (nested_total_size p) (of_nat (length vec))) (\<lambda>t.
     Done (\<lparr>depth = level + 1, target = cid, total_size = t, file_size = nested_size p\<rparr>, (cid, vec)))))"

text \<open>
  The inner loop of \<open>flush_links\<close>, at one level.  It either leaves the outer loop (\<open>True\<close>) with the processed links
  drained, or ends because no link of the level is left.  Whether it ends at all depends on the branching
  factor; \<open>None\<close> is a loop that never ends.
\<close>

partial_function (option) flush_level ::
  "'e pb_wire \<Rightarrow> ('cid, 'h, 'ce) cid_build \<Rightarrow> bool \<Rightarrow> balanced_collector \<Rightarrow> bool \<Rightarrow> nat \<Rightarrow> 'cid link list \<Rightarrow> nat \<Rightarrow>
   nat option \<Rightarrow> ('cid \<times> bytes) list \<Rightarrow> (bool \<times> 'cid link list \<times> nat option \<times> ('cid \<times> bytes) list) exec option" where
  "flush_level pw cb checks bc finishing level pending starting_point last_overwrite ret =
     (if length pending < starting_point then Some Panic
      else case position (\<lambda>l. depth l = level) (drop starting_point pending) of
          None \<Rightarrow> Some (Done (False, pending, last_overwrite, ret))
        | Some i \<Rightarrow>
            (let first_at = i + starting_point in
             if \<not> finishing \<and> length (drop first_at pending) \<le> branching_factor bc then
               (case last_overwrite of
                  None \<Rightarrow> Some (Done (True, pending, last_overwrite, ret))
                | Some lo \<Rightarrow>
                    if first_at < lo + 1 then Some Panic
                    else Some (Done (True, take (lo + 1) pending @ drop first_at pending, last_overwrite, ret)))
             else
               (let last = min (first_at + branching_factor bc) (length pending) in
                case link_block pw cb checks (bc_cid_version bc) level (take (last - first_at) (drop first_at pending)) of
                  Panic \<Rightarrow> Some Panic
                | Done (link, block) \<Rightarrow>
                    (let index = (case last_overwrite of Some i \<Rightarrow> i + 1 | None \<Rightarrow> first_at) in
                     if length pending \<le> index then Some Panic
                     else flush_level pw cb checks bc finishing level (pending[index := link]) last (Some index)
                       (ret @ [block])))))"

text \<open>The outer loop over the levels; the final assertion is a \<open>debug_assert\<close>.\<close>

partial_function (option) flush_levels ::
  "'e pb_wire \<Rightarrow> ('cid, 'h, 'ce) cid_build \<Rightarrow> bool \<Rightarrow> balanced_collector \<Rightarrow> bool \<Rightarrow> nat \<Rightarrow> 'cid link list \<Rightarrow>
   ('cid \<times> bytes) list \<Rightarrow> ('cid link list \<times> ('cid \<times> bytes) list) exec option" where
  "flush_levels pw cb checks bc finishing level pending ret =
     (if length pending = 1 \<and> finishing \<or> length pending \<le> branching_factor bc \<and> \<not> finishing
      then Some (Done (pending, ret))
      else Option.bind (flush_level pw cb checks bc finishing level pending 0 None ret) (\<lambda>r.
        case r of
          Panic \<Rightarrow> Some Panic
        | Done (break_outer, pending, last_overwrite, ret) \<Rightarrow>
            if break_outer then Some (Done (pending, ret))
            else
              (let pending = (case last_overwrite of Some lo \<Rightarrow> take (lo + 1) pending | None \<Rightarrow> pending) in
               if checks \<and> position (\<lambda>l. depth l = level) pending \<noteq> None then Some Panic
               else flush_levels pw cb checks bc finishing (level + 1) pending ret)))"

definition flush_links ::
  "'e pb_wire \<Rightarrow> ('cid, 'h, 'ce) cid_build \<Rightarrow> bool \<Rightarrow> collector \<Rightarrow> 'cid link list \<Rightarrow> bool \<Rightarrow>
   ('cid link list \<times> ('cid \<times> bytes) list) exec option" where
  "flush_links pw cb checks c pending finishing =
     (case c of Balanced bc \<Rightarrow> flush_levels pw cb checks bc finishing 0 pending [])"

section \<open>The adder\<close>

definition flush_buffered_leaf ::
  "'e pb_wire \<Rightarrow> ('cid, 'h, 'ce) cid_build \<Rightarrow> bytes \<Rightarrow> 'cid link list \<Rightarrow> bool \<Rightarrow> version \<Rightarrow>
   ('cid link list \<times> ('cid \<times> bytes) option) exec" where
  "flush_buffered_leaf pw cb input links finishing v =
     (if input = [] \<and> (\<not> finishing \<or> links \<noteq> []) then Done (links, None)
      else
        bind_exec (render_and_hash pw cb
          \<lparr>flat_links = [],
           flat_data = unix_fs_default\<lparr>Type := File, Data := (if input \<noteq> [] then Some input else None),
             filesize := Some (of_nat (length input))\<rparr>\<rparr> v)
          (\<lambda>(cid, vec).
        Done (links @ [\<lparr>depth = 0, target = cid, total_size = of_nat (length vec), file_size = of_nat (length input)\<rparr>],
          Some (cid, vec))))"

definition flush_buffered_links ::
  "'e pb_wire \<Rightarrow> ('cid, 'h, 'ce) cid_build \<Rightarrow> bool \<Rightarrow> bool \<Rightarrow> 'cid file_adder \<Rightarrow>
   ('cid file_adder \<times> ('cid \<times> bytes) list) exec option" where
  "flush_buffered_links pw cb checks finishing fa =
     map_option (\<lambda>r. bind_exec r (\<lambda>(links, blocks). Done (fa\<lparr>unflushed_links := links\<rparr>, blocks)))
       (flush_links pw cb checks (fa_collector fa) (unflushed_links fa) finishing)"

text \<open>A completed chunk: the leaf (its absence fails an assertion), the emptied buffer, then the link blocks.\<close>

definition push_leaf ::
  "'e pb_wire \<Rightarrow> ('cid, 'h, 'ce) cid_build \<Rightarrow> bool \<Rightarrow> bytes \<Rightarrow> 'cid file_adder \<Rightarrow>
   ('cid file_adder \<times> ('cid \<times> bytes) list) exec option" where
  "push_leaf pw cb checks chunk fa =
     (case flush_buffered_leaf pw cb chunk (unflushed_links fa) False (fa_cid_version fa) of
        Panic \<Rightarrow> Some Panic
      | Done (links, None) \<Rightarrow> Some Panic
      | Done (links, Some leaf) \<Rightarrow>
          map_option (\<lambda>r. bind_exec r (\<lambda>(fa, blocks). Done (fa, leaf # blocks)))
            (flush_buffered_links pw cb checks False (fa\<lparr>unflushed_links := links, block_buffer := []\<rparr>)))"

definition push ::
  "'e pb_wire \<Rightarrow> ('cid, 'h, 'ce) cid_build \<Rightarrow> bool \<Rightarrow> bytes \<Rightarrow> 'cid file_adder \<Rightarrow>
   ('cid file_adder \<times> ('cid \<times> bytes) list \<times> nat) exec option" where
  "push pw cb checks input fa =
     (case chunker_accept checks (fa_chunker fa) input (block_buffer fa) of
        Panic \<Rightarrow> Some Panic
      | Done (accepted, ready) \<Rightarrow>
          let finished = map_option (\<lambda>r. bind_exec r (\<lambda>(fa, blocks). Done (fa, blocks, length accepted))) in
          if block_buffer fa = [] \<and> ready then finished (push_leaf pw cb checks accepted fa)
          else
            (let fa = fa\<lparr>block_buffer := block_buffer fa @ accepted\<rparr> in
             if \<not> ready then Some (Done (fa, [], length accepted))
             else finished (push_leaf pw cb checks (block_buffer fa) fa)))"

definition finish ::
  "'e pb_wire \<Rightarrow> ('cid, 'h, 'ce) cid_build \<Rightarrow> bool \<Rightarrow> 'cid file_adder \<Rightarrow> ('cid \<times> bytes) list exec option" where
  "finish pw cb checks fa =
     (case flush_buffered_leaf pw cb (block_buffer fa) (unflushed_links fa) True (fa_cid_version fa) of
        Panic \<Rightarrow> Some Panic
      | Done (links, last_leaf) \<Rightarrow>
          map_option (\<lambda>r. bind_exec r (\<lambda>(fa, root_links).
              Done ((case last_leaf of None \<Rightarrow> [] | Some b \<Rightarrow> [b]) @ root_links)))
            (flush_buffered_links pw cb checks True (fa\<lparr>unflushed_links := links\<rparr>)))"

text \<open>\<open>collect_blocks\<close>: push a whole file in slices of \<open>amt\<close> bytes (all at once when \<open>amt\<close> is zero) and finish.\<close>

partial_function (option) collect_loop ::
  "'e pb_wire \<Rightarrow> ('cid, 'h, 'ce) cid_build \<Rightarrow> bool \<Rightarrow> bytes \<Rightarrow> nat \<Rightarrow> 'cid file_adder \<Rightarrow> nat \<Rightarrow> ('cid \<times> bytes) list \<Rightarrow>
   ('cid \<times> bytes) list exec option" where
  "collect_loop pw cb checks all_content amt fa written blocks_received =
     (if written < length all_content then
        (let slice = take (min (length all_content - written) amt) (drop written all_content) in
         Option.bind (push pw cb checks slice fa) (\<lambda>r.
         case r of
           Panic \<Rightarrow> Some Panic
         | Done (fa, blocks, pushed) \<Rightarrow>
             collect_loop pw cb checks all_content amt fa (written + pushed) (blocks_received @ blocks)))
      else map_option (\<lambda>r. bind_exec r (\<lambda>last_blocks. Done (blocks_received @ last_blocks))) (finish pw cb checks fa))"

definition collect_blocks ::
  "'e pb_wire \<Rightarrow> ('cid, 'h, 'ce) cid_build \<Rightarrow> bool \<Rightarrow> 'cid file_adder \<Rightarrow> bytes \<Rightarrow> nat \<Rightarrow> ('cid \<times> bytes) list exec option" where
  "collect_blocks pw cb checks fa all_content amt =
     collect_loop pw cb checks all_content (if amt = 0 then length all_content else amt) fa 0 []"

section \<open>The reference: a balanced tree of chunks\<close>

text \<open>\<open>[T]::chunks\<close>: consecutive pieces of length \<open>n\<close>, the last one possibly shorter.\<close>

function chunks_of :: "nat \<Rightarrow> 'a list \<Rightarrow> 'a list list" where
  "chunks_of n xs = (if n = 0 \<or> xs = [] then [] else take n xs # chunks_of n (drop n xs))"
  by pat_completeness auto
termination
  by (relation "measure (\<lambda>(n, xs). length xs)") auto

declare chunks_of.simps [simp del]

datatype dag = Leaf bytes | Node "dag list"

lemma chunks_of_Nil [simp]: "chunks_of n [] = []"
  by (simp add: chunks_of.simps)

lemma chunks_of_Cons: "0 < n \<Longrightarrow> xs \<noteq> [] \<Longrightarrow> chunks_of n xs = take n xs # chunks_of n (drop n xs)"
  by (subst chunks_of.simps) simp

lemma chunks_of_short: "0 < n \<Longrightarrow> xs \<noteq> [] \<Longrightarrow> length xs \<le> n \<Longrightarrow> chunks_of n xs = [xs]"
  by (simp add: chunks_of_Cons)

lemma chunks_of_append:
  "0 < n \<Longrightarrow> (\<forall>g \<in> set full. length g = n) \<Longrightarrow> chunks_of n (concat full @ rest) = full @ chunks_of n rest"
proof (induction full)
  case (Cons g full)
  then have "g @ concat full @ rest \<noteq> []" by auto
  with Cons show ?case by (simp add: chunks_of_Cons [of n "g @ concat full @ rest"])
qed simp

lemma concat_chunks_of: "0 < n \<Longrightarrow> concat (chunks_of n xs) = xs"
proof (induction n xs rule: chunks_of.induct)
  case (1 n xs)
  then show ?case by (cases "xs = []") (simp_all add: chunks_of_Cons)
qed

lemma chunks_of_not_Nil: "0 < n \<Longrightarrow> xs \<noteq> [] \<Longrightarrow> chunks_of n xs \<noteq> []"
  by (simp add: chunks_of_Cons)

lemma Nil_notin_chunks_of: "[] \<notin> set (chunks_of n xs)"
proof (induction n xs rule: chunks_of.induct)
  case (1 n xs)
  then show ?case by (subst chunks_of.simps) auto
qed

lemma length_chunks_of_le: "length (chunks_of n xs) \<le> length xs"
proof (induction n xs rule: chunks_of.induct)
  case (1 n xs)
  show ?case
  proof (cases "n = 0 \<or> xs = []")
    case True
    then show ?thesis by (subst chunks_of.simps) auto
  next
    case False
    then have "length (chunks_of n (drop n xs)) \<le> length xs - n" using 1 by simp
    with False show ?thesis by (cases xs) (simp_all add: chunks_of_Cons)
  qed
qed

lemma length_chunks_of_less:
  assumes "2 \<le> n" "2 \<le> length xs"
  shows "length (chunks_of n xs) < length xs"
proof -
  have "length (chunks_of n (drop n xs)) \<le> length xs - n"
    using length_chunks_of_le [of n "drop n xs"] by simp
  moreover have "xs \<noteq> []" using assms by auto
  ultimately show ?thesis using assms by (simp add: chunks_of_Cons)
qed

function balanced :: "nat \<Rightarrow> dag list \<Rightarrow> dag list" where
  "balanced n ts = (if n < 2 \<or> length ts \<le> 1 then ts else balanced n (map Node (chunks_of n ts)))"
  by pat_completeness auto
termination
  by (relation "measure (\<lambda>(n, ts). length ts)") (auto simp: length_chunks_of_less)

declare balanced.simps [simp del]

definition file_leaves :: "nat \<Rightarrow> bytes \<Rightarrow> dag list" where
  "file_leaves mx content = (if content = [] then [Leaf []] else map Leaf (chunks_of mx content))"

definition file_dag :: "nat \<Rightarrow> nat \<Rightarrow> bytes \<Rightarrow> dag" where
  "file_dag n mx content = hd (balanced n (file_leaves mx content))"

primrec dag_bytes :: "dag \<Rightarrow> bytes" where
  "dag_bytes (Leaf b) = b"
| "dag_bytes (Node ts) = concat (map dag_bytes ts)"

lemma balanced_short: "length ts \<le> 1 \<Longrightarrow> balanced n ts = ts"
  by (subst balanced.simps) simp

lemma balanced_step: "2 \<le> n \<Longrightarrow> 2 \<le> length ts \<Longrightarrow> balanced n ts = balanced n (map Node (chunks_of n ts))"
  by (subst balanced.simps) simp

lemma length_balanced: "2 \<le> n \<Longrightarrow> ts \<noteq> [] \<Longrightarrow> length (balanced n ts) = 1"
proof (induction n ts rule: balanced.induct)
  case (1 n ts)
  show ?case
  proof (cases "length ts \<le> 1")
    case True
    with 1 show ?thesis by (cases ts) (simp_all add: balanced_short)
  next
    case False
    then have "length (balanced n (map Node (chunks_of n ts))) = 1"
      using 1 chunks_of_not_Nil [of n ts] by simp
    with False 1 show ?thesis by (simp add: balanced_step)
  qed
qed

lemma dag_bytes_balanced:
  "2 \<le> n \<Longrightarrow> concat (map dag_bytes (balanced n ts)) = concat (map dag_bytes ts)"
proof (induction n ts rule: balanced.induct)
  case (1 n ts)
  have "concat (map dag_bytes (map Node gs)) = concat (map dag_bytes (concat gs))" for gs
    by (induction gs) simp_all
  then have "concat (map dag_bytes (map Node (chunks_of n ts))) = concat (map dag_bytes ts)"
    using 1 concat_chunks_of [of n ts] by simp
  with 1 show ?case by (cases "length ts \<le> 1") (simp_all add: balanced_short balanced_step)
qed

lemma file_leaves_not_Nil: "0 < mx \<Longrightarrow> file_leaves mx content \<noteq> []"
  by (simp add: file_leaves_def chunks_of_not_Nil)

lemma balanced_file_leaves:
  assumes "2 \<le> n" "0 < mx"
  shows "balanced n (file_leaves mx content) = [file_dag n mx content]"
  using length_balanced [OF assms(1) file_leaves_not_Nil [OF assms(2)], of content]
  by (cases "balanced n (file_leaves mx content)") (simp_all add: file_dag_def)

text \<open>The tree holds the content.\<close>

lemma dag_bytes_file_dag:
  assumes "2 \<le> n" "0 < mx"
  shows "dag_bytes (file_dag n mx content) = content"
proof -
  have "concat (map dag_bytes (file_leaves mx content)) = content"
    using assms by (simp add: file_leaves_def comp_def concat_chunks_of)
  then show ?thesis
    using dag_bytes_balanced [OF assms(1), of "file_leaves mx content"] by (simp add: balanced_file_leaves assms)
qed

section \<open>The blocks of a tree\<close>

text \<open>What a tree is hashed with: the encoding, the bytes of a CID, the CID of a block, and the CID versions of the leaves
  and of the link blocks.\<close>

record ('e, 'cid) dag_format =
  df_wire :: "'e pb_wire"
  df_bytes :: "'cid \<Rightarrow> bytes"
  df_cid :: "version \<Rightarrow> bytes \<Rightarrow> 'cid"
  df_leaf :: version
  df_node :: version

record 'cid dag_summary =
  de_cid :: 'cid
  de_block :: bytes
  de_total :: nat
  de_size :: nat

definition leaf_flat :: "bytes \<Rightarrow> flat_unix_fs" where
  "leaf_flat b = \<lparr>flat_links = [],
     flat_data = unix_fs_default\<lparr>Type := File, Data := (if b \<noteq> [] then Some b else None),
       filesize := Some (of_nat (length b))\<rparr>\<rparr>"

definition node_flat :: "('e, 'cid) dag_format \<Rightarrow> 'cid dag_summary list \<Rightarrow> flat_unix_fs" where
  "node_flat D es = \<lparr>flat_links =
       map (\<lambda>e. \<lparr>Hash = Some (df_bytes D (de_cid e)), Name = Some [], Tsize = Some (of_nat (de_total e))\<rparr>) es,
     flat_data = unix_fs_default\<lparr>Type := File, filesize := Some (of_nat (sum_list (map de_size es))),
       blocksizes := map (\<lambda>e. of_nat (de_size e)) es\<rparr>\<rparr>"

primrec dag_entry :: "('e, 'cid) dag_format \<Rightarrow> dag \<Rightarrow> 'cid dag_summary" where
  "dag_entry D (Leaf b) =
     (let block = flat_write (df_wire D) (leaf_flat b)
      in \<lparr>de_cid = df_cid D (df_leaf D) block, de_block = block, de_total = length block, de_size = length b\<rparr>)"
| "dag_entry D (Node ts) =
     (let es = map (dag_entry D) ts; block = flat_write (df_wire D) (node_flat D es)
      in \<lparr>de_cid = df_cid D (df_node D) block, de_block = block, de_total = sum_list (map de_total es) + length block,
          de_size = sum_list (map de_size es)\<rparr>)"

definition block_of :: "('e, 'cid) dag_format \<Rightarrow> dag \<Rightarrow> 'cid \<times> bytes" where
  "block_of D t = (de_cid (dag_entry D t), de_block (dag_entry D t))"

primrec dag_blocks :: "('e, 'cid) dag_format \<Rightarrow> dag \<Rightarrow> ('cid \<times> bytes) list" where
  "dag_blocks D (Leaf b) = [block_of D (Leaf b)]"
| "dag_blocks D (Node ts) = concat (map (dag_blocks D) ts) @ [block_of D (Node ts)]"

definition link_of :: "('e, 'cid) dag_format \<Rightarrow> nat \<Rightarrow> dag \<Rightarrow> 'cid link" where
  "link_of D d t = \<lparr>depth = d, target = de_cid (dag_entry D t), total_size = of_nat (de_total (dag_entry D t)),
     file_size = of_nat (de_size (dag_entry D t))\<rparr>"

text \<open>The format describes the hashing the adder does.\<close>

definition dag_hashing :: "('cid, 'h, 'ce) cid_build \<Rightarrow> ('e, 'cid) dag_format \<Rightarrow> bool" where
  "dag_hashing cb D \<longleftrightarrow> df_bytes D = co_to_bytes cb \<and>
     (\<forall>v b. bind_exec (expect (cb_wrap cb (cb_sha256 cb b))) (\<lambda>mh. expect_ok (create_cid cb mh v)) = Done (df_cid D v b))"

lemma depth_link_of [simp]: "depth (link_of D d t) = d"
  by (simp add: link_of_def)

lemma de_total_dag_blocks: "de_total (dag_entry D t) = sum_list (map (\<lambda>b. length (snd b)) (dag_blocks D t))"
proof (induction t)
  case (Node ts)
  then have "sum_list (map (\<lambda>t. de_total (dag_entry D t)) ts) =
      sum_list (map (\<lambda>b. length (snd b)) (concat (map (dag_blocks D) ts)))"
    by (induction ts) simp_all
  then show ?case by (simp add: Let_def block_of_def comp_def)
qed (simp add: Let_def block_of_def)

lemma de_size_dag_bytes: "de_size (dag_entry D t) = length (dag_bytes t)"
proof (induction t)
  case (Node ts)
  then have "sum_list (map (\<lambda>t. de_size (dag_entry D t)) ts) = sum_list (map (\<lambda>t. length (dag_bytes t)) ts)"
    by (intro arg_cong [where f = sum_list] map_cong) simp_all
  then show ?case by (simp add: Let_def length_concat comp_def)
qed (simp add: Let_def)

lemma length_leaf_block:
  assumes "pb_wire_ok (df_wire D)"
  shows "length b \<le> length (flat_write (df_wire D) (leaf_flat b))"
  using assms
  by (simp add: length_flat_write flat_get_size_def leaf_flat_def unix_fs_get_size_def pb_wire_delimited unix_fs_default_def)

lemma de_size_le_total:
  assumes "pb_wire_ok (df_wire D)"
  shows "de_size (dag_entry D t) \<le> de_total (dag_entry D t)"
proof (induction t)
  case (Leaf b)
  then show ?case using length_leaf_block [OF assms] by (simp add: Let_def)
next
  case (Node ts)
  then have "sum_list (map (\<lambda>t. de_size (dag_entry D t)) ts) \<le> sum_list (map (\<lambda>t. de_total (dag_entry D t)) ts)"
    by (intro sum_list_mono) simp
  then show ?case by (simp add: Let_def comp_def)
qed

lemma de_total_balanced:
  assumes "2 \<le> n" "t \<in> set ts"
  shows "de_total (dag_entry D t) \<le> sum_list (map (\<lambda>t. de_total (dag_entry D t)) (balanced n ts))"
  using assms
proof (induction n ts arbitrary: t rule: balanced.induct)
  case (1 n ts)
  show ?case
  proof (cases "length ts \<le> 1")
    case True
    with 1 show ?thesis by (simp add: balanced_short member_le_sum_list)
  next
    case False
    from 1 have "t \<in> set (concat (chunks_of n ts))" by (simp add: concat_chunks_of)
    then obtain g where g: "g \<in> set (chunks_of n ts)" "t \<in> set g" by auto
    have "de_total (dag_entry D t) \<le> de_total (dag_entry D (Node g))"
      using g(2) by (simp add: Let_def member_le_sum_list trans_le_add1)
    also have "\<dots> \<le> sum_list (map (\<lambda>t. de_total (dag_entry D t)) (balanced n (map Node (chunks_of n ts))))"
      using 1 False g by (simp del: dag_entry.simps)
    finally show ?thesis using 1 False by (simp add: balanced_step)
  qed
qed

section \<open>One link block\<close>

lemma render_and_hash_dag:
  assumes "dag_hashing cb D"
  shows "render_and_hash (df_wire D) cb flat v = Done (df_cid D v (flat_write (df_wire D) flat), flat_write (df_wire D) flat)"
proof -
  let ?out = "flat_write (df_wire D) flat"
  have "bind_exec (expect (cb_wrap cb (cb_sha256 cb ?out))) (\<lambda>mh. expect_ok (create_cid cb mh v)) = Done (df_cid D v ?out)"
    using assms by (simp add: dag_hashing_def)
  then show ?thesis by (auto simp: render_and_hash_def Let_def)
qed

lemma add_u64_of_nat: "(checks \<longrightarrow> a + b < 2 ^ 64) \<Longrightarrow> add_u64 checks (of_nat a) (of_nat b) = Done (of_nat (a + b))"
  by (cases checks) (simp_all add: add_u64_def checked_add_def unat_of_nat)

lemma partition_links_dag:
  assumes bytes: "df_bytes D = co_to_bytes cb"
    and "checks \<longrightarrow> a + sum_list (map (\<lambda>t. de_size (dag_entry D t)) ts) < 2 ^ 64"
    and "checks \<longrightarrow> b + sum_list (map (\<lambda>t. de_total (dag_entry D t)) ts) < 2 ^ 64"
  shows "partition_links checks cb level (map (link_of D level) ts)
      \<lparr>pt_links = ls, pt_blocksizes = bs, nested_size = of_nat a, nested_total_size = of_nat b\<rparr> =
    Done \<lparr>pt_links = ls @ flat_links (node_flat D (map (dag_entry D) ts)),
      pt_blocksizes = bs @ map (\<lambda>t. of_nat (de_size (dag_entry D t))) ts,
      nested_size = of_nat (a + sum_list (map (\<lambda>t. de_size (dag_entry D t)) ts)),
      nested_total_size = of_nat (b + sum_list (map (\<lambda>t. de_total (dag_entry D t)) ts))\<rparr>"
  using assms(2,3)
proof (induction ts arbitrary: a b ls bs)
  case Nil
  then show ?case by (simp add: node_flat_def)
next
  case (Cons t ts)
  have "partition_link checks cb (link_of D level t)
      \<lparr>pt_links = ls, pt_blocksizes = bs, nested_size = of_nat a, nested_total_size = of_nat b\<rparr> =
    Done \<lparr>pt_links = ls @ flat_links (node_flat D [dag_entry D t]), pt_blocksizes = bs @ [of_nat (de_size (dag_entry D t))],
      nested_size = of_nat (a + de_size (dag_entry D t)), nested_total_size = of_nat (b + de_total (dag_entry D t))\<rparr>"
    using Cons.prems add_u64_of_nat [of checks a "de_size (dag_entry D t)"] add_u64_of_nat [of checks b "de_total (dag_entry D t)"]
    by (cases checks) (simp_all add: partition_link_def link_of_def node_flat_def bytes)
  then show ?case
    using Cons.prems Cons.IH [of "a + de_size (dag_entry D t)" "b + de_total (dag_entry D t)"]
    by (simp add: node_flat_def add.assoc)
qed

lemma link_block_dag:
  assumes "pb_wire_ok (df_wire D)" "dag_hashing cb D" "checks \<longrightarrow> de_total (dag_entry D (Node ts)) < 2 ^ 64"
  shows "link_block (df_wire D) cb checks (df_node D) level (map (link_of D level) ts) =
    Done (link_of D (level + 1) (Node ts), block_of D (Node ts))"
proof -
  let ?size = "sum_list (map (\<lambda>t. de_size (dag_entry D t)) ts)"
  let ?total = "sum_list (map (\<lambda>t. de_total (dag_entry D t)) ts)"
  let ?node = "flat_write (df_wire D) (node_flat D (map (dag_entry D) ts))"
  have total: "checks \<longrightarrow> ?total + length ?node < 2 ^ 64" using assms(3) by (simp add: Let_def comp_def)
  have size: "checks \<longrightarrow> ?size < 2 ^ 64"
    using assms(3) de_size_le_total [OF assms(1), of "Node ts"] by (auto simp: Let_def comp_def)
  have "co_to_bytes cb = df_bytes D" using assms(2) by (simp add: dag_hashing_def)
  then have "partition_links checks cb level (map (link_of D level) ts)
      \<lparr>pt_links = [], pt_blocksizes = [], nested_size = 0, nested_total_size = 0\<rparr> =
    Done \<lparr>pt_links = flat_links (node_flat D (map (dag_entry D) ts)),
      pt_blocksizes = map (\<lambda>t. of_nat (de_size (dag_entry D t))) ts, nested_size = of_nat ?size, nested_total_size = of_nat ?total\<rparr>"
    using partition_links_dag [of D cb checks 0 ts 0 level "[]" "[]"] total size
    by (cases checks) simp_all
  moreover have "\<lparr>flat_links = flat_links (node_flat D (map (dag_entry D) ts)),
      flat_data = unix_fs_default\<lparr>Type := File, filesize := Some (of_nat ?size),
        blocksizes := map (\<lambda>t. of_nat (de_size (dag_entry D t))) ts\<rparr>\<rparr> = node_flat D (map (dag_entry D) ts)"
    by (simp add: node_flat_def comp_def)
  ultimately show ?thesis
    using add_u64_of_nat [OF total]
    by (simp add: link_block_def render_and_hash_dag [OF assms(2)] link_of_def block_of_def Let_def comp_def)
qed

section \<open>Compacting one level\<close>

lemma position_append_skip:
  "(\<forall>x \<in> set xs. \<not> P x) \<Longrightarrow> position P (xs @ ys) = map_option (\<lambda>i. i + length xs) (position P ys)"
  by (induction xs) (auto simp: option.map_comp comp_def option.map_ident)

lemma flush_level_skip:
  assumes "\<forall>l \<in> set hi. depth l \<noteq> level"
  shows "flush_level pw cb checks bc finishing level (hi @ xs) 0 lo ret =
    flush_level pw cb checks bc finishing level (hi @ xs) (length hi) lo ret"
proof (cases "position (\<lambda>l. depth l = level) xs")
  case None
  then show ?thesis by (subst (1 2) flush_level.simps) (simp add: position_append_skip assms)
next
  case (Some i)
  have "position (\<lambda>l. depth l = level) (hi @ xs) = Some (i + length hi)"
    using Some by (simp add: position_append_skip assms)
  moreover have "drop (length hi) (hi @ xs) = xs" "\<not> length (hi @ xs) < 0" "\<not> length (hi @ xs) < length hi"
    by simp_all
  ultimately show ?thesis
    by (subst (1 2) flush_level.simps) (simp only: Some option.case drop_0 add_0_right if_False)
qed

lemma position_link_of [simp]:
  "position (\<lambda>l. depth l = level) (map (link_of D level) ts) = (if ts = [] then None else Some 0)"
  by (cases ts) simp_all

text \<open>Where the next link block is written: right behind those already written at this level.\<close>

definition overwrite_ok :: "'a list \<Rightarrow> 'a list \<Rightarrow> nat option \<Rightarrow> bool" where
  "overwrite_ok pre junk lo \<longleftrightarrow> (case lo of None \<Rightarrow> junk = [] | Some i \<Rightarrow> length pre = Suc i)"

lemma overwrite_index:
  "overwrite_ok pre junk lo \<Longrightarrow> (case lo of Some i \<Rightarrow> i + 1 | None \<Rightarrow> length pre + length junk) = length pre"
  by (auto simp: overwrite_ok_def split: option.splits)

lemma list_update_behind:
  assumes "junk @ xs \<noteq> []"
  shows "(pre @ junk @ xs @ ys)[length pre := v] = pre @ [v] @ tl (junk @ xs) @ ys"
  using assms by (cases "junk @ xs") (auto simp: list_update_append Cons_eq_append_conv append_eq_Cons_conv)

lemma flush_level_block:
  assumes D: "pb_wire_ok (df_wire D)" "dag_hashing cb D" "bc_cid_version bc = df_node D"
    and ov: "overwrite_ok pre junk lo" and ts: "ts \<noteq> []" "0 < branching_factor bc"
    and go: "finishing \<or> branching_factor bc < length ts"
    and total: "checks \<longrightarrow> de_total (dag_entry D (Node (take (branching_factor bc) ts))) < 2 ^ 64"
  shows "\<exists>junk'. overwrite_ok (pre @ [link_of D (level + 1) (Node (take (branching_factor bc) ts))]) junk' (Some (length pre)) \<and>
    flush_level (df_wire D) cb checks bc finishing level (pre @ junk @ map (link_of D level) ts) (length (pre @ junk)) lo ret =
    flush_level (df_wire D) cb checks bc finishing level
      ((pre @ [link_of D (level + 1) (Node (take (branching_factor bc) ts))]) @ junk' @
        map (link_of D level) (drop (branching_factor bc) ts))
      (length ((pre @ [link_of D (level + 1) (Node (take (branching_factor bc) ts))]) @ junk')) (Some (length pre))
      (ret @ [block_of D (Node (take (branching_factor bc) ts))])"
proof -
  define n where "n = branching_factor bc"
  define links where "links = map (link_of D level) ts"
  define pending where "pending = pre @ junk @ links"
  define s where "s = length (pre @ junk)"
  let ?new = "link_of D (level + 1) (Node (take n ts))"
  define junk' where "junk' = tl (junk @ take n links)"
  have ne: "junk @ take n links \<noteq> []"
    using ts by (simp add: n_def links_def)
  have dp: "drop s pending = links" by (simp add: s_def pending_def)
  have pos: "position (\<lambda>l. depth l = level) links = Some 0" using ts by (simp add: links_def)
  have len: "length pending = s + length links" "length pre < length pending" "0 < length links"
    using ts by (simp_all add: s_def pending_def links_def)
  have go': "\<not> (\<not> finishing \<and> length links \<le> n)" using go by (auto simp: links_def n_def)
  have slice: "take (min (s + n) (s + length links) - s) links = map (link_of D level) (take n ts)"
    by (simp add: links_def take_map [symmetric] min_def)
  have index: "(case lo of Some i \<Rightarrow> i + 1 | None \<Rightarrow> s) = length pre"
    using overwrite_index [OF ov] unfolding s_def length_append .
  have upd: "pending[length pre := ?new] = (pre @ [?new]) @ junk' @ drop n links"
    using list_update_behind [OF ne, of pre "drop n links" ?new] by (simp add: junk'_def pending_def)
  have next_start: "min (s + n) (s + length links) = length ((pre @ [?new]) @ junk')"
    using ne by (simp add: junk'_def s_def min_def)
  have "flush_level (df_wire D) cb checks bc finishing level pending s lo ret =
    flush_level (df_wire D) cb checks bc finishing level (pending[length pre := ?new])
      (min (s + n) (s + length links)) (Some (length pre)) (ret @ [block_of D (Node (take n ts))])"
    using link_block_dag [OF D(1,2) total [folded n_def], of level] go' len
    by (subst flush_level.simps)
      (simp only: dp pos option.case n_def [symmetric] D(3) Let_def add_0 slice index exec.case prod.case not_less if_False
        le_add1 linorder_not_le [symmetric] simp_thms len(1))
  then show ?thesis
    unfolding upd next_start
    by (intro exI [of _ junk']) (simp add: overwrite_ok_def pending_def s_def n_def links_def drop_map)
qed

lemma flush_level_all:
  assumes D: "pb_wire_ok (df_wire D)" "dag_hashing cb D" "bc_cid_version bc = df_node D" "0 < branching_factor bc"
    and "\<forall>g \<in> set (chunks_of (branching_factor bc) ts). (checks \<longrightarrow> de_total (dag_entry D (Node g)) < 2 ^ 64)"
    and "overwrite_ok pre junk lo"
  shows "\<exists>junk' lo'.
    overwrite_ok (pre @ map (\<lambda>g. link_of D (level + 1) (Node g)) (chunks_of (branching_factor bc) ts)) junk' lo' \<and>
    flush_level (df_wire D) cb checks bc True level (pre @ junk @ map (link_of D level) ts) (length (pre @ junk)) lo ret =
    Some (Done (False, (pre @ map (\<lambda>g. link_of D (level + 1) (Node g)) (chunks_of (branching_factor bc) ts)) @ junk', lo',
      ret @ map (\<lambda>g. block_of D (Node g)) (chunks_of (branching_factor bc) ts)))"
  using assms(5,6)
proof (induction "branching_factor bc" ts arbitrary: pre junk lo ret rule: chunks_of.induct)
  case (1 ts)
  let ?n = "branching_factor bc"
  show ?case
  proof (cases "ts = []")
    case True
    then have "flush_level (df_wire D) cb checks bc True level (pre @ junk @ map (link_of D level) ts) (length (pre @ junk)) lo ret =
      Some (Done (False, pre @ junk, lo, ret))"
      by (subst flush_level.simps) simp
    with True 1(3) show ?thesis by auto
  next
    case False
    then have ch: "chunks_of ?n ts = take ?n ts # chunks_of ?n (drop ?n ts)" by (simp add: chunks_of_Cons D(4))
    let ?pre = "pre @ [link_of D (level + 1) (Node (take ?n ts))]"
    from flush_level_block [OF D(1-3) 1(3) False D(4), where finishing = True and level = level and checks = checks and ret = ret] ch 1(2)
    obtain junk' where junk': "overwrite_ok ?pre junk' (Some (length pre))"
      "flush_level (df_wire D) cb checks bc True level (pre @ junk @ map (link_of D level) ts) (length (pre @ junk)) lo ret =
        flush_level (df_wire D) cb checks bc True level (?pre @ junk' @ map (link_of D level) (drop ?n ts))
          (length (?pre @ junk')) (Some (length pre)) (ret @ [block_of D (Node (take ?n ts))])"
      by auto
    have "\<forall>g \<in> set (chunks_of ?n (drop ?n ts)). (checks \<longrightarrow> de_total (dag_entry D (Node g)) < 2 ^ 64)" using ch 1(2) by simp
    from 1(1) [OF _ this junk'(1), of "ret @ [block_of D (Node (take ?n ts))]"] False D(4)
    show ?thesis unfolding junk'(2) ch by simp
  qed
qed

lemma truncate_overwritten:
  "overwrite_ok pre junk lo \<Longrightarrow> (case lo of Some i \<Rightarrow> take (i + 1) (pre @ junk) | None \<Rightarrow> pre @ junk) = pre"
  by (auto simp: overwrite_ok_def split: option.splits)

lemma flush_level_pass:
  assumes D: "pb_wire_ok (df_wire D)" "dag_hashing cb D" "bc_cid_version bc = df_node D" "0 < branching_factor bc"
    and total: "\<forall>g \<in> set (chunks_of (branching_factor bc) ts). (checks \<longrightarrow> de_total (dag_entry D (Node g)) < 2 ^ 64)"
    and hi: "\<forall>l \<in> set hi. depth l \<noteq> level"
  shows "\<exists>junk lo. overwrite_ok (hi @ map (\<lambda>g. link_of D (level + 1) (Node g)) (chunks_of (branching_factor bc) ts)) junk lo \<and>
    flush_level (df_wire D) cb checks bc True level (hi @ map (link_of D level) ts) 0 None ret =
    Some (Done (False, (hi @ map (\<lambda>g. link_of D (level + 1) (Node g)) (chunks_of (branching_factor bc) ts)) @ junk, lo,
      ret @ map (\<lambda>g. block_of D (Node g)) (chunks_of (branching_factor bc) ts)))"
  using flush_level_all [OF D total, where pre = hi and junk = "[]" and lo = None and level = level and ret = ret]
  by (simp add: overwrite_ok_def flush_level_skip hi)

lemma flush_levels_step:
  assumes D: "pb_wire_ok (df_wire D)" "dag_hashing cb D" "bc_cid_version bc = df_node D" "0 < branching_factor bc"
    and total: "\<forall>g \<in> set (chunks_of (branching_factor bc) ts). (checks \<longrightarrow> de_total (dag_entry D (Node g)) < 2 ^ 64)"
    and hi: "\<forall>l \<in> set hi. depth l \<noteq> level" and len: "length hi + length ts \<noteq> 1"
  shows "flush_levels (df_wire D) cb checks bc True level (hi @ map (link_of D level) ts) ret =
    flush_levels (df_wire D) cb checks bc True (level + 1)
      (hi @ map (\<lambda>g. link_of D (level + 1) (Node g)) (chunks_of (branching_factor bc) ts))
      (ret @ map (\<lambda>g. block_of D (Node g)) (chunks_of (branching_factor bc) ts))"
proof -
  let ?new = "map (\<lambda>g. link_of D (level + 1) (Node g)) (chunks_of (branching_factor bc) ts)"
  from flush_level_pass [OF D total hi, of ret]
  obtain junk lo where ov: "overwrite_ok (hi @ ?new) junk lo" and
    run: "flush_level (df_wire D) cb checks bc True level (hi @ map (link_of D level) ts) 0 None ret =
      Some (Done (False, (hi @ ?new) @ junk, lo, ret @ map (\<lambda>g. block_of D (Node g)) (chunks_of (branching_factor bc) ts)))"
    by blast
  have "position (\<lambda>l. depth l = level) (hi @ ?new) = None"
    using hi by (simp add: position_None_iff ball_Un)
  then show ?thesis
    using len by (subst flush_levels.simps) (simp add: run truncate_overwritten [OF ov, unfolded append_assoc] Let_def
        del: One_nat_def Suc_eq_plus1 add_Suc_right)
qed

text \<open>The link blocks above a list of trees, level by level.\<close>

function level_blocks :: "('e, 'cid) dag_format \<Rightarrow> nat \<Rightarrow> dag list \<Rightarrow> ('cid \<times> bytes) list" where
  "level_blocks D n ts =
     (if n < 2 \<or> length ts \<le> 1 then []
      else map (\<lambda>g. block_of D (Node g)) (chunks_of n ts) @ level_blocks D n (map Node (chunks_of n ts)))"
  by pat_completeness auto
termination
  by (relation "measure (\<lambda>(D, n, ts). length ts)") (auto simp: length_chunks_of_less)

declare level_blocks.simps [simp del]

lemma level_blocks_short: "length ts \<le> 1 \<Longrightarrow> level_blocks D n ts = []"
  by (subst level_blocks.simps) simp

lemma level_blocks_step:
  "2 \<le> n \<Longrightarrow> 2 \<le> length ts \<Longrightarrow>
   level_blocks D n ts = map (\<lambda>g. block_of D (Node g)) (chunks_of n ts) @ level_blocks D n (map Node (chunks_of n ts))"
  by (subst level_blocks.simps) simp

lemma mset_level_blocks:
  "2 \<le> n \<Longrightarrow> mset (concat (map (dag_blocks D) (balanced n ts))) =
    mset (concat (map (dag_blocks D) ts)) + mset (level_blocks D n ts)"
proof (induction n ts rule: balanced.induct)
  case (1 n ts)
  have nodes: "mset (concat (map (dag_blocks D) (map Node gs))) =
      mset (concat (map (dag_blocks D) (concat gs))) + mset (map (\<lambda>g. block_of D (Node g)) gs)" for gs
    by (induction gs) simp_all
  show ?case
  proof (cases "length ts \<le> 1")
    case True
    then show ?thesis by (simp add: balanced_short level_blocks_short)
  next
    case False
    with 1 have "mset (concat (map (dag_blocks D) (balanced n ts))) =
        mset (concat (map (dag_blocks D) (map Node (chunks_of n ts)))) + mset (level_blocks D n (map Node (chunks_of n ts)))"
      by (simp add: balanced_step)
    then show ?thesis
      unfolding nodes using False 1 by (simp add: concat_chunks_of level_blocks_step)
  qed
qed

lemma last_level_blocks:
  assumes "2 \<le> n" "2 \<le> length ts" "balanced n ts = [root]"
  shows "level_blocks D n ts \<noteq> [] \<and> last (level_blocks D n ts) = block_of D root"
  using assms
proof (induction n ts rule: balanced.induct)
  case (1 n ts)
  have ne: "chunks_of n ts \<noteq> []" using 1(2,3) by (intro chunks_of_not_Nil) auto
  have bal: "balanced n (map Node (chunks_of n ts)) = [root]"
    using 1(4) unfolding balanced_step [OF 1(2,3)] .
  show ?case
  proof (cases "length (chunks_of n ts) \<le> 1")
    case True
    then obtain g where g: "chunks_of n ts = [g]" using ne by (cases "chunks_of n ts") auto
    then have "root = Node g" using bal by (simp add: balanced_short)
    with g show ?thesis by (simp add: level_blocks_step [OF 1(2,3)] level_blocks_short)
  next
    case False
    then have "level_blocks D n (map Node (chunks_of n ts)) \<noteq> [] \<and>
        last (level_blocks D n (map Node (chunks_of n ts))) = block_of D root"
      using 1(1) [OF _ 1(2) _ bal] 1(2,3) by simp
    then show ?thesis by (simp add: level_blocks_step [OF 1(2,3)])
  qed
qed

lemma flush_levels_balanced:
  assumes D: "pb_wire_ok (df_wire D)" "dag_hashing cb D" "bc_cid_version bc = df_node D" "2 \<le> branching_factor bc"
    and "balanced (branching_factor bc) ts = [root]" "checks \<longrightarrow> de_total (dag_entry D root) < 2 ^ 64" "ts \<noteq> []"
  shows "\<exists>d. flush_levels (df_wire D) cb checks bc True level (map (link_of D level) ts) ret =
    Some (Done ([link_of D d root], ret @ level_blocks D (branching_factor bc) ts))"
  using assms(5-7)
proof (induction "branching_factor bc" ts arbitrary: level ret rule: balanced.induct)
  case (1 ts)
  let ?n = "branching_factor bc"
  show ?case
  proof (cases "length ts \<le> 1")
    case True
    with 1 have "ts = [root]" by (cases ts) (auto simp: balanced_short)
    then show ?thesis by (subst flush_levels.simps) (auto simp: level_blocks_short)
  next
    case False
    then have bal: "balanced ?n (map Node (chunks_of ?n ts)) = [root]"
      using 1(2) D(4) by (simp add: balanced_step)
    have "\<forall>g \<in> set (chunks_of ?n ts). (checks \<longrightarrow> de_total (dag_entry D (Node g)) < 2 ^ 64)"
    proof
      fix g assume "g \<in> set (chunks_of ?n ts)"
      then have "de_total (dag_entry D (Node g)) \<le> de_total (dag_entry D root)"
        using de_total_balanced [OF D(4), of "Node g" "map Node (chunks_of ?n ts)" D] by (simp add: bal del: dag_entry.simps)
      then show "checks \<longrightarrow> de_total (dag_entry D (Node g)) < 2 ^ 64" using 1(3) by (blast intro: le_less_trans)
    qed
    then have "flush_levels (df_wire D) cb checks bc True level (map (link_of D level) ts) ret =
      flush_levels (df_wire D) cb checks bc True (level + 1) (map (link_of D (level + 1)) (map Node (chunks_of ?n ts)))
        (ret @ map (\<lambda>g. block_of D (Node g)) (chunks_of ?n ts))"
      using flush_levels_step [OF D(1-3), where ts = ts and hi = "[]"] False D(4) by (simp add: comp_def)
    moreover have "map Node (chunks_of ?n ts) \<noteq> []"
      using 1(4) D(4) chunks_of_not_Nil [of ?n ts] by simp
    ultimately show ?thesis
      using 1(1) [OF _ bal 1(3), of "level + 1" "ret @ map (\<lambda>g. block_of D (Node g)) (chunks_of ?n ts)"] False D(4)
      by (simp add: level_blocks_step)
  qed
qed

section \<open>Adding a file\<close>

lemma file_leaves_append:
  assumes "0 < mx" "\<forall>c \<in> set cs. length c = mx" "cs \<noteq> []"
  shows "file_leaves mx (concat cs @ r) = map Leaf cs @ map Leaf (chunks_of mx r)"
proof -
  have "concat cs @ r \<noteq> []" using assms by (cases cs) auto
  then show ?thesis using assms by (simp add: file_leaves_def chunks_of_append del: append_is_Nil_conv concat_eq_Nil_conv)
qed

lemma flush_buffered_leaf_dag:
  assumes "dag_hashing cb D" "b \<noteq> [] \<or> finishing \<and> links = []"
  shows "flush_buffered_leaf (df_wire D) cb b links finishing (df_leaf D) =
    Done (links @ [link_of D 0 (Leaf b)], Some (block_of D (Leaf b)))"
  using assms(2)
  by (auto simp: flush_buffered_leaf_def render_and_hash_dag [OF assms(1)] link_of_def block_of_def Let_def leaf_flat_def)

lemma total_in_file:
  assumes "2 \<le> n" "0 < mx" "t \<in> set (file_leaves mx C) \<or> 2 \<le> length (file_leaves mx C) \<and> t \<in> Node ` set (chunks_of n (file_leaves mx C))"
  shows "de_total (dag_entry D t) \<le> de_total (dag_entry D (file_dag n mx C))"
proof -
  have root: "balanced n (file_leaves mx C) = [file_dag n mx C]" by (rule balanced_file_leaves [OF assms(1,2)])
  show ?thesis
  proof (cases "t \<in> set (file_leaves mx C)")
    case True
    then show ?thesis using de_total_balanced [OF assms(1), of t "file_leaves mx C" D] by (simp add: root)
  next
    case False
    then have t: "2 \<le> length (file_leaves mx C)" "t \<in> set (map Node (chunks_of n (file_leaves mx C)))"
      using assms(3) by auto
    have "balanced n (map Node (chunks_of n (file_leaves mx C))) = [file_dag n mx C]"
      using root unfolding balanced_step [OF assms(1) t(1)] .
    then show ?thesis using de_total_balanced [OF assms(1) t(2), of D] by simp
  qed
qed

text \<open>The state of an adder that has taken \<open>content\<close>: the full chunks \<open>cs\<close> and the buffered rest; the complete groups of
  leaves have become link blocks, and at most \<open>n\<close> leaves are pending.\<close>

definition pending_links :: "('e, 'cid) dag_format \<Rightarrow> dag list list \<Rightarrow> dag list \<Rightarrow> 'cid link list" where
  "pending_links D full rest = map (\<lambda>g. link_of D 1 (Node g)) full @ map (link_of D 0) rest"

definition adding ::
  "('e, 'cid) dag_format \<Rightarrow> nat \<Rightarrow> nat \<Rightarrow> bytes \<Rightarrow> 'cid file_adder \<Rightarrow> ('cid \<times> bytes) list \<Rightarrow> bool" where
  "adding D n mx content fa emitted \<longleftrightarrow>
     fa_chunker fa = Size mx \<and> fa_collector fa = Balanced \<lparr>branching_factor = n, bc_cid_version = df_node D\<rparr> \<and>
     fa_cid_version fa = df_leaf D \<and> length (block_buffer fa) < mx \<and>
     (\<exists>cs full rest. content = concat cs @ block_buffer fa \<and> (\<forall>c \<in> set cs. length c = mx) \<and>
        map Leaf cs = concat full @ rest \<and> (\<forall>g \<in> set full. length g = n) \<and> length rest \<le> n \<and> (cs = [] \<or> rest \<noteq> []) \<and>
        unflushed_links fa = pending_links D full rest \<and>
        mset emitted = mset (map (\<lambda>c. block_of D (Leaf c)) cs) + mset (map (\<lambda>g. block_of D (Node g)) full))"

text \<open>Flushing while adding: a group is closed as soon as one more leaf than it holds is pending.\<close>

lemma flush_links_adding:
  assumes D: "pb_wire_ok (df_wire D)" "dag_hashing cb D" and n: "0 < n" and len: "rest \<noteq> []" "length rest \<le> n + 1"
    and total: "length rest = n + 1 \<Longrightarrow> (checks \<longrightarrow> de_total (dag_entry D (Node (take n rest))) < 2 ^ 64)"
  shows "flush_links (df_wire D) cb checks (Balanced \<lparr>branching_factor = n, bc_cid_version = df_node D\<rparr>)
      (pending_links D full rest) False =
    Some (Done (if length rest \<le> n then (pending_links D full rest, [])
      else (pending_links D (full @ [take n rest]) (drop n rest), [block_of D (Node (take n rest))])))"
proof -
  let ?bc = "\<lparr>branching_factor = n, bc_cid_version = df_node D\<rparr>"
  let ?hi = "map (\<lambda>g. link_of D 1 (Node g)) full"
  have hi: "\<forall>l \<in> set ?hi. depth l \<noteq> 0" by simp
  have skip: "flush_level (df_wire D) cb checks ?bc False 0 (?hi @ map (link_of D 0) rest) 0 None [] =
      flush_level (df_wire D) cb checks ?bc False 0 (?hi @ [] @ map (link_of D 0) rest) (length (?hi @ [])) None []"
    using flush_level_skip [OF hi] by simp
  show ?thesis
  proof (cases "length rest \<le> n")
    case True
    then have "flush_level (df_wire D) cb checks ?bc False 0 (?hi @ map (link_of D 0) rest) 0 None [] =
        Some (Done (True, ?hi @ map (link_of D 0) rest, None, []))"
      unfolding skip using len by (subst flush_level.simps) simp
    then show ?thesis
      using True by (simp add: flush_links_def) (subst flush_levels.simps, simp add: pending_links_def)
  next
    case False
    then have n1: "length rest = n + 1" using len by simp
    obtain junk where junk: "overwrite_ok (?hi @ [link_of D 1 (Node (take n rest))]) junk (Some (length ?hi))"
      "flush_level (df_wire D) cb checks ?bc False 0 (?hi @ map (link_of D 0) rest) 0 None [] =
       flush_level (df_wire D) cb checks ?bc False 0
         ((?hi @ [link_of D 1 (Node (take n rest))]) @ junk @ map (link_of D 0) (drop n rest))
         (length ((?hi @ [link_of D 1 (Node (take n rest))]) @ junk)) (Some (length ?hi)) ([] @ [block_of D (Node (take n rest))])"
      using flush_level_block [OF D, where bc = ?bc and pre = ?hi and junk = "[]" and lo = None and ts = rest
          and finishing = False and level = 0 and checks = checks and ret = "[]"] total [OF n1] len n n1 skip
      by (auto simp: overwrite_ok_def)
    have "drop n rest \<noteq> []" using n1 by simp
    then have "flush_level (df_wire D) cb checks ?bc False 0 (?hi @ map (link_of D 0) rest) 0 None [] =
      Some (Done (True, (?hi @ [link_of D 1 (Node (take n rest))]) @ map (link_of D 0) (drop n rest), Some (length ?hi),
        [block_of D (Node (take n rest))]))"
      unfolding junk(2) using n n1 by (subst flush_level.simps) simp
    then show ?thesis
      using False n1 by (simp add: flush_links_def) (subst flush_levels.simps, simp add: pending_links_def)
  qed
qed

lemma push_leaf_adding:
  assumes D: "pb_wire_ok (df_wire D)" "dag_hashing cb D" and n: "0 < n" and c: "c \<noteq> []"
    and fa: "fa_collector fa = Balanced \<lparr>branching_factor = n, bc_cid_version = df_node D\<rparr>" "fa_cid_version fa = df_leaf D"
      "unflushed_links fa = pending_links D full rest" "length rest \<le> n"
    and total: "length rest = n \<Longrightarrow> (checks \<longrightarrow> de_total (dag_entry D (Node rest)) < 2 ^ 64)"
  shows "push_leaf (df_wire D) cb checks c fa = Some (Done (
    if length rest < n
    then (fa\<lparr>unflushed_links := pending_links D full (rest @ [Leaf c]), block_buffer := []\<rparr>, [block_of D (Leaf c)])
    else (fa\<lparr>unflushed_links := pending_links D (full @ [rest]) [Leaf c], block_buffer := []\<rparr>,
      [block_of D (Leaf c), block_of D (Node rest)])))"
proof -
  have leaf: "pending_links D full rest @ [link_of D 0 (Leaf c)] = pending_links D full (rest @ [Leaf c])"
    by (simp add: pending_links_def)
  have "flush_buffered_leaf (df_wire D) cb c (pending_links D full rest) False (df_leaf D) =
      Done (pending_links D full (rest @ [Leaf c]), Some (block_of D (Leaf c)))"
    using flush_buffered_leaf_dag [OF D(2)] c by (simp add: leaf)
  moreover have "flush_links (df_wire D) cb checks (Balanced \<lparr>branching_factor = n, bc_cid_version = df_node D\<rparr>)
      (pending_links D full (rest @ [Leaf c])) False =
    Some (Done (if length rest < n then (pending_links D full (rest @ [Leaf c]), [])
      else (pending_links D (full @ [rest]) [Leaf c], [block_of D (Node rest)])))"
    using flush_links_adding [OF D n, of "rest @ [Leaf c]" checks full] fa(4) total by auto
  ultimately show ?thesis
    using fa by (simp add: push_leaf_def flush_buffered_links_def)
qed

lemma push_adding:
  assumes D: "pb_wire_ok (df_wire D)" "dag_hashing cb D" and n: "0 < n"
    and fa: "adding D n mx content fa emitted" and input: "input \<noteq> []"
    and total: "checks \<longrightarrow> 2 \<le> n \<and> de_total (dag_entry D (file_dag n mx (content @ input @ tail))) < 2 ^ 64"
  shows "\<exists>fa' bs k. push (df_wire D) cb checks input fa = Some (Done (fa', bs, k)) \<and> 0 < k \<and> k \<le> length input \<and>
    length bs \<le> 2 \<and> adding D n mx (content @ take k input) fa' (emitted @ bs)"
proof -
  define buf where "buf = block_buffer fa"
  define l where "l = min (length input) (mx - length buf)"
  from fa obtain cs full rest where
    st: "fa_chunker fa = Size mx" "fa_collector fa = Balanced \<lparr>branching_factor = n, bc_cid_version = df_node D\<rparr>"
      "fa_cid_version fa = df_leaf D" "length buf < mx"
    and cs: "content = concat cs @ buf" "\<forall>c \<in> set cs. length c = mx" "map Leaf cs = concat full @ rest"
      "\<forall>g \<in> set full. length g = n" "length rest \<le> n" "cs = [] \<or> rest \<noteq> []"
    and links: "unflushed_links fa = pending_links D full rest"
    and em: "mset emitted = mset (map (\<lambda>c. block_of D (Leaf c)) cs) + mset (map (\<lambda>g. block_of D (Node g)) full)"
    unfolding adding_def buf_def by blast
  have l: "0 < l" "l \<le> length input" using st(4) input by (auto simp: l_def)
  have accept: "chunker_accept checks (fa_chunker fa) input buf = Done (take l input, mx \<le> length buf + l)"
    using st(1,4) by (simp add: chunker_accept_def l_def Let_def)
  show ?thesis
  proof (cases "mx \<le> length buf + l")
    case False
    then have "push (df_wire D) cb checks input fa = Some (Done (fa\<lparr>block_buffer := buf @ take l input\<rparr>, [], l))"
      using accept l by (simp add: push_def buf_def Let_def)
    moreover have "adding D n mx (content @ take l input) (fa\<lparr>block_buffer := buf @ take l input\<rparr>) (emitted @ [])"
      unfolding adding_def using st cs links em False l
      by (intro conjI exI [of _ cs] exI [of _ full] exI [of _ rest]) simp_all
    ultimately show ?thesis using l by (intro exI [of _ "fa\<lparr>block_buffer := buf @ take l input\<rparr>"] exI [of _ "[]"] exI [of _ l]) simp
  next
    case True
    define c where "c = buf @ take l input"
    have c: "length c = mx" "c \<noteq> []" using True st(4) by (auto simp: c_def l_def)
    have "push_leaf (df_wire D) cb checks c (fa\<lparr>block_buffer := x\<rparr>) = push_leaf (df_wire D) cb checks c fa" for x
      by (auto simp: push_leaf_def split: exec.splits option.splits)
    then have push: "push (df_wire D) cb checks input fa =
        map_option (\<lambda>r. bind_exec r (\<lambda>(fa, blocks). Done (fa, blocks, l))) (push_leaf (df_wire D) cb checks c fa)"
      using accept True l by (auto simp: push_def buf_def Let_def c_def)
    have content: "content @ input @ tail = concat (cs @ [c]) @ (drop l input @ tail)"
      by (simp add: cs(1) c_def)
    have "file_leaves mx (content @ input @ tail) = map Leaf (cs @ [c]) @ map Leaf (chunks_of mx (drop l input @ tail))"
      unfolding content using cs(2) c st(4) by (intro file_leaves_append) auto
    then have leaves: "file_leaves mx (content @ input @ tail) =
        concat full @ (rest @ Leaf c # map Leaf (chunks_of mx (drop l input @ tail)))"
      by (simp add: cs(3))
    have bound: "checks \<longrightarrow> de_total (dag_entry D (Node rest)) < 2 ^ 64" if "length rest = n"
    proof
      assume "checks"
      then have n2: "2 \<le> n" using total by simp
      have "chunks_of n (file_leaves mx (content @ input @ tail)) =
          full @ rest # chunks_of n (Leaf c # map Leaf (chunks_of mx (drop l input @ tail)))"
        unfolding leaves using n cs(4) that
        by (simp add: chunks_of_append chunks_of_Cons [of n "rest @ xs" for xs])
      moreover have "2 \<le> length (file_leaves mx (content @ input @ tail))" using leaves that n2 by simp
      ultimately have "de_total (dag_entry D (Node rest)) \<le> de_total (dag_entry D (file_dag n mx (content @ input @ tail)))"
        using st(4) by (intro total_in_file n2) simp_all
      then show "de_total (dag_entry D (Node rest)) < 2 ^ 64" using total \<open>checks\<close> by (blast intro: le_less_trans)
    qed
    have run: "push_leaf (df_wire D) cb checks c fa = Some (Done (
      if length rest < n
      then (fa\<lparr>unflushed_links := pending_links D full (rest @ [Leaf c]), block_buffer := []\<rparr>, [block_of D (Leaf c)])
      else (fa\<lparr>unflushed_links := pending_links D (full @ [rest]) [Leaf c], block_buffer := []\<rparr>,
        [block_of D (Leaf c), block_of D (Node rest)])))"
      using n by (intro push_leaf_adding D c st(2,3) links cs(5) bound) auto
    have taken: "content @ take l input = concat (cs @ [c])" by (simp add: cs(1) c_def)
    show ?thesis
    proof (cases "length rest < n")
      case True
      have "adding D n mx (content @ take l input)
          (fa\<lparr>unflushed_links := pending_links D full (rest @ [Leaf c]), block_buffer := []\<rparr>) (emitted @ [block_of D (Leaf c)])"
        unfolding adding_def taken using st cs em True c
        by (intro conjI exI [of _ "cs @ [c]"] exI [of _ full] exI [of _ "rest @ [Leaf c]"]) auto
      then show ?thesis using True l by (auto simp: push run)
    next
      case False
      then have "length rest = n" using cs(5) by simp
      then have "adding D n mx (content @ take l input)
          (fa\<lparr>unflushed_links := pending_links D (full @ [rest]) [Leaf c], block_buffer := []\<rparr>)
          (emitted @ [block_of D (Leaf c), block_of D (Node rest)])"
        unfolding adding_def taken using st cs em c n
        by (intro conjI exI [of _ "cs @ [c]"] exI [of _ "full @ [rest]"] exI [of _ "[Leaf c]"]) auto
      then show ?thesis using False l by (auto simp: push run)
    qed
  qed
qed

lemma concat_dag_blocks_leaves: "concat (map (dag_blocks D) (map Leaf cs)) = map (\<lambda>c. block_of D (Leaf c)) cs"
  by (induction cs) simp_all

text \<open>Flushing the remaining links: either the one leaf is the root already, or the levels are compacted in turn.\<close>

lemma flush_links_finish:
  assumes D: "pb_wire_ok (df_wire D)" "dag_hashing cb D" and n: "2 \<le> n"
    and full: "\<forall>g \<in> set full. length g = n" and rest: "rest \<noteq> []"
    and root: "balanced n (concat full @ rest) = [root]" "checks \<longrightarrow> de_total (dag_entry D root) < 2 ^ 64"
  shows "\<exists>links bs. flush_links (df_wire D) cb checks (Balanced \<lparr>branching_factor = n, bc_cid_version = df_node D\<rparr>)
      (pending_links D full rest) True = Some (Done (links, bs)) \<and>
    (if length (concat full @ rest) = 1 then bs = []
     else bs \<noteq> [] \<and> last bs = block_of D root \<and>
       mset (map (\<lambda>g. block_of D (Node g)) full) + mset bs = mset (level_blocks D n (concat full @ rest)))"
proof (cases "length (concat full @ rest) = 1")
  case True
  then have "full = []" using full n rest by (cases full) auto
  with True show ?thesis
    by (simp add: flush_links_def pending_links_def) (subst flush_levels.simps, simp)
next
  case False
  let ?bc = "\<lparr>branching_factor = n, bc_cid_version = df_node D\<rparr>"
  let ?L = "concat full @ rest"
  have "0 < length rest" using rest by simp
  then have L: "2 \<le> length ?L" using False unfolding length_append by linarith
  have chunks: "chunks_of n ?L = full @ chunks_of n rest" using n full by (simp add: chunks_of_append)
  have bal: "balanced n (map Node (chunks_of n ?L)) = [root]" using root(1) unfolding balanced_step [OF n L] .
  have total: "\<forall>g \<in> set (chunks_of n rest). (checks \<longrightarrow> de_total (dag_entry D (Node g)) < 2 ^ 64)"
  proof
    fix g assume "g \<in> set (chunks_of n rest)"
    then have "Node g \<in> set (map Node (chunks_of n ?L))" by (simp add: chunks)
    then have "de_total (dag_entry D (Node g)) \<le> de_total (dag_entry D root)"
      using de_total_balanced [OF n, of "Node g" "map Node (chunks_of n ?L)" D] unfolding bal by simp
    then show "checks \<longrightarrow> de_total (dag_entry D (Node g)) < 2 ^ 64" using root(2) by (blast intro: le_less_trans)
  qed
  have len: "length (map (\<lambda>g. link_of D 1 (Node g)) full) + length rest \<noteq> 1"
    using False rest full n by (cases full) auto
  have "chunks_of n ?L \<noteq> []" using rest n by (intro chunks_of_not_Nil) auto
  then obtain d where d: "flush_levels (df_wire D) cb checks ?bc True 1 (map (link_of D 1) (map Node (chunks_of n ?L)))
      (map (\<lambda>g. block_of D (Node g)) (chunks_of n rest)) =
    Some (Done ([link_of D d root], map (\<lambda>g. block_of D (Node g)) (chunks_of n rest) @
      level_blocks D n (map Node (chunks_of n ?L))))"
    using flush_levels_balanced [OF D, where bc = ?bc and ts = "map Node (chunks_of n ?L)" and root = root and level = 1
        and checks = checks and ret = "map (\<lambda>g. block_of D (Node g)) (chunks_of n rest)"] n bal root(2)
    by (auto simp del: dag_entry.simps)
  have "flush_levels (df_wire D) cb checks ?bc True 0 (pending_links D full rest) [] =
    flush_levels (df_wire D) cb checks ?bc True 1 (map (link_of D 1) (map Node (chunks_of n ?L)))
      (map (\<lambda>g. block_of D (Node g)) (chunks_of n rest))"
    using flush_levels_step [OF D, where bc = ?bc and ts = rest and hi = "map (\<lambda>g. link_of D 1 (Node g)) full" and level = 0
        and checks = checks and ret = "[]"] n total len
    by (simp add: pending_links_def chunks comp_def del: dag_entry.simps)
  then have run: "flush_links (df_wire D) cb checks (Balanced ?bc) (pending_links D full rest) True =
    Some (Done ([link_of D d root], map (\<lambda>g. block_of D (Node g)) (chunks_of n rest) @
      level_blocks D n (map Node (chunks_of n ?L))))"
    unfolding flush_links_def collector.case d .
  have level: "level_blocks D n ?L = map (\<lambda>g. block_of D (Node g)) full @ map (\<lambda>g. block_of D (Node g)) (chunks_of n rest) @
      level_blocks D n (map Node (chunks_of n ?L))"
    unfolding level_blocks_step [OF n L] by (simp add: chunks)
  have "chunks_of n rest \<noteq> []" using rest n by (intro chunks_of_not_Nil) auto
  then have "last (map (\<lambda>g. block_of D (Node g)) (chunks_of n rest) @ level_blocks D n (map Node (chunks_of n ?L))) =
      last (level_blocks D n ?L)"
    by (simp add: level last_append)
  then show ?thesis
    using run False last_level_blocks [OF n L root(1), of D] \<open>chunks_of n rest \<noteq> []\<close> level by auto
qed

text \<open>The last leaf: pending links stand for all leaves of the file, and everything but the link blocks still to come has been
  emitted.\<close>

lemma finish_leaf_adding:
  assumes D: "dag_hashing cb D" and n: "0 < n" and fa: "adding D n mx content fa emitted"
  shows "\<exists>full rest last_leaf.
    flush_buffered_leaf (df_wire D) cb (block_buffer fa) (unflushed_links fa) True (fa_cid_version fa) =
      Done (pending_links D full rest, last_leaf) \<and>
    file_leaves mx content = concat full @ rest \<and> (\<forall>g \<in> set full. length g = n) \<and> rest \<noteq> [] \<and>
    mset emitted + mset (case last_leaf of None \<Rightarrow> [] | Some b \<Rightarrow> [b]) =
      mset (concat (map (dag_blocks D) (file_leaves mx content))) + mset (map (\<lambda>g. block_of D (Node g)) full) \<and>
    (length (file_leaves mx content) = 1 \<longrightarrow>
      last_leaf = (if length content = mx then None else Some (block_of D (Leaf content))))"
proof -
  define buf where "buf = block_buffer fa"
  from fa obtain cs full rest where
    st: "fa_cid_version fa = df_leaf D" "length buf < mx"
    and cs: "content = concat cs @ buf" "\<forall>c \<in> set cs. length c = mx" "map Leaf cs = concat full @ rest"
      "\<forall>g \<in> set full. length g = n" "length rest \<le> n" "cs = [] \<or> rest \<noteq> []"
    and links: "unflushed_links fa = pending_links D full rest"
    and em: "mset emitted = mset (map (\<lambda>c. block_of D (Leaf c)) cs) + mset (map (\<lambda>g. block_of D (Node g)) full)"
    unfolding adding_def buf_def by blast
  show ?thesis
  proof (cases "buf \<noteq> [] \<or> cs = []")
    case True
    have leaves: "file_leaves mx content = map Leaf (cs @ [buf])"
      using True st(2) file_leaves_append [of mx cs buf] cs(2)
      by (cases "cs = []") (auto simp: cs(1) file_leaves_def chunks_of_short)
    have "full = [] \<and> rest = []" if "cs = []" using that cs(3,4) n by (cases full) auto
    then have leaf: "flush_buffered_leaf (df_wire D) cb buf (pending_links D full rest) True (df_leaf D) =
        Done (pending_links D full rest @ [link_of D 0 (Leaf buf)], Some (block_of D (Leaf buf)))"
      using True by (intro flush_buffered_leaf_dag [OF D]) (auto simp: pending_links_def)
    have single: "length content \<noteq> mx" "buf = content" if "length (file_leaves mx content) = 1"
    proof -
      have "cs = []" using that unfolding leaves by simp
      then show "length content \<noteq> mx" "buf = content" using st(2) by (simp_all add: cs(1))
    qed
    show ?thesis
    proof (intro exI conjI)
      show "flush_buffered_leaf (df_wire D) cb (block_buffer fa) (unflushed_links fa) True (fa_cid_version fa) =
          Done (pending_links D full (rest @ [Leaf buf]), Some (block_of D (Leaf buf)))"
        using leaf by (simp add: links st(1) buf_def [symmetric] pending_links_def)
      show "file_leaves mx content = concat full @ (rest @ [Leaf buf])" by (simp add: leaves cs(3))
      show "mset emitted + mset (case Some (block_of D (Leaf buf)) of None \<Rightarrow> [] | Some b \<Rightarrow> [b]) =
          mset (concat (map (dag_blocks D) (file_leaves mx content))) + mset (map (\<lambda>g. block_of D (Node g)) full)"
        unfolding leaves concat_dag_blocks_leaves by (simp add: em)
    qed (use cs(4) single in auto)
  next
    case False
    then have ne: "buf = []" "cs \<noteq> []" "rest \<noteq> []" using cs(6) by auto
    have leaves: "file_leaves mx content = map Leaf cs"
      using ne file_leaves_append [of mx cs "[]"] cs(2) st(2) by (simp add: cs(1))
    have leaf: "flush_buffered_leaf (df_wire D) cb buf (pending_links D full rest) True (df_leaf D) = Done (pending_links D full rest, None)"
      using ne by (simp add: flush_buffered_leaf_def pending_links_def)
    have single: "length content = mx" if "length (file_leaves mx content) = 1"
      using that cs(2) unfolding leaves by (cases cs) (auto simp: cs(1) ne)
    show ?thesis
    proof (intro exI conjI)
      show "flush_buffered_leaf (df_wire D) cb (block_buffer fa) (unflushed_links fa) True (fa_cid_version fa) =
          Done (pending_links D full rest, None)"
        using leaf by (simp add: links st(1) buf_def [symmetric])
      show "file_leaves mx content = concat full @ rest" by (simp add: leaves cs(3))
      show "mset emitted + mset (case None of None \<Rightarrow> [] | Some b \<Rightarrow> [b]) =
          mset (concat (map (dag_blocks D) (file_leaves mx content))) + mset (map (\<lambda>g. block_of D (Node g)) full)"
        unfolding leaves concat_dag_blocks_leaves by (simp add: em)
    qed (use cs(4) ne single in auto)
  qed
qed

lemma file_leaves_one_chunk: "length content = mx \<Longrightarrow> 0 < mx \<Longrightarrow> file_leaves mx content = [Leaf content]"
  by (auto simp: file_leaves_def chunks_of_short)

lemma finish_adding:
  assumes D: "pb_wire_ok (df_wire D)" "dag_hashing cb D" and n: "2 \<le> n"
    and fa: "adding D n mx content fa emitted"
    and total: "checks \<longrightarrow> de_total (dag_entry D (file_dag n mx content)) < 2 ^ 64"
  shows "\<exists>bs. finish (df_wire D) cb checks fa = Some (Done bs) \<and>
    mset (emitted @ bs) = mset (dag_blocks D (file_dag n mx content)) \<and>
    (if length content = mx then bs = [] \<and> file_dag n mx content = Leaf content
     else bs \<noteq> [] \<and> last bs = block_of D (file_dag n mx content))"
proof -
  let ?root = "file_dag n mx content"
  let ?L = "file_leaves mx content"
  have mx: "0 < mx" using fa by (auto simp: adding_def)
  have root: "balanced n ?L = [?root]" by (rule balanced_file_leaves [OF n mx])
  obtain full rest last_leaf where
    leaf: "flush_buffered_leaf (df_wire D) cb (block_buffer fa) (unflushed_links fa) True (fa_cid_version fa) =
      Done (pending_links D full rest, last_leaf)" and
    L: "?L = concat full @ rest" "\<forall>g \<in> set full. length g = n" "rest \<noteq> []" and
    em: "mset emitted + mset (case last_leaf of None \<Rightarrow> [] | Some b \<Rightarrow> [b]) =
      mset (concat (map (dag_blocks D) ?L)) + mset (map (\<lambda>g. block_of D (Node g)) full)" and
    single: "length ?L = 1 \<longrightarrow> last_leaf = (if length content = mx then None else Some (block_of D (Leaf content)))"
    using finish_leaf_adding [OF D(2) _ fa] n by fastforce
  from flush_links_finish [OF D n L(2,3) root [unfolded L(1)] total]
  obtain links' bs where run: "flush_links (df_wire D) cb checks (Balanced \<lparr>branching_factor = n, bc_cid_version = df_node D\<rparr>)
      (pending_links D full rest) True = Some (Done (links', bs))" and
    bs: "if length ?L = 1 then bs = []
      else bs \<noteq> [] \<and> last bs = block_of D ?root \<and>
        mset (map (\<lambda>g. block_of D (Node g)) full) + mset bs = mset (level_blocks D n ?L)"
    unfolding L(1) by blast
  have "fa_collector fa = Balanced \<lparr>branching_factor = n, bc_cid_version = df_node D\<rparr>" using fa by (simp add: adding_def)
  then have fin: "finish (df_wire D) cb checks fa = Some (Done ((case last_leaf of None \<Rightarrow> [] | Some b \<Rightarrow> [b]) @ bs))"
    using leaf run by (simp add: finish_def flush_buffered_links_def)
  have blocks: "mset (dag_blocks D ?root) = mset (concat (map (dag_blocks D) ?L)) + mset (level_blocks D n ?L)"
    using mset_level_blocks [OF n, of D ?L] by (simp add: root)
  show ?thesis
  proof (cases "length ?L = 1")
    case True
    then have one: "?L = [?root]" "bs = []" "full = []"
      using root bs L(2,3) n by (auto simp: balanced_short L(1)) (cases full; auto)+
    have "\<forall>t \<in> set ?L. \<exists>b. t = Leaf b" by (auto simp: file_leaves_def)
    then obtain b where "?root = Leaf b" using one(1) by auto
    then have "?root = Leaf content" using dag_bytes_file_dag [OF n mx, of content] by simp
    then show ?thesis
      using fin em blocks True single one by (auto simp: level_blocks_short)
  next
    case False
    then have "length content \<noteq> mx" using file_leaves_one_chunk [OF _ mx] by auto
    moreover have bs': "bs \<noteq> []" "last bs = block_of D ?root"
        "mset (map (\<lambda>g. block_of D (Node g)) full) + mset bs = mset (level_blocks D n ?L)"
      using bs False by simp_all
    moreover have "mset (emitted @ (case last_leaf of None \<Rightarrow> [] | Some b \<Rightarrow> [b]) @ bs) = mset (dag_blocks D ?root)"
      unfolding mset_append add.assoc [symmetric] em blocks bs'(3) [symmetric] ..
    ultimately show ?thesis using fin by simp
  qed
qed

lemma adding_start:
  assumes "0 < mx"
  shows "adding D n mx [] \<lparr>fa_chunker = Size mx, fa_collector = Balanced \<lparr>branching_factor = n, bc_cid_version = df_node D\<rparr>,
    block_buffer = [], unflushed_links = [], fa_cid_version = df_leaf D\<rparr> []"
  unfolding adding_def using assms
  by (intro conjI exI [of _ "[]"]) (simp_all add: pending_links_def)

lemma collect_loop_adding:
  assumes D: "pb_wire_ok (df_wire D)" "dag_hashing cb D" and n: "0 < n" and amt: "content = [] \<or> 0 < amt"
    and fa: "adding D n mx (take written content) fa emitted"
    and total: "checks \<longrightarrow> 2 \<le> n \<and> de_total (dag_entry D (file_dag n mx content)) < 2 ^ 64"
  shows "\<exists>fa' bs. adding D n mx content fa' (emitted @ bs) \<and>
    collect_loop (df_wire D) cb checks content amt fa written emitted =
    map_option (\<lambda>r. bind_exec r (\<lambda>last_blocks. Done ((emitted @ bs) @ last_blocks))) (finish (df_wire D) cb checks fa')"
  using fa
proof (induction "length content - written" arbitrary: written fa emitted rule: less_induct)
  case less
  show ?case
  proof (cases "written < length content")
    case False
    with less(2) show ?thesis
      by (intro exI [of _ fa] exI [of _ "[]"]) (subst collect_loop.simps, simp)
  next
    case True
    define piece where "piece = take (min (length content - written) amt) (drop written content)"
    have piece: "piece \<noteq> []" using True amt by (auto simp: piece_def)
    have split: "content = take written content @ piece @ drop (min (length content - written) amt) (drop written content)"
      unfolding piece_def by (metis append_take_drop_id)
    obtain fa' bs k where step: "push (df_wire D) cb checks piece fa = Some (Done (fa', bs, k))" "0 < k" "k \<le> length piece"
      "adding D n mx (take written content @ take k piece) fa' (emitted @ bs)"
      using push_adding [OF D n less(2) piece, of checks "drop (min (length content - written) amt) (drop written content)"]
        total split by auto
    have taken: "take written content @ take k piece = take (written + k) content"
      using step(3) True by (simp add: piece_def take_add min_def split: if_splits)
    have run: "collect_loop (df_wire D) cb checks content amt fa written emitted =
        collect_loop (df_wire D) cb checks content amt fa' (written + k) (emitted @ bs)"
      using True step(1) by (subst collect_loop.simps) (simp add: Let_def piece_def)
    have "length content - (written + k) < length content - written" using True step(2) by simp
    from less(1) [OF this, of fa' "emitted @ bs"] step(4) obtain fa2 bs2 where
      "adding D n mx content fa2 ((emitted @ bs) @ bs2)"
      "collect_loop (df_wire D) cb checks content amt fa' (written + k) (emitted @ bs) =
        map_option (\<lambda>r. bind_exec r (\<lambda>last_blocks. Done (((emitted @ bs) @ bs2) @ last_blocks))) (finish (df_wire D) cb checks fa2)"
      unfolding taken by blast
    then show ?thesis unfolding run by (intro exI [of _ fa2] exI [of _ "bs @ bs2"]) simp
  qed
qed

text \<open>An adder as \<open>FileAdder::builder\<close> makes it, with its CID version set as \<open>add\<close> does.\<close>

lemma build_adder:
  assumes "with_branching_factor n = Done bc" "df_node D = DEFAULT_CID_VERSION"
  shows "(build (with_chunker (Size mx) (with_collector bc adder_builder_default)))\<lparr>fa_cid_version := df_leaf D\<rparr> =
    \<lparr>fa_chunker = Size mx, fa_collector = Balanced \<lparr>branching_factor = n, bc_cid_version = df_node D\<rparr>,
     block_buffer = [], unflushed_links = [], fa_cid_version = df_leaf D\<rparr>" "0 < n"
  using assms
  by (auto simp: build_def with_chunker_def with_collector_def adder_builder_default_def file_adder_default_def
      with_branching_factor_def split: if_splits)

section \<open>The adder builds the balanced tree\<close>


section \<open>A branching factor of one\<close>

lemma chunks_of_1: "chunks_of (Suc 0) xs = map (\<lambda>x. [x]) xs"
  by (induction xs) (simp_all add: chunks_of_Cons)

text \<open>Every level turns each link into a link block of its own, so the number of links never falls.\<close>

lemma flush_levels_one:
  assumes D: "pb_wire_ok (df_wire D)" "dag_hashing cb D"
    and bc: "bc = \<lparr>branching_factor = 1, bc_cid_version = df_node D\<rparr>"
    and "2 \<le> length links" "links = map (\<lambda>t. link_of D 1 (Node [t])) hi @ map (link_of D 0) ts \<and> level = 0 \<or>
      links = map (link_of D level) ts"
  shows "flush_levels (df_wire D) cb False bc True level links ret = None"
proof (rule ccontr)
  have bc1: "bc_cid_version bc = df_node D" "0 < branching_factor bc" "branching_factor bc = 1" by (simp_all add: bc)
  define stuck where "stuck level links \<longleftrightarrow> 2 \<le> length links \<and>
    (\<exists>hi ts. links = map (\<lambda>t. link_of D 1 (Node [t])) hi @ map (link_of D 0) ts \<and> level = 0 \<or> links = map (link_of D level) ts)"
    for level links
  assume "flush_levels (df_wire D) cb False bc True level links ret \<noteq> None"
  then obtain y where "flush_levels (df_wire D) cb False bc True level links ret = Some y" by auto
  then have "df_wire D = df_wire D \<and> cb = cb \<and> \<not> False \<and> bc = bc \<and> True \<longrightarrow> \<not> stuck level links"
  proof (rule flush_levels.raw_induct [where P = "\<lambda>pw' cb' checks' bc' finishing' level links ret y.
      pw' = df_wire D \<and> cb' = cb \<and> \<not> checks' \<and> bc' = bc \<and> finishing' \<longrightarrow> \<not> stuck level links", rotated], intro impI notI, elim conjE)
    fix f pw' cb' checks' bc' finishing' level links ret y
    assume IH: "\<And>pw' cb' checks' bc' finishing' level links ret y. f pw' cb' checks' bc' finishing' level links ret = Some y \<Longrightarrow>
        pw' = df_wire D \<and> cb' = cb \<and> \<not> checks' \<and> bc' = bc \<and> finishing' \<longrightarrow> \<not> stuck level links"
      and eqs: "pw' = df_wire D" "cb' = cb" "\<not> checks'" "bc' = bc" "finishing'" and st: "stuck level links"
      and body: "(if length links = 1 \<and> finishing' \<or> length links \<le> branching_factor bc' \<and> \<not> finishing'
        then Some (Done (links, ret))
        else Option.bind (flush_level pw' cb' checks' bc' finishing' level links 0 None ret) (\<lambda>r. case r of
            Done (break_outer, pending, last_overwrite, ret) \<Rightarrow>
              if break_outer then Some (Done (pending, ret))
              else let pending = case last_overwrite of None \<Rightarrow> pending | Some lo \<Rightarrow> take (lo + 1) pending
                in if checks' \<and> position (\<lambda>l. depth l = level) pending \<noteq> None then Some Panic
                  else f pw' cb' checks' bc' finishing' (level + 1) pending ret
          | Panic \<Rightarrow> Some Panic)) = Some y"
    obtain hi ts where links: "links = map (\<lambda>t. link_of D (level + 1) (Node [t])) hi @ map (link_of D level) ts"
      using st unfolding stuck_def by (metis add_0 append_Nil list.simps(8))
    let ?new = "map (link_of D (level + 1)) (map (\<lambda>t. Node [t]) (hi @ ts))"
    from flush_level_pass [OF D bc1(1,2), of ts False "map (\<lambda>t. link_of D (level + 1) (Node [t])) hi" level ret]
    obtain junk lo blocks where ov: "overwrite_ok ?new junk lo" and
      run: "flush_level (df_wire D) cb False bc True level links 0 None ret = Some (Done (False, ?new @ junk, lo, blocks))"
      by (auto simp: links bc1(3) chunks_of_1 comp_def)
    have len: "2 \<le> length ?new" "length links \<noteq> 1" using st by (auto simp: links stuck_def)
    have next_level: "f (df_wire D) cb False bc True (level + 1) ?new blocks = Some y"
      using body eqs run len(2) truncate_overwritten [OF ov] by (simp add: Let_def del: map_map map_append One_nat_def Suc_eq_plus1 add_Suc_right)
    have "stuck (level + 1) ?new" unfolding stuck_def using len(1) by blast
    with IH [OF next_level] show False by simp
  qed
  then have "\<not> stuck level links" by simp
  moreover have "stuck level links" unfolding stuck_def using assms(4,5) by blast
  ultimately show False by (rule notE)
qed

text \<open>
  The collector accepts a branching factor of one, but with it a file of more than one chunk
  is never finished: whatever the slices it is pushed in, the loop over the levels runs forever (in a build without overflow
  checks).
\<close>

theorem branching_factor_one_never_finishes:
  assumes "pb_wire_ok (df_wire D)" and "dag_hashing cb D" and "df_node D = DEFAULT_CID_VERSION"
    and "with_branching_factor 1 = Done bc" and "0 < mx" and "mx < length content"
  shows "collect_blocks (df_wire D) cb False
    ((build (with_chunker (Size mx) (with_collector bc adder_builder_default)))\<lparr>fa_cid_version := df_leaf D\<rparr>) content amt = None"
proof -
  let ?adder = "\<lparr>fa_chunker = Size mx, fa_collector = Balanced \<lparr>branching_factor = 1, bc_cid_version = df_node D\<rparr>,
      block_buffer = [], unflushed_links = [], fa_cid_version = df_leaf D\<rparr>"
  let ?amt = "if amt = 0 then length content else amt"
  have start: "adding D 1 mx (take 0 content) ?adder []" using adding_start assms(5) by simp
  have amt: "content = [] \<or> 0 < ?amt" using assms(6) by auto
  have "False \<longrightarrow> 2 \<le> (1 :: nat) \<and> de_total (dag_entry D (file_dag 1 mx content)) < 2 ^ 64" by simp
  from collect_loop_adding [OF assms(1,2) zero_less_one amt start this]
  obtain fa bs where fa: "adding D 1 mx content fa bs"
    "collect_loop (df_wire D) cb False content ?amt ?adder 0 [] =
     map_option (\<lambda>r. bind_exec r (\<lambda>last_blocks. Done (bs @ last_blocks))) (finish (df_wire D) cb False fa)"
    unfolding append_Nil by blast
  obtain full rest last_leaf where
    leaf: "flush_buffered_leaf (df_wire D) cb (block_buffer fa) (unflushed_links fa) True (fa_cid_version fa) =
      Done (pending_links D full rest, last_leaf)" and
    L: "file_leaves mx content = concat full @ rest" "\<forall>g \<in> set full. length g = 1"
    using finish_leaf_adding [OF assms(2) zero_less_one fa(1)] by blast
  have full: "full = map (\<lambda>t. [t]) (concat full)"
    using L(2) by (induction full) (auto simp: length_Suc_conv)
  have "2 \<le> length (file_leaves mx content)"
    using assms(5,6) by (auto simp: file_leaves_def chunks_of_Cons [of mx content] chunks_of_Cons [of mx "drop mx content"])
  then have len: "2 \<le> length (pending_links D full rest)"
    using arg_cong [OF full, of length] by (simp add: L(1) pending_links_def)
  have "flush_levels (df_wire D) cb False \<lparr>branching_factor = 1, bc_cid_version = df_node D\<rparr> True 0 (pending_links D full rest) [] = None"
    by (rule flush_levels_one [OF assms(1,2) refl len, where hi = "concat full" and ts = rest])
      (simp add: pending_links_def, subst full, simp)
  moreover have "fa_collector fa = Balanced \<lparr>branching_factor = 1, bc_cid_version = df_node D\<rparr>" using fa(1) by (simp add: adding_def)
  ultimately have "finish (df_wire D) cb False fa = None"
    using leaf by (simp add: finish_def flush_buffered_links_def flush_links_def)
  then show ?thesis unfolding build_adder(1) [OF assms(4,3)] collect_blocks_def fa(2) by simp
qed

section \<open>Witnesses\<close>

text \<open>A concrete instance of the parameters: a CID is its version with the hashed bytes, and hashing keeps the bytes.\<close>

definition example_cids :: "(version \<times> bytes, bytes, unit) cid_build" where
  "example_cids = \<lparr>co_version = fst, co_hash = snd, co_to_v1 = \<lambda>c. (V1, snd c),
     co_to_bytes = \<lambda>c. (case fst c of V0 \<Rightarrow> 0 | V1 \<Rightarrow> 1) # snd c, co_to_string = \<lambda>c. (case fst c of V0 \<Rightarrow> 0 | V1 \<Rightarrow> 1) # snd c,
     co_from_bytes = \<lambda>b. (case b of [] \<Rightarrow> Err () | v # h \<Rightarrow> if v = 0 then Ok (V0, h) else if v = 1 then Ok (V1, h) else Err ()),
     co_from_string = \<lambda>b. (case b of [] \<Rightarrow> Err () | v # h \<Rightarrow> if v = 0 then Ok (V0, h) else if v = 1 then Ok (V1, h) else Err ()),
     cb_sha256 = \<lambda>b. b, cb_wrap = Some, cb_new_v0 = \<lambda>h. Ok (V0, h), cb_new_v1 = \<lambda>_ h. (V1, h)\<rparr>"

definition example_format :: "version \<Rightarrow> (unit, version \<times> bytes) dag_format" where
  "example_format v = \<lparr>df_wire = protobuf, df_bytes = co_to_bytes example_cids, df_cid = Pair, df_leaf = v, df_node = V0\<rparr>"

lemma example_hashing: "dag_hashing example_cids (example_format v)"
  by (simp add: dag_hashing_def example_format_def example_cids_def create_cid_def split: version.split)

lemma example_format_simps [simp]:
  "df_wire (example_format v) = protobuf" "df_leaf (example_format v) = v" "df_node (example_format v) = DEFAULT_CID_VERSION"
  by (simp_all add: example_format_def DEFAULT_CID_VERSION_def)

definition example_collector :: "nat \<Rightarrow> balanced_collector" where
  "example_collector n = \<lparr>branching_factor = n, bc_cid_version = DEFAULT_CID_VERSION\<rparr>"

lemma length_varint_two: "128 \<le> n \<Longrightarrow> n < 16384 \<Longrightarrow> length (varint n) = 2"
  by (subst varint.simps) (simp add: length_varint_less less_mult_imp_div_less)

lemma protobuf_sizes:
  "sizeof_varint protobuf v = length (varint (unat v))" "sizeof_len protobuf n = length (varint n) + n"
  by (simp_all add: protobuf_def)

lemmas example_sizes = length_flat_write [OF protobuf_ok] flat_get_size_def unix_fs_get_size_def unix_fs_default_def
  pb_link_get_size_def protobuf_sizes length_varint_less length_varint_two unat_of_nat

lemma example_leaf_size: "0 < length b \<Longrightarrow> length b < 100 \<Longrightarrow> length (flat_write protobuf (leaf_flat b)) = 8 + length b"
  by (simp add: example_sizes leaf_flat_def)

lemma example_leaf_entry:
  assumes "0 < length b" "length b < 100"
  shows "de_total (dag_entry (example_format v) (Leaf b)) = 8 + length b"
    "length (df_bytes (example_format v) (de_cid (dag_entry (example_format v) (Leaf b)))) = 9 + length b"
    "de_size (dag_entry (example_format v) (Leaf b)) = length b"
    "de_block (dag_entry (example_format v) (Leaf b)) = flat_write protobuf (leaf_flat b)"
  using example_leaf_size [OF assms] by (simp_all add: Let_def example_format_def example_cids_def)

lemma example_tree: "file_dag 2 2 [1, 2, 3] = Node [Leaf [1, 2], Leaf [3]]"
  by (simp add: file_dag_def file_leaves_def chunks_of.simps balanced.simps)

lemma example_node_size:
  "length (flat_write protobuf (node_flat (example_format v)
    [dag_entry (example_format v) (Leaf [1, 2]), dag_entry (example_format v) (Leaf [3])])) = 47"
  by (simp add: node_flat_def example_leaf_entry example_sizes del: dag_entry.simps)

lemma example_total: "de_total (dag_entry (example_format v) (file_dag 2 2 [1, 2, 3])) < 2 ^ 64"
  using example_leaf_entry [of "[1, 2]" v] example_leaf_entry [of "[3]" v] example_node_size [of v]
  by (simp add: example_tree dag_entry.simps(2) Let_def del: dag_entry.simps(1))


theorem branching_factor_one_never_finishes_witness:
  "collect_blocks protobuf example_cids False
    ((build (with_chunker (Size 2) (with_collector (example_collector 1) adder_builder_default)))\<lparr>fa_cid_version := V0\<rparr>)
    [1, 2, 3] 0 = None"
  using branching_factor_one_never_finishes [where D = "example_format V0" and cb = example_cids and mx = 2
      and bc = "example_collector 1" and content = "[1, 2, 3]" and amt = 0] protobuf_ok example_hashing [of V0]
  by (simp add: with_branching_factor_def example_collector_def)

end
