(* ===== verification/Unixfs_Visit.thy ===== *)
theory Unixfs_Visit
  imports Unixfs_Adder
begin

text \<open>
  Reading a UnixFS file, \<open>utils/rust-ipfs/unixfs/src/file\<close>: the block-level reader with its checks on the order of the
  blocks (\<open>reader.rs\<close>) and the visitor that keeps the links still to be followed (\<open>visit.rs\<close>), optionally restricted to
  a byte range.  The errors are those of \<open>file.rs\<close>.  The main results are that a visit of a tree the adder
  built yields the content of the tree in order, or the requested range of it, and the two inputs on which the code
  panics instead of reporting an error.
\<close>

section \<open>Errors and metadata\<close>

record file_metadata =
  md_mode :: "u32 option"
  md_mtime :: "(u64 \<times> u32) option"

definition metadata_from :: "unix_fs \<Rightarrow> file_metadata" where
  "metadata_from data =
     \<lparr>md_mode = mode data,
      md_mtime = map_option (\<lambda>ut. (Seconds ut, case FractionalNanoseconds ut of Some n \<Rightarrow> n | None \<Rightarrow> 0)) (mtime data)\<rparr>"

datatype file_error =
    LinksAndBlocksizesMismatch
  | NoLinksNoContent
  | NonRootDefinesMetadata file_metadata
  | IntermediateNodeWithoutFileSize
  | TreeExpandsOnLinks
  | TreeOverlapsBetweenLinks
  | EarlierLink
  | TreeJumpsBetweenLinks
  | UnexpectedRawOrFileProperties "u64 option" "u64 option"

record 'ce invalid_cid_in_link =
  ic_nth :: nat
  ic_hash :: bytes
  ic_name :: bytes
  ic_source :: 'ce

datatype ('e, 'ce) file_read_failed =
    FileFailed file_error
  | UnexpectedType u32
  | Read "'e option"
  | InvalidCid "'ce invalid_cid_in_link"

definition file_read_failed_from :: "'e parsing_failed \<Rightarrow> ('e, 'ce) file_read_failed" where
  "file_read_failed_from e =
     (case e of InvalidDagPb e \<Rightarrow> Read (Some e) | InvalidUnixFs e _ \<Rightarrow> Read (Some e) | NoData _ \<Rightarrow> Read None)"

definition invalid_cid_in_link_from :: "nat \<Rightarrow> pb_link \<Rightarrow> 'ce \<Rightarrow> 'ce invalid_cid_in_link" where
  "invalid_cid_in_link_from n link src =
     \<lparr>ic_nth = n, ic_hash = (case Hash link of Some h \<Rightarrow> h | None \<Rightarrow> []),
      ic_name = (case Name link of Some s \<Rightarrow> s | None \<Rightarrow> []), ic_source = src\<rparr>"

section \<open>The reader\<close>

datatype ending = TreeCoverage u64 | Chunk u64

definition check_is_suitable_next :: "ending \<Rightarrow> u64 \<Rightarrow> u64 \<times> u64 \<Rightarrow> (unit, file_error) result" where
  "check_is_suitable_next ending offset nxt =
     (case ending of
        TreeCoverage cover_end \<Rightarrow>
          if fst nxt \<le> offset \<and> cover_end < snd nxt then Err TreeExpandsOnLinks
          else if fst nxt < cover_end \<and> cover_end < snd nxt then Err TreeOverlapsBetweenLinks
          else if fst nxt < offset then Err EarlierLink
          else Ok ()
      | Chunk chunk_end \<Rightarrow> if fst nxt \<noteq> chunk_end then Err TreeJumpsBetweenLinks else Ok ())"

record file_reader =
  fr_offset :: u64
  fr_end :: ending
  fr_links :: "pb_link list"
  fr_data :: bytes
  fr_blocksizes :: "u64 list"
  fr_metadata :: file_metadata
  fr_file_size :: u64

record traversal =
  last_ending :: ending
  last_offset :: u64
  tr_file_size :: u64
  tr_metadata :: file_metadata

definition from_parts ::
  "bool \<Rightarrow> flat_unix_fs \<Rightarrow> u64 \<Rightarrow> file_metadata \<Rightarrow> (file_reader, ('e, 'ce) file_read_failed) result exec" where
  "from_parts checks inner offset metadata =
     (let d = flat_data inner;
          empty_or_no_content = (case Data d of Some b \<Rightarrow> b = [] | None \<Rightarrow> True);
          is_zero_bytes = ((case filesize d of Some n \<Rightarrow> n | None \<Rightarrow> 0) = 0) in
      if Type d \<noteq> File \<and> Type d \<noteq> Raw then Done (Err (UnexpectedType (data_type_into (Type d))))
      else if length (flat_links inner) \<noteq> length (blocksizes d) then Done (Err (FileFailed LinksAndBlocksizesMismatch))
      else if empty_or_no_content \<and> \<not> is_zero_bytes \<and> flat_links inner = [] then Done (Err (FileFailed NoLinksNoContent))
      else
        (let data = (case Data d of Some b \<Rightarrow> b | None \<Rightarrow> []) in
         if hashType d \<noteq> None \<or> fanout d \<noteq> None
         then Done (Err (FileFailed (UnexpectedRawOrFileProperties (hashType d) (fanout d))))
         else
           bind_exec
             (if flat_links inner = [] then
                bind_exec (add_u64 checks offset (case filesize d of Some n \<Rightarrow> n | None \<Rightarrow> of_nat (length data)))
                  (\<lambda>e. Done (Ok (Chunk e)))
              else
                (case filesize d of
                   Some n \<Rightarrow> bind_exec (add_u64 checks offset n) (\<lambda>e. Done (Ok (TreeCoverage e)))
                 | None \<Rightarrow> Done (Err (FileFailed IntermediateNodeWithoutFileSize))))
             (\<lambda>r. case r of
                Err e \<Rightarrow> Done (Err e)
              | Ok ending \<Rightarrow>
                  bind_exec (expect (filesize d)) (\<lambda>n.
                  Done (Ok \<lparr>fr_offset = offset, fr_end = ending, fr_links = flat_links inner, fr_data = data,
                    fr_blocksizes = blocksizes d, fr_metadata = metadata, fr_file_size = n\<rparr>)))))"

definition from_parsed ::
  "bool \<Rightarrow> flat_unix_fs \<Rightarrow> (file_reader, ('e, 'ce) file_read_failed) result exec" where
  "from_parsed checks inner = from_parts checks inner 0 (metadata_from (flat_data inner))"

definition from_block ::
  "'e pb_wire \<Rightarrow> bool \<Rightarrow> bytes \<Rightarrow> (file_reader, ('e, 'ce) file_read_failed) result exec option" where
  "from_block pw checks data =
     map_option (\<lambda>r. case r of Err e \<Rightarrow> Done (Err (file_read_failed_from e)) | Ok inner \<Rightarrow> from_parsed checks inner)
       (flat_try_from pw data)"

definition from_continued ::
  "'e pb_wire \<Rightarrow> bool \<Rightarrow> traversal \<Rightarrow> u64 \<Rightarrow> bytes \<Rightarrow> (file_reader, ('e, 'ce) file_read_failed) result exec option" where
  "from_continued pw checks tr offset data =
     map_option (\<lambda>r. case r of
         Err e \<Rightarrow> Done (Err (file_read_failed_from e))
       | Ok inner \<Rightarrow>
           if mode (flat_data inner) \<noteq> None \<or> mtime (flat_data inner) \<noteq> None
           then Done (Err (FileFailed (NonRootDefinesMetadata (metadata_from (flat_data inner)))))
           else from_parts checks inner offset (tr_metadata tr))
       (flat_try_from pw data)"

datatype file_content = Bytes bytes | FileLinks "(pb_link \<times> u64) list" u64

text \<open>The links are handed out as the iterator \<open>RangeLinks\<close>: the zipped links and the offset they start at.\<close>

definition reader_content :: "file_reader \<Rightarrow> file_content \<times> traversal" where
  "reader_content fr =
     (if fr_links fr = [] then Bytes (fr_data fr) else FileLinks (zip (fr_links fr) (fr_blocksizes fr)) (fr_offset fr),
      \<lparr>last_ending = fr_end fr, last_offset = fr_offset fr, tr_file_size = fr_file_size fr, tr_metadata = fr_metadata fr\<rparr>)"

definition traversal_continue_walk ::
  "'e pb_wire \<Rightarrow> bool \<Rightarrow> traversal \<Rightarrow> bytes \<Rightarrow> u64 \<times> u64 \<Rightarrow> (file_reader, ('e, 'ce) file_read_failed) result exec option" where
  "traversal_continue_walk pw checks tr next_block tree_range =
     (case check_is_suitable_next (last_ending tr) (last_offset tr) tree_range of
        Err e \<Rightarrow> Some (Done (Err (FileFailed e)))
      | Ok _ \<Rightarrow> from_continued pw checks tr (fst tree_range) next_block)"

section \<open>The visitor\<close>

definition to_pending ::
  "('cid, 'h, 'ce, 'z) cid_ops_scheme \<Rightarrow> nat \<Rightarrow> pb_link \<Rightarrow> u64 \<times> u64 \<Rightarrow> ('cid \<times> (u64 \<times> u64), ('e, 'ce) file_read_failed) result" where
  "to_pending co n link rng =
     (case co_from_bytes co (case Hash link of Some h \<Rightarrow> h | None \<Rightarrow> []) of
        Ok cid \<Rightarrow> Ok (cid, rng)
      | Err e \<Rightarrow> Err (InvalidCid (invalid_cid_in_link_from n link e)))"

definition block_is_in_target_range :: "u64 \<times> u64 \<Rightarrow> (u64 \<times> u64) option \<Rightarrow> bool" where
  "block_is_in_target_range block tgt =
     (case tgt of
        Some t \<Rightarrow> max (fst block) (fst t) \<le> min (snd block) (snd t)
      | None \<Rightarrow> True)"

text \<open>The slice \<open>&content[start..end]\<close> panics when it does not lie inside the content.\<close>

definition slice :: "bytes \<Rightarrow> nat \<Rightarrow> nat \<Rightarrow> bytes exec" where
  "slice content s e = (if s \<le> e \<and> e \<le> length content then Done (take (e - s) (drop s content)) else Panic)"

definition target_slice :: "bytes \<Rightarrow> u64 \<times> u64 \<Rightarrow> u64 \<times> u64 \<Rightarrow> bytes exec" where
  "target_slice content block tgt =
     (if \<not> block_is_in_target_range block (Some tgt) then Done []
      else if fst tgt < fst block then
        slice content 0 (unat (min (snd tgt) (snd block) - fst block))
      else if snd block < snd tgt then
        slice content (unat (fst tgt - fst block)) (unat (min (snd tgt) (snd block) - fst block))
      else
        slice content (unat (fst tgt - fst block)) (unat (fst tgt - fst block) + unat (snd tgt - fst tgt)))"

definition maybe_target_slice :: "bytes \<Rightarrow> u64 \<times> u64 \<Rightarrow> (u64 \<times> u64) option \<Rightarrow> bytes exec" where
  "maybe_target_slice content block tgt = (case tgt of Some t \<Rightarrow> target_slice content block t | None \<Rightarrow> Done content)"

text \<open>
  The loop that enumerates the links of a block and keeps those in the target range; \<open>acc\<close> holds the kept ones.  The first
  link that is not a CID ends it with an error.
\<close>

fun collect_pending ::
  "('cid, 'h, 'ce, 'z) cid_ops_scheme \<Rightarrow> bool \<Rightarrow> (u64 \<times> u64) option \<Rightarrow> nat \<Rightarrow> (pb_link \<times> u64) list \<Rightarrow> u64 \<Rightarrow>
   ('cid \<times> (u64 \<times> u64)) list \<Rightarrow> (('cid \<times> (u64 \<times> u64)) list, ('e, 'ce) file_read_failed) result exec" where
  "collect_pending co checks tgt i [] base acc = Done (Ok acc)"
| "collect_pending co checks tgt i ((link, blocksize) # inner) base acc =
     bind_exec (add_u64 checks base blocksize) (\<lambda>nxt.
     if \<not> block_is_in_target_range (base, nxt) tgt then collect_pending co checks tgt (Suc i) inner nxt acc
     else case to_pending co i link (base, nxt) of
         Err e \<Rightarrow> Done (Err e)
       | Ok p \<Rightarrow> collect_pending co checks tgt (Suc i) inner nxt (acc @ [p]))"

record 'cid file_visit =
  fv_pending :: "('cid \<times> (u64 \<times> u64)) list"
  fv_range :: "(u64 \<times> u64) option"
  fv_state :: traversal

text \<open>\<open>IdleFileVisit::start\<close> with the target range of the visit.\<close>

definition start_from_reader ::
  "('cid, 'h, 'ce, 'z) cid_ops_scheme \<Rightarrow> bool \<Rightarrow> (u64 \<times> u64) option \<Rightarrow> file_reader \<Rightarrow>
   (bytes \<times> u64 \<times> file_metadata \<times> 'cid file_visit option, ('e, 'ce) file_read_failed) result exec" where
  "start_from_reader co checks rng fr =
     (case reader_content fr of (content, tr) \<Rightarrow>
      (case content of
         Bytes content \<Rightarrow>
           bind_exec (maybe_target_slice content (0, of_nat (length content)) rng) (\<lambda>content.
           Done (Ok (content, tr_file_size tr, fr_metadata fr, None)))
       | FileLinks inner base \<Rightarrow>
           bind_exec (collect_pending co checks rng 0 inner base []) (\<lambda>r.
           case r of
             Err e \<Rightarrow> Done (Err e)
           | Ok links \<Rightarrow>
               if links = [] then Done (Ok ([], tr_file_size tr, fr_metadata fr, None))
               else Done (Ok ([], tr_file_size tr, fr_metadata fr,
                 Some \<lparr>fv_pending = rev links, fv_range = rng, fv_state = tr\<rparr>)))))"

definition visit_start ::
  "'e pb_wire \<Rightarrow> ('cid, 'h, 'ce, 'z) cid_ops_scheme \<Rightarrow> bool \<Rightarrow> (u64 \<times> u64) option \<Rightarrow> bytes \<Rightarrow>
   (bytes \<times> u64 \<times> file_metadata \<times> 'cid file_visit option, ('e, 'ce) file_read_failed) result exec option" where
  "visit_start pw co checks rng block =
     map_option (\<lambda>r. bind_exec r (\<lambda>r. case r of Err e \<Rightarrow> Done (Err e) | Ok fr \<Rightarrow> start_from_reader co checks rng fr))
       (from_block pw checks block)"

text \<open>\<open>pending_links\<close>: the link to be followed next and the remaining ones.\<close>

definition visit_pending_links :: "'cid file_visit \<Rightarrow> ('cid \<times> 'cid list) exec" where
  "visit_pending_links v = (case rev (map fst (fv_pending v)) of [] \<Rightarrow> Panic | first # rest \<Rightarrow> Done (first, rest))"

definition visit_continue_walk ::
  "'e pb_wire \<Rightarrow> ('cid, 'h, 'ce, 'z) cid_ops_scheme \<Rightarrow> bool \<Rightarrow> 'cid file_visit \<Rightarrow> bytes \<Rightarrow>
   (bytes \<times> 'cid file_visit option, ('e, 'ce) file_read_failed) result exec option" where
  "visit_continue_walk pw co checks v nxt =
     (if fv_pending v = [] then Some Panic
      else
        (let rng = snd (last (fv_pending v)); pending = butlast (fv_pending v) in
         map_option (\<lambda>r. bind_exec r (\<lambda>r. case r of
             Err e \<Rightarrow> Done (Err e)
           | Ok fr \<Rightarrow>
               (case reader_content fr of (content, tr) \<Rightarrow>
                (case content of
                   Bytes content \<Rightarrow>
                     bind_exec (maybe_target_slice content rng (fv_range v)) (\<lambda>content.
                     Done (Ok (content, if pending \<noteq> [] then Some (v\<lparr>fv_pending := pending, fv_state := tr\<rparr>) else None)))
                 | FileLinks inner base \<Rightarrow>
                     bind_exec (collect_pending co checks (fv_range v) 0 inner base []) (\<lambda>r.
                     case r of
                       Err e \<Rightarrow> Done (Err e)
                     | Ok links \<Rightarrow> Done (Ok ([], Some (v\<lparr>fv_pending := pending @ rev links, fv_state := tr\<rparr>))))))))
           (traversal_continue_walk pw checks (fv_state v) nxt rng)))"

section \<open>Placed trees\<close>

text \<open>The trees of a list, each with the offset in the file where it starts.\<close>

fun placed :: "nat \<Rightarrow> dag list \<Rightarrow> (nat \<times> dag) list" where
  "placed p [] = []"
| "placed p (t # ts) = (p, t) # placed (p + length (dag_bytes t)) ts"

definition item_end :: "nat \<times> dag \<Rightarrow> nat" where
  "item_end i = fst i + length (dag_bytes (snd i))"

text \<open>The part of a piece of the file at offset \<open>p\<close> that lies in the target range.\<close>

definition clip :: "(u64 \<times> u64) option \<Rightarrow> nat \<Rightarrow> bytes \<Rightarrow> bytes" where
  "clip tgt p bs = (case tgt of None \<Rightarrow> bs | Some (a, b) \<Rightarrow> drop (unat a - p) (take (unat b - p) bs))"

definition in_range :: "(u64 \<times> u64) option \<Rightarrow> nat \<times> dag \<Rightarrow> bool" where
  "in_range tgt i \<longleftrightarrow> (case tgt of None \<Rightarrow> True | Some (a, b) \<Rightarrow> max (fst i) (unat a) \<le> min (item_end i) (unat b))"

definition items_bytes :: "(u64 \<times> u64) option \<Rightarrow> (nat \<times> dag) list \<Rightarrow> bytes" where
  "items_bytes tgt items = concat (map (\<lambda>(p, t). clip tgt p (dag_bytes t)) items)"

lemma clip_append: "clip tgt p (xs @ ys) = clip tgt p xs @ clip tgt (p + length xs) ys"
proof (cases tgt)
  case (Some r)
  obtain a b where r: "r = (a, b)" by (cases r)
  show ?thesis
  proof (cases "length xs \<le> unat b - p")
    case True
    then show ?thesis by (simp add: clip_def Some r diff_diff_eq)
  next
    case False
    then have "unat b - p - length xs = 0" "unat b - (p + length xs) = 0" by simp_all
    then show ?thesis by (simp add: clip_def Some r)
  qed
qed (simp add: clip_def)

lemma items_bytes_placed: "items_bytes tgt (placed p ts) = clip tgt p (concat (map dag_bytes ts))"
proof (induction ts arbitrary: p)
  case Nil
  then show ?case by (simp add: items_bytes_def clip_def split: option.split)
next
  case (Cons t ts)
  then show ?case by (simp add: items_bytes_def clip_append)
qed

lemma clip_outside: "\<not> in_range tgt (p, t) \<Longrightarrow> clip tgt p (dag_bytes t) = []"
  by (auto simp: in_range_def clip_def item_end_def split: option.splits)

lemma items_bytes_filter: "items_bytes tgt (filter (in_range tgt) items) = items_bytes tgt items"
  by (induction items) (auto simp: items_bytes_def clip_outside)

lemma items_bytes_append [simp]: "items_bytes tgt (xs @ ys) = items_bytes tgt xs @ items_bytes tgt ys"
  by (simp add: items_bytes_def)

text \<open>A node is followed by its children: they cover it without gaps, and some child is in the target range when the node is.\<close>

definition contiguous :: "(nat \<times> dag) list \<Rightarrow> bool" where
  "contiguous items \<longleftrightarrow> (\<forall>i. Suc i < length items \<longrightarrow> fst (items ! Suc i) = item_end (items ! i))"

lemma contiguous_Cons:
  "contiguous (x # items) \<longleftrightarrow> (items = [] \<or> fst (hd items) = item_end x) \<and> contiguous items"
proof (cases items)
  case (Cons y ys)
  then show ?thesis
    by (auto simp: contiguous_def nth_Cons split: nat.splits)
qed (simp add: contiguous_def)

lemma contiguous_append:
  "contiguous (xs @ ys) \<longleftrightarrow> contiguous xs \<and> contiguous ys \<and> (xs = [] \<or> ys = [] \<or> fst (hd ys) = item_end (last xs))"
proof (induction xs)
  case Nil
  then show ?case by (auto simp: contiguous_def)
next
  case (Cons x xs)
  then show ?case by (cases xs) (auto simp: contiguous_Cons)
qed

lemma placed_bounds:
  "i \<in> set (placed p ts) \<Longrightarrow> p \<le> fst i \<and> item_end i \<le> p + length (concat (map dag_bytes ts)) \<and> snd i \<in> set ts"
  by (induction ts arbitrary: p) (fastforce simp: item_end_def)+

text \<open>The children in the target range: there is one, they are contiguous, and they reach the end of the node if the range does.\<close>

lemma filter_placed_contiguous: "contiguous (filter (in_range tgt) (placed p ts))"
proof (induction ts arbitrary: p)
  case (Cons t ts)
  let ?q = "p + length (dag_bytes t)"
  show ?case
  proof (cases "in_range tgt (p, t) \<and> filter (in_range tgt) (placed ?q ts) \<noteq> []")
    case True
    then obtain j where j: "j \<in> set (placed ?q ts)" "in_range tgt j" by (auto simp: filter_empty_conv)
    then obtain u us where ts: "ts = u # us" by (cases ts) auto
    have "in_range tgt (?q, u)"
      using True j placed_bounds [OF j(1)] by (auto simp: in_range_def item_end_def split: option.splits)
    then show ?thesis using Cons.IH [of ?q] True by (simp add: contiguous_Cons ts item_end_def)
  next
    case False
    then show ?thesis using Cons.IH [of ?q] by (auto simp: contiguous_Cons)
  qed
qed (simp add: contiguous_def)

lemma in_range_child:
  assumes "in_range tgt (p, Node ts)" "ts \<noteq> []"
  shows "filter (in_range tgt) (placed p ts) \<noteq> []"
  using assms
proof (induction ts arbitrary: p)
  case (Cons t ts)
  show ?case
  proof (cases "in_range tgt (p, t) \<or> ts = []")
    case True
    with Cons.prems show ?thesis by (auto simp: in_range_def item_end_def split: option.splits)
  next
    case False
    then have "in_range tgt (p + length (dag_bytes t), Node ts)"
      using Cons.prems by (auto simp: in_range_def item_end_def max_def min_def split: option.splits if_splits)
    with False Cons.IH show ?thesis by simp
  qed
qed simp

lemma in_range_last_child:
  assumes "in_range tgt (p, Node ts)" "in_range tgt i" "fst i = item_end (p, Node ts)" "ts \<noteq> []"
  shows "item_end (last (filter (in_range tgt) (placed p ts))) = item_end (p, Node ts)"
  using assms
proof (induction ts arbitrary: p)
  case (Cons t ts)
  let ?q = "p + length (dag_bytes t)"
  show ?case
  proof (cases "ts = []")
    case True
    with Cons.prems show ?thesis by (auto simp: in_range_def item_end_def split: option.splits)
  next
    case False
    then have rest: "in_range tgt (?q, Node ts)"
      using Cons.prems by (auto simp: in_range_def item_end_def split: option.splits)
    then have "filter (in_range tgt) (placed ?q ts) \<noteq> []" using False by (intro in_range_child)
    with Cons.IH [OF rest Cons.prems(2) _ False] Cons.prems(3) show ?thesis by (auto simp: item_end_def)
  qed
qed simp

section \<open>Reading the blocks of a tree\<close>

lemma u64_less_iff: "a < 2 ^ 64 \<Longrightarrow> b < 2 ^ 64 \<Longrightarrow> (of_nat a :: u64) < of_nat b \<longleftrightarrow> a < b"
  by (simp add: word_less_nat_alt unat_of_nat)

lemma u64_le_iff: "a < 2 ^ 64 \<Longrightarrow> b < 2 ^ 64 \<Longrightarrow> (of_nat a :: u64) \<le> of_nat b \<longleftrightarrow> a \<le> b"
  by (simp add: word_le_nat_alt unat_of_nat)

lemma u64_eq_iff: "a < 2 ^ 64 \<Longrightarrow> b < 2 ^ 64 \<Longrightarrow> (of_nat a :: u64) = of_nat b \<longleftrightarrow> a = b"
  by (metis u64_le_iff order.antisym order_refl)

text \<open>Every inner node has a child.\<close>

primrec no_empty_node :: "dag \<Rightarrow> bool" where
  "no_empty_node (Leaf b) = True"
| "no_empty_node (Node ts) = (ts \<noteq> [] \<and> list_all no_empty_node ts)"

lemma in_chunks_ofD: "g \<in> set (chunks_of n xs) \<Longrightarrow> x \<in> set g \<Longrightarrow> x \<in> set xs"
proof (induction n xs rule: chunks_of.induct)
  case (1 n xs)
  then show ?case
    by (subst (asm) chunks_of.simps) (auto split: if_splits dest: in_set_takeD in_set_dropD)
qed

lemma no_empty_node_balanced: "list_all no_empty_node ts \<Longrightarrow> list_all no_empty_node (balanced n ts)"
proof (induction n ts rule: balanced.induct)
  case (1 n ts)
  show ?case
  proof (cases "n < 2 \<or> length ts \<le> 1")
    case True
    then show ?thesis using 1 by (subst balanced.simps) simp
  next
    case False
    have "list_all no_empty_node (map Node (chunks_of n ts))"
      using 1(2) Nil_notin_chunks_of [of n ts] in_chunks_ofD [of _ n ts] by (fastforce simp: list_all_iff)
    then show ?thesis using 1(1) False by (subst balanced.simps) simp
  qed
qed

lemma no_empty_node_file_dag: "2 \<le> n \<Longrightarrow> 0 < mx \<Longrightarrow> no_empty_node (file_dag n mx content)"
  using no_empty_node_balanced [of "file_leaves mx content" n]
  by (simp add: balanced_file_leaves) (simp add: file_leaves_def list_all_iff)

text \<open>The whole tree is readable: its blocks are not longer than a protobuf length, and the bytes of its CIDs parse.\<close>

definition readable :: "('cid, 'h, 'ce, 'z) cid_ops_scheme \<Rightarrow> ('e, 'cid) dag_format \<Rightarrow> dag \<Rightarrow> bool" where
  "readable co D t \<longleftrightarrow> no_empty_node t \<and>
     (\<forall>(c, b) \<in> set (dag_blocks D t). length b < len_limit \<and> co_from_bytes co (df_bytes D c) = Ok c)"

lemma readable_child: "readable co D (Node ts) \<Longrightarrow> t \<in> set ts \<Longrightarrow> readable co D t"
  by (auto simp: readable_def list_all_iff)

lemma block_of_in_dag_blocks: "block_of D t \<in> set (dag_blocks D t)"
  by (cases t) simp_all

lemma readable_block:
  assumes "readable co D t"
  shows "length (de_block (dag_entry D t)) < len_limit"
    "co_from_bytes co (df_bytes D (de_cid (dag_entry D t))) = Ok (de_cid (dag_entry D t))"
  using assms block_of_in_dag_blocks [of D t] by (auto simp: readable_def block_of_def)

lemma flat_fitsI:
  assumes ok: "pb_wire_ok pw" and len: "length (flat_write pw f) < len_limit"
    and names: "\<forall>l \<in> set (flat_links f). Name l = Some []"
  shows "flat_fits pw f"
proof -
  have size: "flat_get_size pw f < len_limit" using len by (simp add: length_flat_write ok)
  have "pb_link_get_size pw l < len_limit" if "l \<in> set (flat_links f)" for l
  proof -
    have "1 + sizeof_len pw (pb_link_get_size pw l) \<in> set (map (\<lambda>s. 1 + sizeof_len pw (pb_link_get_size pw s)) (flat_links f))"
      using that by auto
    then have "1 + sizeof_len pw (pb_link_get_size pw l) \<le> sum_list (map (\<lambda>s. 1 + sizeof_len pw (pb_link_get_size pw s)) (flat_links f))"
      by (rule member_le_sum_list) simp
    then show ?thesis using size ok by (simp add: flat_get_size_def pb_wire_delimited)
  qed
  moreover have "utf8_valid []" by code_simp
  ultimately show ?thesis
    using size ok names by (simp add: flat_fits_def pb_link_fits_def flat_get_size_def pb_wire_delimited)
qed

lemma read_leaf:
  assumes "pb_wire_ok (df_wire D)" "readable co D (Leaf b)"
  shows "flat_try_from (df_wire D) (de_block (dag_entry D (Leaf b))) = Some (Ok (leaf_flat b))"
  using readable_block(1) [OF assms(2)] by (simp add: Let_def) (intro flat_roundtrip flat_fitsI assms(1), simp_all add: leaf_flat_def)

lemma read_node:
  assumes "pb_wire_ok (df_wire D)" "readable co D (Node ts)"
  shows "flat_try_from (df_wire D) (de_block (dag_entry D (Node ts))) = Some (Ok (node_flat D (map (dag_entry D) ts)))"
  using readable_block(1) [OF assms(2)] by (simp add: Let_def) (intro flat_roundtrip flat_fitsI assms(1), simp_all add: node_flat_def)

text \<open>The reader of a leaf and of a link block at an offset.\<close>

lemma from_parts_leaf:
  assumes "p + length b < 2 ^ 64"
  shows "from_parts checks (leaf_flat b) (of_nat p) md = Done (Ok \<lparr>fr_offset = of_nat p, fr_end = Chunk (of_nat (p + length b)),
    fr_links = [], fr_data = b, fr_blocksizes = [], fr_metadata = md, fr_file_size = of_nat (length b)\<rparr>)"
  using add_u64_of_nat [of checks p "length b"] assms
  by (simp add: from_parts_def leaf_flat_def unix_fs_default_def Let_def)

lemma from_parts_node:
  assumes "p + length (dag_bytes (Node ts)) < 2 ^ 64" "ts \<noteq> []"
  shows "from_parts checks (node_flat D (map (dag_entry D) ts)) (of_nat p) md = Done (Ok \<lparr>fr_offset = of_nat p,
    fr_end = TreeCoverage (of_nat (p + length (dag_bytes (Node ts)))),
    fr_links = flat_links (node_flat D (map (dag_entry D) ts)), fr_data = [],
    fr_blocksizes = map (\<lambda>t. of_nat (length (dag_bytes t))) ts, fr_metadata = md,
    fr_file_size = of_nat (length (dag_bytes (Node ts)))\<rparr>)"
proof -
  have "sum_list (map (\<lambda>t. length (dag_bytes t)) ts) = length (dag_bytes (Node ts))"
    by (simp add: length_concat comp_def)
  then show ?thesis
    using add_u64_of_nat [of checks p "length (dag_bytes (Node ts))"] assms
    by (simp add: from_parts_def node_flat_def unix_fs_default_def Let_def de_size_dag_bytes comp_def del: dag_bytes.simps)
qed

text \<open>An item of the pending list and the links of a node.\<close>

definition entry_of :: "('e, 'cid) dag_format \<Rightarrow> nat \<times> dag \<Rightarrow> 'cid \<times> (u64 \<times> u64)" where
  "entry_of D i = (de_cid (dag_entry D (snd i)), (of_nat (fst i), of_nat (item_end i)))"

lemma block_is_in_target_range_item:
  assumes "item_end i < 2 ^ 64"
  shows "block_is_in_target_range (of_nat (fst i), of_nat (item_end i)) tgt \<longleftrightarrow> in_range tgt i"
proof -
  have "fst i < 2 ^ 64" using assms by (simp add: item_end_def)
  then show ?thesis
    using assms unfolding block_is_in_target_range_def in_range_def
    by (simp split: option.split) (simp add: word_le_nat_alt unat_of_nat)
qed

lemma collect_pending_node:
  assumes "\<forall>t \<in> set ts. readable co D t" "p + length (concat (map dag_bytes ts)) < 2 ^ 64"
  shows "collect_pending co checks tgt k (zip (flat_links (node_flat D (map (dag_entry D) ts)))
      (map (\<lambda>t. of_nat (length (dag_bytes t))) ts)) (of_nat p) acc =
    Done (Ok (acc @ map (entry_of D) (filter (in_range tgt) (placed p ts))))"
  using assms
proof (induction ts arbitrary: k p acc)
  case Nil
  then show ?case by (simp add: node_flat_def)
next
  case (Cons t ts)
  let ?q = "p + length (dag_bytes t)"
  have add: "add_u64 checks (of_nat p) (of_nat (length (dag_bytes t))) = Done (of_nat ?q)"
    using Cons.prems(2) by (intro add_u64_of_nat) simp
  have rng: "block_is_in_target_range (of_nat p, of_nat ?q) tgt \<longleftrightarrow> in_range tgt (p, t)"
    using block_is_in_target_range_item [of "(p, t)" tgt] Cons.prems(2) by (simp add: item_end_def)
  have "\<forall>t \<in> set ts. readable co D t" "?q + length (concat (map dag_bytes ts)) < 2 ^ 64" using Cons.prems by simp_all
  note IH = Cons.IH [OF this]
  have "co_from_bytes co (df_bytes D (de_cid (dag_entry D t))) = Ok (de_cid (dag_entry D t))"
    using Cons.prems(1) by (intro readable_block(2)) simp
  then show ?case
    using add rng IH by (simp add: node_flat_def to_pending_def entry_of_def item_end_def del: of_nat_add)
qed

section \<open>A visit in progress\<close>

text \<open>The trees still to be visited, the next one first, and what the state of the traversal expects of it.\<close>

definition expects :: "traversal \<Rightarrow> nat \<times> dag \<Rightarrow> bool" where
  "expects tr i \<longleftrightarrow>
     (case last_ending tr of
        TreeCoverage e \<Rightarrow> last_offset tr \<le> of_nat (fst i) \<and> of_nat (item_end i) \<le> e
      | Chunk e \<Rightarrow> e = of_nat (fst i))"

definition visiting ::
  "('cid, 'h, 'ce, 'z) cid_ops_scheme \<Rightarrow> ('e, 'cid) dag_format \<Rightarrow> (u64 \<times> u64) option \<Rightarrow> (nat \<times> dag) list \<Rightarrow> 'cid file_visit \<Rightarrow> bool" where
  "visiting co D tgt items v \<longleftrightarrow> items \<noteq> [] \<and> fv_pending v = rev (map (entry_of D) items) \<and> fv_range v = tgt \<and>
     expects (fv_state v) (hd items) \<and> contiguous items \<and>
     (\<forall>i \<in> set items. in_range tgt i \<and> item_end i < 2 ^ 64 \<and> readable co D (snd i))"

lemma expects_suitable:
  "expects tr i \<Longrightarrow> check_is_suitable_next (last_ending tr) (last_offset tr) (of_nat (fst i), of_nat (item_end i)) = Ok ()"
  by (auto simp: expects_def check_is_suitable_next_def split: ending.splits)

lemma slice_clip:
  assumes "in_range (Some (a, b)) (p, t)" "p + length (dag_bytes t) < 2 ^ 64"
  shows "target_slice (dag_bytes t) (of_nat p, of_nat (p + length (dag_bytes t))) (a, b) = Done (clip (Some (a, b)) p (dag_bytes t))"
proof -
  let ?e = "p + length (dag_bytes t)"
  have r: "p \<le> unat b" "unat a \<le> ?e" "unat a \<le> unat b"
    using assms(1) by (auto simp: in_range_def item_end_def)
  have u: "unat (of_nat p :: u64) = p" "unat (of_nat ?e :: u64) = ?e" using assms(2) by (simp_all add: unat_of_nat del: of_nat_add)
  have "block_is_in_target_range (of_nat p, of_nat ?e) (Some (a, b))"
    using block_is_in_target_range_item [of "(p, t)" "Some (a, b)"] assms by (simp add: item_end_def)
  moreover have "a < of_nat p \<longleftrightarrow> unat a < p" "of_nat ?e < b \<longleftrightarrow> ?e < unat b"
    using u by (simp_all add: word_less_nat_alt del: of_nat_add)
  moreover have "unat (min b (of_nat ?e) - of_nat p) = min (unat b) ?e - p"
    using r u by (simp add: min_def word_le_nat_alt unat_sub del: of_nat_add)
  moreover have "unat (a - of_nat p) = unat a - p" if "\<not> unat a < p"
    using that u by (simp add: unat_sub word_le_nat_alt)
  moreover have "unat (b - a) = unat b - unat a" using r by (simp add: unat_sub word_le_nat_alt)
  ultimately show ?thesis
    using r by (auto simp: target_slice_def slice_def clip_def min_def drop_take del: of_nat_add)
qed

lemma maybe_target_slice_clip:
  assumes "in_range tgt (p, t)" "p + length (dag_bytes t) < 2 ^ 64"
  shows "maybe_target_slice (dag_bytes t) (of_nat p, of_nat (p + length (dag_bytes t))) tgt = Done (clip tgt p (dag_bytes t))"
proof (cases tgt)
  case None
  then show ?thesis by (simp add: maybe_target_slice_def clip_def)
next
  case (Some r)
  then show ?thesis using slice_clip [of "fst r" "snd r" p t] assms by (simp add: maybe_target_slice_def del: of_nat_add)
qed

lemma built_without_metadata [simp]:
  "mode (flat_data (leaf_flat b)) = None" "mtime (flat_data (leaf_flat b)) = None"
  "mode (flat_data (node_flat D es)) = None" "mtime (flat_data (node_flat D es)) = None"
  by (simp_all add: leaf_flat_def node_flat_def unix_fs_default_def)

lemma visit_next:
  assumes "visiting co D tgt ((p, t) # rest) v"
  shows "visit_pending_links v = Done (de_cid (dag_entry D t), map (\<lambda>i. de_cid (dag_entry D (snd i))) rest)"
  using assms by (simp add: visiting_def visit_pending_links_def rev_map [symmetric] entry_of_def comp_def)

lemma visit_leaf:
  assumes ok: "pb_wire_ok (df_wire D)" and v: "visiting co D tgt ((p, Leaf b) # rest) v"
  shows "\<exists>v'. visit_continue_walk (df_wire D) co checks v (de_block (dag_entry D (Leaf b))) =
      Some (Done (Ok (clip tgt p b, if rest = [] then None else Some v'))) \<and> (rest \<noteq> [] \<longrightarrow> visiting co D tgt rest v')"
proof -
  have i: "in_range tgt (p, Leaf b)" "p + length b < 2 ^ 64" "readable co D (Leaf b)" "expects (fv_state v) (p, Leaf b)"
    and pend: "last (fv_pending v) = (de_cid (dag_entry D (Leaf b)), (of_nat p, of_nat (p + length b)))"
      "butlast (fv_pending v) = rev (map (entry_of D) rest)" "fv_pending v \<noteq> []" "fv_range v = tgt"
    using v by (simp_all add: visiting_def item_end_def entry_of_def del: of_nat_add dag_entry.simps)
  have suitable: "check_is_suitable_next (last_ending (fv_state v)) (last_offset (fv_state v)) (of_nat p, of_nat (p + length b)) = Ok ()"
    using expects_suitable [OF i(4)] by (simp add: item_end_def del: of_nat_add)
  define tr where "tr = \<lparr>last_ending = Chunk (of_nat (p + length b)), last_offset = of_nat p,
    tr_file_size = of_nat (length b), tr_metadata = tr_metadata (fv_state v)\<rparr>"
  define v' where "v' = v\<lparr>fv_pending := rev (map (entry_of D) rest), fv_state := tr\<rparr>"
  have "traversal_continue_walk (df_wire D) checks (fv_state v) (de_block (dag_entry D (Leaf b))) (of_nat p, of_nat (p + length b)) =
      Some (Done (Ok \<lparr>fr_offset = of_nat p, fr_end = Chunk (of_nat (p + length b)), fr_links = [], fr_data = b, fr_blocksizes = [],
        fr_metadata = tr_metadata (fv_state v), fr_file_size = of_nat (length b)\<rparr> :: (file_reader, ('a, 'd) file_read_failed) result))"
    using suitable read_leaf [OF ok i(3)] from_parts_leaf [OF i(2)]
    by (simp add: traversal_continue_walk_def from_continued_def del: of_nat_add dag_entry.simps)
  then have "visit_continue_walk (df_wire D) co checks v (de_block (dag_entry D (Leaf b))) =
      Some (Done (Ok (clip tgt p b, if rest = [] then None else Some v')))"
    using pend maybe_target_slice_clip [OF i(1)] i(2)
    by (simp add: visit_continue_walk_def Let_def reader_content_def v'_def tr_def del: of_nat_add dag_entry.simps)
  moreover have "visiting co D tgt rest v'" if "rest \<noteq> []"
    using v that by (auto simp: visiting_def v'_def tr_def expects_def contiguous_Cons item_end_def)
  ultimately show ?thesis by blast
qed

lemma visit_node:
  assumes ok: "pb_wire_ok (df_wire D)" and v: "visiting co D tgt ((p, Node ts) # rest) v"
  shows "\<exists>v'. visit_continue_walk (df_wire D) co checks v (de_block (dag_entry D (Node ts))) = Some (Done (Ok ([], Some v'))) \<and>
    visiting co D tgt (filter (in_range tgt) (placed p ts) @ rest) v'"
proof -
  let ?e = "p + length (dag_bytes (Node ts))"
  let ?kids = "filter (in_range tgt) (placed p ts)"
  have i: "in_range tgt (p, Node ts)" "?e < 2 ^ 64" "readable co D (Node ts)" "expects (fv_state v) (p, Node ts)"
    and pend: "last (fv_pending v) = (de_cid (dag_entry D (Node ts)), (of_nat p, of_nat ?e))"
      "butlast (fv_pending v) = rev (map (entry_of D) rest)" "fv_pending v \<noteq> []" "fv_range v = tgt"
    using v by (simp_all add: visiting_def item_end_def entry_of_def del: of_nat_add dag_entry.simps dag_bytes.simps)
  have ts: "ts \<noteq> []" "\<forall>t \<in> set ts. readable co D t"
    using i(3) readable_child [OF i(3)] by (auto simp: readable_def)
  have suitable: "check_is_suitable_next (last_ending (fv_state v)) (last_offset (fv_state v)) (of_nat p, of_nat ?e) = Ok ()"
    using expects_suitable [OF i(4)] by (simp add: item_end_def del: of_nat_add dag_bytes.simps)
  define tr where "tr = \<lparr>last_ending = TreeCoverage (of_nat ?e), last_offset = of_nat p,
    tr_file_size = of_nat (length (dag_bytes (Node ts))), tr_metadata = tr_metadata (fv_state v)\<rparr>"
  define v' where "v' = v\<lparr>fv_pending := rev (map (entry_of D) (?kids @ rest)), fv_state := tr\<rparr>"
  have walk: "traversal_continue_walk (df_wire D) checks (fv_state v) (de_block (dag_entry D (Node ts))) (of_nat p, of_nat ?e) =
      Some (Done (Ok \<lparr>fr_offset = of_nat p, fr_end = TreeCoverage (of_nat ?e),
        fr_links = flat_links (node_flat D (map (dag_entry D) ts)), fr_data = [],
        fr_blocksizes = map (\<lambda>t. of_nat (length (dag_bytes t))) ts, fr_metadata = tr_metadata (fv_state v),
        fr_file_size = of_nat (length (dag_bytes (Node ts)))\<rparr> :: (file_reader, ('a, 'd) file_read_failed) result))"
    using suitable read_node [OF ok i(3)] from_parts_node [OF i(2) ts(1)]
    by (simp add: traversal_continue_walk_def from_continued_def del: of_nat_add dag_entry.simps dag_bytes.simps)
  have links: "flat_links (node_flat D (map (dag_entry D) ts)) \<noteq> []" using ts(1) by (simp add: node_flat_def)
  have bound: "p + length (concat (map dag_bytes ts)) < 2 ^ 64" using i(2) by simp
  have "visit_continue_walk (df_wire D) co checks v (de_block (dag_entry D (Node ts))) = Some (Done (Ok ([], Some v')))"
    using pend walk links
    by (simp add: collect_pending_node [OF ts(2) bound] visit_continue_walk_def Let_def reader_content_def v'_def tr_def del: of_nat_add dag_entry.simps dag_bytes.simps)
  moreover have "visiting co D tgt (?kids @ rest) v'"
  proof -
    have kids: "?kids \<noteq> []" by (rule in_range_child [OF i(1) ts(1)])
    have bounds: "p \<le> fst k \<and> item_end k \<le> ?e \<and> snd k \<in> set ts" if "k \<in> set ?kids" for k
      using placed_bounds [of k p ts] that by auto
    have "hd ?kids \<in> set ?kids" using kids by (rule list.set_sel)
    then have "expects tr (hd ?kids)"
      using bounds [of "hd ?kids"] i(2) by (simp add: expects_def tr_def u64_le_iff item_end_def del: of_nat_add dag_bytes.simps)
    moreover have "contiguous (?kids @ rest)"
    proof (cases rest)
      case (Cons r rs)
      then have "in_range tgt r" "fst r = item_end (p, Node ts)" "contiguous rest"
        using v by (auto simp: visiting_def contiguous_Cons simp del: dag_bytes.simps)
      then show ?thesis
        using in_range_last_child [OF i(1) _ _ ts(1), of r] Cons by (auto simp: contiguous_append filter_placed_contiguous)
    qed (simp add: filter_placed_contiguous)
    ultimately show ?thesis
      using v kids bounds ts(2) i(2) unfolding visiting_def by (fastforce simp: v'_def)
  qed
  ultimately show ?thesis by blast
qed

section \<open>Starting a visit\<close>

lemma from_parts_leaf_0:
  "length b < 2 ^ 64 \<Longrightarrow> from_parts checks (leaf_flat b) 0 md = Done (Ok \<lparr>fr_offset = 0, fr_end = Chunk (of_nat (length b)),
    fr_links = [], fr_data = b, fr_blocksizes = [], fr_metadata = md, fr_file_size = of_nat (length b)\<rparr>)"
  by (simp add: from_parts_leaf [of 0, simplified])

lemma from_parts_node_0:
  assumes "length (dag_bytes (Node ts)) < 2 ^ 64" "ts \<noteq> []"
  shows "from_parts checks (node_flat D (map (dag_entry D) ts)) 0 md = Done (Ok \<lparr>fr_offset = 0,
    fr_end = TreeCoverage (of_nat (length (dag_bytes (Node ts)))),
    fr_links = flat_links (node_flat D (map (dag_entry D) ts)), fr_data = [],
    fr_blocksizes = map (\<lambda>t. of_nat (length (dag_bytes t))) ts, fr_metadata = md,
    fr_file_size = of_nat (length (dag_bytes (Node ts)))\<rparr>)"
  by (simp add: from_parts_node [of 0, simplified semiring_1_class.of_nat_0 add_0, OF assms] del: dag_bytes.simps)

lemma visit_start_leaf:
  assumes ok: "pb_wire_ok (df_wire D)" and "readable co D (Leaf b)" "length b < 2 ^ 64"
  shows "\<exists>md. visit_start (df_wire D) co checks tgt (de_block (dag_entry D (Leaf b))) =
    Some (Done (Ok (clip tgt 0 b, of_nat (length b), md, None)))"
proof -
  have "maybe_target_slice b (0, of_nat (length b)) tgt = Done (clip tgt 0 b)"
  proof (cases "in_range tgt (0, Leaf b)")
    case True
    then show ?thesis using maybe_target_slice_clip [of tgt 0 "Leaf b"] assms(3) by simp
  next
    case False
    then have "\<not> block_is_in_target_range (0, of_nat (length b)) tgt" "clip tgt 0 b = []" "tgt \<noteq> None"
      using block_is_in_target_range_item [of "(0, Leaf b)" tgt] clip_outside [of tgt 0 "Leaf b"] assms(3)
      by (auto simp: item_end_def in_range_def split: option.splits)
    then show ?thesis by (auto simp: maybe_target_slice_def target_slice_def)
  qed
  then show ?thesis
    using read_leaf [OF ok assms(2)]
    by (simp add: from_parts_leaf_0 [OF assms(3)] visit_start_def from_block_def from_parsed_def start_from_reader_def reader_content_def del: dag_entry.simps)
qed

lemma visit_start_node:
  assumes ok: "pb_wire_ok (df_wire D)" and r: "readable co D (Node ts)" and len: "length (dag_bytes (Node ts)) < 2 ^ 64"
    and kids_def: "kids = filter (in_range tgt) (placed 0 ts)"
  shows "\<exists>md v. visit_start (df_wire D) co checks tgt (de_block (dag_entry D (Node ts))) =
      Some (Done (Ok ([], of_nat (length (dag_bytes (Node ts))), md, v))) \<and>
    (if kids = [] then v = None else \<exists>w. v = Some w \<and> visiting co D tgt kids w)"
proof -
  have ts: "ts \<noteq> []" "\<forall>t \<in> set ts. readable co D t"
    using r readable_child [OF r] by (auto simp: readable_def)
  have links: "flat_links (node_flat D (map (dag_entry D) ts)) \<noteq> []" using ts(1) by (simp add: node_flat_def)
  have bound: "0 + length (concat (map dag_bytes ts)) < 2 ^ 64" using len by simp
  let ?md = "metadata_from (flat_data (node_flat D (map (dag_entry D) ts)))"
  define tr where "tr = \<lparr>last_ending = TreeCoverage (of_nat (length (dag_bytes (Node ts)))), last_offset = 0,
    tr_file_size = of_nat (length (dag_bytes (Node ts))), tr_metadata = ?md\<rparr>"
  define v where "v = (if kids = [] then None else Some \<lparr>fv_pending = rev (map (entry_of D) kids), fv_range = tgt, fv_state = tr\<rparr>)"
  have "visit_start (df_wire D) co checks tgt (de_block (dag_entry D (Node ts))) =
      Some (Done (Ok ([], of_nat (length (dag_bytes (Node ts))), ?md, v)))"
    using read_node [OF ok r] links
    by (simp add: from_parts_node_0 [OF len ts(1)] collect_pending_node [OF ts(2) bound, simplified semiring_1_class.of_nat_0] visit_start_def from_block_def from_parsed_def start_from_reader_def reader_content_def v_def tr_def kids_def
        del: dag_entry.simps dag_bytes.simps)
  moreover have "visiting co D tgt kids (the v)" if "kids \<noteq> []"
  proof -
    have bounds: "in_range tgt k \<and> item_end k \<le> length (dag_bytes (Node ts)) \<and> snd k \<in> set ts" if "k \<in> set kids" for k
      using placed_bounds [of k 0 ts] that by (auto simp: kids_def)
    then have "item_end (hd kids) \<le> length (dag_bytes (Node ts))" using \<open>kids \<noteq> []\<close> by simp
    then have "expects tr (hd kids)"
      using len u64_le_iff [of "item_end (hd kids)" "length (dag_bytes (Node ts))"]
      by (simp add: expects_def tr_def del: dag_bytes.simps)
    moreover have "contiguous kids" by (simp add: kids_def filter_placed_contiguous)
    ultimately show ?thesis
      using that bounds ts(2) len unfolding visiting_def by (fastforce simp: v_def simp del: dag_bytes.simps)
  qed
  ultimately show ?thesis by (auto simp: v_def)
qed

section \<open>Blocks that make the reader panic\<close>

text \<open>
  A leaf that leaves out its file size, which the reader means to allow (it falls back to the length of the data), makes
  the reader panic: the size is unwrapped in the end.
\<close>

lemma from_parts_no_filesize:
  "b \<noteq> [] \<Longrightarrow> from_parts checks \<lparr>flat_links = [], flat_data = unix_fs_default\<lparr>Data := Some b\<rparr>\<rparr> 0 md = Panic"
  by (simp add: from_parts_def unix_fs_default_def Let_def add_u64_def bind_exec_Panic_iff)

theorem leaf_without_filesize_panics:
  assumes "pb_wire_ok pw" "b \<noteq> []" "length (flat_write pw \<lparr>flat_links = [], flat_data = unix_fs_default\<lparr>Data := Some b\<rparr>\<rparr>) < len_limit"
  shows "visit_start pw co checks tgt (flat_write pw \<lparr>flat_links = [], flat_data = unix_fs_default\<lparr>Data := Some b\<rparr>\<rparr>) = Some Panic"
proof -
  let ?f = "\<lparr>flat_links = [], flat_data = unix_fs_default\<lparr>Data := Some b\<rparr>\<rparr>"
  have "flat_try_from pw (flat_write pw ?f) = Some (Ok ?f)"
    using assms by (intro flat_roundtrip flat_fitsI) simp_all
  then show ?thesis
    by (simp add: visit_start_def from_block_def from_parsed_def from_parts_no_filesize assms(2))
qed

text \<open>
  With a target range, a leaf that holds less than its parent announced makes the visit panic: nothing compares the length
  of the content with the range the link was given.
\<close>

theorem short_leaf_panics_range_visit:
  assumes "pb_wire_ok pw" "length (flat_write pw (leaf_flat content)) < len_limit"
    and "fv_pending v = pending @ [(cid, (p, e))]" "fv_range v = Some (a, b)"
    and "check_is_suitable_next (last_ending (fv_state v)) (last_offset (fv_state v)) (p, e) = Ok ()"
    and "p \<le> a" "a \<le> b" "b \<le> e" "length content < unat b - unat p" "unat p + length content < 2 ^ 64"
  shows "visit_continue_walk pw co checks v (flat_write pw (leaf_flat content)) = Some Panic"
proof -
  have "flat_try_from pw (flat_write pw (leaf_flat content)) = Some (Ok (leaf_flat content))"
    using assms(1,2) by (intro flat_roundtrip flat_fitsI) (simp_all add: leaf_flat_def)
  moreover have "p \<le> b" "p \<le> e" "a \<le> e" using assms(6-8) by simp_all
  moreover have "\<not> unat (a - p) + unat (b - a) \<le> length content" "\<not> unat (b - p) \<le> length content" "\<not> e < b" "\<not> a < p"
    using assms(6-9) by (simp_all add: unat_sub word_le_nat_alt word_less_nat_alt)
  ultimately show ?thesis
    using assms(3-8)
    by (simp add: from_parts_leaf [OF assms(10), simplified] visit_continue_walk_def Let_def traversal_continue_walk_def from_continued_def reader_content_def
        maybe_target_slice_def target_slice_def block_is_in_target_range_def slice_def)
qed

end
