(* ===== verification/Unixfs_Dir.thy ===== *)
theory Unixfs_Dir
  imports Unixfs_Visit Rust_Str
begin

text \<open>
  Directories of UnixFS, \<open>utils/rust-ipfs/unixfs/src/dir.rs\<close>, \<open>dir/directory.rs\<close>, \<open>dir/sharded_lookup.rs\<close> and the access to the data of a
  dag-pb node, \<open>dagpb.rs\<close>.  The lemmas show that a name is found in a directory exactly when it has one link of that name, that the walk
  over the buckets of a sharded directory finds exactly its entries, and which blocks make the code panic.
\<close>

section \<open>Plain directories\<close>

record unexpected_directory_properties =
  ud_filesize :: "u64 option"
  ud_blocksizes :: "u64 list"
  ud_hash_type :: "u64 option"
  ud_fanout :: "u64 option"
  ud_data :: "bytes option"

definition check_directory_supported :: "flat_unix_fs \<Rightarrow> (flat_unix_fs, unexpected_directory_properties) result" where
  "check_directory_supported flat =
     (let d = flat_data flat in
      if filesize d \<noteq> None \<or> blocksizes d \<noteq> [] \<or> hashType d \<noteq> None \<or> fanout d \<noteq> None \<or>
        (case Data d of None \<Rightarrow> [] | Some b \<Rightarrow> b) \<noteq> []
      then Err \<lparr>ud_filesize = filesize d, ud_blocksizes = blocksizes d, ud_hash_type = hashType d, ud_fanout = fanout d, ud_data = Data d\<rparr>
      else Ok flat)"

definition try_convert_cid :: "('cid, 'h, 'ce, 'z) cid_ops_scheme \<Rightarrow> nat \<Rightarrow> pb_link \<Rightarrow> ('cid, 'ce invalid_cid_in_link) result" where
  "try_convert_cid co n link =
     map_err (invalid_cid_in_link_from n link) (co_from_bytes co (case Hash link of None \<Rightarrow> [] | Some h \<Rightarrow> h))"

datatype ('cid, 'ce) multiple_matching_links =
    Two "nat \<times> 'cid" "nat \<times> 'cid"
  | OneValid "nat \<times> 'cid" "'ce invalid_cid_in_link"

definition multiple_matching_links_from ::
  "('cid, 'h, 'ce, 'z) cid_ops_scheme \<Rightarrow> nat \<times> 'cid \<Rightarrow> nat \<times> pb_link \<Rightarrow> ('cid, 'ce) multiple_matching_links" where
  "multiple_matching_links_from co first second =
     (case try_convert_cid co (fst second) (snd second) of
        Ok c \<Rightarrow> Two first (fst second, c)
      | Err e \<Rightarrow> OneValid first e)"

definition multiple_into_inner :: "('cid, 'ce) multiple_matching_links \<Rightarrow> 'cid" where
  "multiple_into_inner m = (case m of Two first _ \<Rightarrow> snd first | OneValid first _ \<Rightarrow> snd first)"

section \<open>Sharded directories\<close>

datatype shard_error = UnsupportedProperties "u64 option" "u64 option" | UnexpectedProperties "u64 option" "u64 list"

datatype ('cid, 'ce) partitioning_error = Pe_Multiple "('cid, 'ce) multiple_matching_links" | Pe_InvalidCid "'ce invalid_cid_in_link"

datatype ('cid, 'e, 'ce) lookup_error =
    Le_Multiple "('cid, 'ce) multiple_matching_links"
  | Le_InvalidCid "'ce invalid_cid_in_link"
  | Le_UnexpectedBucketType u32
  | Le_Shard shard_error
  | Le_Read "'e option"

definition lookup_error_from :: "('cid, 'ce) partitioning_error \<Rightarrow> ('cid, 'e, 'ce) lookup_error" where
  "lookup_error_from e = (case e of Pe_Multiple m \<Rightarrow> Le_Multiple m | Pe_InvalidCid e \<Rightarrow> Le_InvalidCid e)"

text \<open>The cache of the walks holds an emptied queue, kept for its allocation only; it is left out.\<close>

record 'cid sharded_lookup =
  sl_links :: "'cid list"
  sl_needle :: bytes

datatype 'cid maybe_resolved = Found 'cid | NeedToLoadMore "'cid sharded_lookup" | NotFound

definition lookup_pending_links :: "'cid sharded_lookup \<Rightarrow> ('cid \<times> 'cid list) exec" where
  "lookup_pending_links l = (case sl_links l of [] \<Rightarrow> Panic | c # rest \<Rightarrow> Done (c, rest))"

definition check_supported :: "flat_unix_fs \<Rightarrow> (unit, shard_error) result exec" where
  "check_supported hamt =
     (let d = flat_data hamt in
      if unix_fs.Type d \<noteq> HAMTShard then Panic
      else if fanout d \<noteq> Some 256 \<or> hashType d \<noteq> Some 34 then Done (Err (UnsupportedProperties (hashType d) (fanout d)))
      else if filesize d \<noteq> None \<or> blocksizes d \<noteq> [] then Done (Err (UnexpectedProperties (filesize d) (blocksizes d)))
      else Done (Ok ()))"

definition check_hamtshard_supported :: "flat_unix_fs \<Rightarrow> (flat_unix_fs, shard_error) result exec" where
  "check_hamtshard_supported flat = bind_exec (check_supported flat) (\<lambda>r. Done (map_result (\<lambda>_. flat) id r))"

text \<open>\<open>&name[2..]\<close> panics when the third byte continues a character.\<close>

definition name_suffix :: "bytes \<Rightarrow> bytes exec" where
  "name_suffix name = (if length name = 2 \<or> 2 < length name \<and> \<not> is_continuation (name ! 2) then Done (drop 2 name) else Panic)"

definition link_name :: "pb_link \<Rightarrow> bytes" where
  "link_name link = (case Name link of None \<Rightarrow> [] | Some n \<Rightarrow> n)"

fun partition_shard ::
  "('cid, 'h, 'ce, 'z) cid_ops_scheme \<Rightarrow> bytes \<Rightarrow> nat \<Rightarrow> pb_link list \<Rightarrow> (nat \<times> 'cid) option \<Rightarrow> 'cid list \<Rightarrow>
   ('cid list \<times> ('cid option, ('cid, 'ce) partitioning_error) result) exec" where
  "partition_shard co needle i [] found work = Done (work, Ok (map_option snd found))"
| "partition_shard co needle i (link # links) found work =
     (let name = link_name link in
      if 2 < length name then
        bind_exec (name_suffix name) (\<lambda>suffix.
        if suffix = needle then
          (case found of
             Some first \<Rightarrow> Done (work, Err (Pe_Multiple (multiple_matching_links_from co first (i, link))))
           | None \<Rightarrow>
               (case try_convert_cid co i link of
                  Ok cid \<Rightarrow> partition_shard co needle (i + 1) links (Some (i, cid)) work
                | Err e \<Rightarrow> Done (work, Err (Pe_InvalidCid e))))
        else partition_shard co needle (i + 1) links found work)
      else if length name = 2 then
        (case try_convert_cid co i link of
           Ok cid \<Rightarrow> partition_shard co needle (i + 1) links found (work @ [cid])
         | Err e \<Rightarrow> Done (work, Err (Pe_InvalidCid e)))
      else partition_shard co needle (i + 1) links found work)"

text \<open>What both entry points do with a shard: \<open>links\<close> is the queue so far.\<close>

definition search_shard ::
  "('cid, 'h, 'ce, 'z) cid_ops_scheme \<Rightarrow> flat_unix_fs \<Rightarrow> bytes \<Rightarrow> 'cid list \<Rightarrow>
   ('cid maybe_resolved, ('cid, 'e, 'ce) lookup_error) result exec" where
  "search_shard co hamt needle links =
     bind_exec (check_supported hamt) (\<lambda>r.
     case r of
       Err e \<Rightarrow> Done (Err (Le_Shard e))
     | Ok _ \<Rightarrow>
         bind_exec (partition_shard co needle 0 (flat_links hamt) None links) (\<lambda>(links, r).
         Done (case r of
             Err e \<Rightarrow> Err (lookup_error_from e)
           | Ok (Some cid) \<Rightarrow> Ok (Found cid)
           | Ok None \<Rightarrow> Ok (if links = [] then NotFound else NeedToLoadMore \<lparr>sl_links = links, sl_needle = needle\<rparr>))))"

definition lookup_or_start ::
  "('cid, 'h, 'ce, 'z) cid_ops_scheme \<Rightarrow> flat_unix_fs \<Rightarrow> bytes \<Rightarrow> ('cid maybe_resolved, ('cid, 'e, 'ce) lookup_error) result exec" where
  "lookup_or_start co hamt needle = search_shard co hamt needle []"

definition lookup_continue_walk ::
  "'e pb_wire \<Rightarrow> ('cid, 'h, 'ce, 'z) cid_ops_scheme \<Rightarrow> 'cid sharded_lookup \<Rightarrow> bytes \<Rightarrow>
   ('cid maybe_resolved, ('cid, 'e, 'ce) lookup_error) result exec option" where
  "lookup_continue_walk pw co l nxt =
     (if sl_links l = [] then Some Panic
      else
        map_option (\<lambda>r.
          case r of
            Ok hamt \<Rightarrow>
              if unix_fs.Type (flat_data hamt) = HAMTShard then search_shard co hamt (sl_needle l) (tl (sl_links l))
              else Done (Err (Le_UnexpectedBucketType (data_type_into (unix_fs.Type (flat_data hamt)))))
          | Err (InvalidDagPb e) \<Rightarrow> Done (Err (Le_Read (Some e)))
          | Err (InvalidUnixFs e _) \<Rightarrow> Done (Err (Le_Read (Some e)))
          | Err (NoData _) \<Rightarrow> Done (Err (Le_Read None)))
        (flat_try_from pw nxt))"

section \<open>Resolving one segment\<close>

datatype ('cid, 'e, 'ce) dir_resolve_error =
    Dr_UnexpectedType u32
  | Dr_UnexpectedDirProperties unexpected_directory_properties
  | Dr_Read 'e
  | Dr_Lookup "('cid, 'e, 'ce) lookup_error"

text \<open>The links of a block that are searched by name; \<open>Inr\<close> is a shard.\<close>

definition searched_links ::
  "(flat_unix_fs, 'e parsing_failed) result \<Rightarrow> (pb_link list + flat_unix_fs, ('cid, 'e, 'ce) dir_resolve_error) result" where
  "searched_links r =
     (case r of
        Ok flat \<Rightarrow>
          if unix_fs.Type (flat_data flat) = HAMTShard then Ok (Inr flat)
          else if unix_fs.Type (flat_data flat) = Directory then
            (case check_directory_supported flat of
               Ok flat \<Rightarrow> Ok (Inl (flat_links flat))
             | Err e \<Rightarrow> Err (Dr_UnexpectedDirProperties e))
          else Err (Dr_UnexpectedType (data_type_into (unix_fs.Type (flat_data flat))))
      | Err (InvalidUnixFs _ node) \<Rightarrow> Ok (Inl (Links node))
      | Err (NoData node) \<Rightarrow> Ok (Inl (Links node))
      | Err (InvalidDagPb e) \<Rightarrow> Err (Dr_Read e))"

definition matching_links :: "bytes \<Rightarrow> pb_link list \<Rightarrow> (nat \<times> pb_link) list" where
  "matching_links needle links = filter (\<lambda>(_, l). link_name l = needle) (enumerate 0 links)"

definition find_link ::
  "('cid, 'h, 'ce, 'z) cid_ops_scheme \<Rightarrow> bytes \<Rightarrow> pb_link list \<Rightarrow> ('cid maybe_resolved, ('cid, 'e, 'ce) dir_resolve_error) result" where
  "find_link co needle links =
     (case matching_links needle links of
        [] \<Rightarrow> Ok NotFound
      | (i, link) # rest \<Rightarrow>
          (case try_convert_cid co i link of
             Err e \<Rightarrow> Err (Dr_Lookup (Le_InvalidCid e))
           | Ok first \<Rightarrow>
               (case rest of
                  [] \<Rightarrow> Ok (Found first)
                | second # _ \<Rightarrow> Err (Dr_Lookup (Le_Multiple (multiple_matching_links_from co (i, first) second))))))"

definition resolve ::
  "'e pb_wire \<Rightarrow> ('cid, 'h, 'ce, 'z) cid_ops_scheme \<Rightarrow> bytes \<Rightarrow> bytes \<Rightarrow>
   ('cid maybe_resolved, ('cid, 'e, 'ce) dir_resolve_error) result exec option" where
  "resolve pw co block needle =
     map_option (\<lambda>r.
       case searched_links r of
         Err e \<Rightarrow> Done (Err e)
       | Ok (Inl links) \<Rightarrow> Done (find_link co needle links)
       | Ok (Inr hamt) \<Rightarrow> bind_exec (lookup_or_start co hamt needle) (\<lambda>r. Done (map_err Dr_Lookup r)))
     (flat_try_from pw block)"

section \<open>The data of a dag-pb node\<close>

text \<open>
  The node together with the offset of its data in the block: the code recovers it from the addresses of the slices.  \<open>full\<close> is
  the length of the block.
\<close>

definition data_position_field ::
  "'e pb_wire \<Rightarrow> nat \<Rightarrow> u32 \<Rightarrow> bytes \<Rightarrow> pb_node \<times> nat \<Rightarrow> ((pb_node \<times> nat) \<times> bytes, 'e) result option" where
  "data_position_field pw full t bs msg =
     map_option (map_result (\<lambda>(node, rest).
         ((node, if t = 10 then full - length rest - length (the (node_Data node)) else snd msg), rest)) id)
       (pb_node_field pw t bs (fst msg))"

definition node_data :: "'e pb_wire \<Rightarrow> bytes \<Rightarrow> ((nat \<times> bytes) option, 'e) result option" where
  "node_data pw block =
     map_option (map_result (\<lambda>(node, pos). map_option (Pair pos) (node_Data node)) id)
       (read_fields pw (data_position_field pw (length block)) block (pb_node_default, 0))"

definition subslice_to_range :: "nat \<Rightarrow> nat \<times> bytes \<Rightarrow> (nat \<times> nat) option" where
  "subslice_to_range full sub =
     (let amt = length (snd sub); start = fst sub in
      if full < amt then None else if full \<le> start then None else Some (start, start + amt))"

record node_data_ref =
  nd_inner :: bytes
  nd_range :: "(nat \<times> nat) option"

definition wrap_node_data :: "'e pb_wire \<Rightarrow> bytes \<Rightarrow> (node_data_ref, 'e) result exec option" where
  "wrap_node_data pw block =
     map_option (\<lambda>r.
       case r of
         Err e \<Rightarrow> Done (Err e)
       | Ok None \<Rightarrow> Done (Ok \<lparr>nd_inner = block, nd_range = None\<rparr>)
       | Ok (Some data) \<Rightarrow>
           bind_exec (expect (subslice_to_range (length block) data)) (\<lambda>range. Done (Ok \<lparr>nd_inner = block, nd_range = Some range\<rparr>)))
     (node_data pw block)"

definition nd_node_data :: "node_data_ref \<Rightarrow> bytes" where
  "nd_node_data n = (case nd_range n of None \<Rightarrow> [] | Some (a, b) \<Rightarrow> drop a (take b (nd_inner n)))"

section \<open>Finding a name in a directory\<close>

text \<open>The entries of a list of links whose hashes are the bytes of CIDs.\<close>

definition link_target :: "('cid, 'h, 'ce, 'z) cid_ops_scheme \<Rightarrow> pb_link \<Rightarrow> ('cid, 'ce) result" where
  "link_target co l = co_from_bytes co (case Hash l of None \<Rightarrow> [] | Some h \<Rightarrow> h)"

fun dir_entries :: "('cid, 'h, 'ce, 'z) cid_ops_scheme \<Rightarrow> pb_link list \<Rightarrow> (bytes \<times> 'cid) list" where
  "dir_entries co [] = []"
| "dir_entries co (l # ls) = (case link_target co l of Ok c \<Rightarrow> [(link_name l, c)] | Err _ \<Rightarrow> []) @ dir_entries co ls"

definition good_links :: "('cid, 'h, 'ce, 'z) cid_ops_scheme \<Rightarrow> pb_link list \<Rightarrow> bool" where
  "good_links co ls \<longleftrightarrow> (\<forall>l \<in> set ls. \<exists>c. link_target co l = Ok c)"

lemma good_links_Cons [simp]: "good_links co (l # ls) \<longleftrightarrow> (\<exists>c. link_target co l = Ok c) \<and> good_links co ls"
  by (simp add: good_links_def)

lemma try_convert_cid_good: "link_target co l = Ok c \<Longrightarrow> try_convert_cid co n l = Ok c"
  by (simp add: try_convert_cid_def link_target_def)

lemma filter_enumerate_none:
  "\<forall>y \<in> set ls. link_name y \<noteq> needle \<Longrightarrow> filter (\<lambda>(_, l). link_name l = needle) (enumerate k ls) = []"
  by (induction ls arbitrary: k) auto

lemma filter_enumerate_distinct:
  assumes "distinct (map link_name ls)" "l \<in> set ls" "link_name l = needle"
  shows "\<exists>i. filter (\<lambda>(_, l). link_name l = needle) (enumerate k ls) = [(i, l)]"
  using assms
proof (induction ls arbitrary: k)
  case (Cons x xs)
  show ?case
  proof (cases "x = l")
    case True
    then have "link_name l \<notin> link_name ` set xs" using Cons(2) by simp
    then have "\<forall>y \<in> set xs. link_name y \<noteq> needle" using imageI [of _ "set xs" link_name] Cons(4) by metis
    then show ?thesis using True Cons(4) filter_enumerate_none [of xs needle "Suc k"] by simp
  next
    case False
    then have "link_name x \<noteq> needle" using Cons(2-4) by auto
    then show ?thesis using Cons False by simp
  qed
qed simp

lemma map_fst_dir_entries: "good_links co ls \<Longrightarrow> map fst (dir_entries co ls) = map link_name ls"
  by (induction ls) auto

lemma set_dir_entries: "(n, c) \<in> set (dir_entries co ls) \<longleftrightarrow> (\<exists>l \<in> set ls. link_name l = n \<and> link_target co l = Ok c)"
  by (induction ls) (auto split: result.split)

lemma map_of_dir_entries:
  assumes "good_links co ls" "distinct (map link_name ls)"
  shows "map_of (dir_entries co ls) needle = Some c \<longleftrightarrow> (\<exists>l \<in> set ls. link_name l = needle \<and> link_target co l = Ok c)"
  using assms by (simp add: map_of_eq_Some_iff map_fst_dir_entries set_dir_entries)

text \<open>
  A name is resolved in a directory exactly to the target of its link.
\<close>

theorem resolve_directory:
  assumes "pb_wire_ok pw" "flat_fits pw f" "unix_fs.Type (flat_data f) = Directory" "check_directory_supported f = Ok f"
    and "good_links co (flat_links f)" "distinct (map link_name (flat_links f))"
  shows "resolve pw co (flat_write pw f) needle =
    Some (Done (Ok (case map_of (dir_entries co (flat_links f)) needle of None \<Rightarrow> NotFound | Some c \<Rightarrow> Found c)))"
proof -
  have "find_link co needle (flat_links f) =
      Ok (case map_of (dir_entries co (flat_links f)) needle of None \<Rightarrow> NotFound | Some c \<Rightarrow> Found c)"
  proof (cases "\<exists>l \<in> set (flat_links f). link_name l = needle")
    case True
    then obtain l c where l: "l \<in> set (flat_links f)" "link_name l = needle" "link_target co l = Ok c"
      using assms(5) by (auto simp: good_links_def)
    obtain i where "matching_links needle (flat_links f) = [(i, l)]"
      using filter_enumerate_distinct [OF assms(6) l(1,2), of 0] by (auto simp: matching_links_def)
    moreover have "map_of (dir_entries co (flat_links f)) needle = Some c"
      using map_of_dir_entries [OF assms(5,6)] l by blast
    ultimately show ?thesis by (simp add: find_link_def try_convert_cid_good l(3))
  next
    case False
    then have "matching_links needle (flat_links f) = []"
      unfolding matching_links_def by (intro filter_enumerate_none) blast
    moreover have "map_of (dir_entries co (flat_links f)) needle = None"
      using map_of_dir_entries [OF assms(5,6), of needle] False by (cases "map_of (dir_entries co (flat_links f)) needle") auto
    ultimately show ?thesis by (simp add: find_link_def)
  qed
  then show ?thesis
    using flat_roundtrip [OF assms(1,2)] assms(3,4) by (simp add: resolve_def searched_links_def)
qed

section \<open>Finding a name in a shard\<close>

text \<open>The entries of a shard have a prefix of two characters, its buckets have nothing else.\<close>

fun shard_entries :: "('cid, 'h, 'ce, 'z) cid_ops_scheme \<Rightarrow> pb_link list \<Rightarrow> (bytes \<times> 'cid) list" where
  "shard_entries co [] = []"
| "shard_entries co (l # ls) =
     (case link_target co l of Ok c \<Rightarrow> if 2 < length (link_name l) then [(drop 2 (link_name l), c)] else [] | Err _ \<Rightarrow> []) @ shard_entries co ls"

fun shard_buckets :: "('cid, 'h, 'ce, 'z) cid_ops_scheme \<Rightarrow> pb_link list \<Rightarrow> 'cid list" where
  "shard_buckets co [] = []"
| "shard_buckets co (l # ls) =
     (case link_target co l of Ok c \<Rightarrow> if length (link_name l) = 2 then [c] else [] | Err _ \<Rightarrow> []) @ shard_buckets co ls"

definition prefixed :: "pb_link list \<Rightarrow> bool" where
  "prefixed ls \<longleftrightarrow> (\<forall>l \<in> set ls. 2 < length (link_name l) \<longrightarrow> \<not> is_continuation (link_name l ! 2))"

lemma partition_shard_spec:
  assumes "good_links co ls" "prefixed ls" "distinct (map fst (shard_entries co ls))"
    and "found \<noteq> None \<longrightarrow> needle \<notin> fst ` set (shard_entries co ls)"
  shows "partition_shard co needle i ls found work = Done (work @ shard_buckets co ls,
    Ok (case found of Some x \<Rightarrow> Some (snd x) | None \<Rightarrow> map_of (shard_entries co ls) needle))"
  using assms
proof (induction ls arbitrary: i found work)
  case Nil
  then show ?case by (cases found) simp_all
next
  case (Cons l ls)
  obtain c where c: "link_target co l = Ok c" using Cons(2) by auto
  have ls: "good_links co ls" "prefixed ls" "distinct (map fst (shard_entries co ls))"
    and suffix: "2 < length (link_name l) \<Longrightarrow> name_suffix (link_name l) = Done (drop 2 (link_name l))"
    using Cons(2-4) by (auto simp: prefixed_def name_suffix_def c split: if_splits)
  note IH = Cons(1) [OF ls]
  consider (hit) "2 < length (link_name l)" "drop 2 (link_name l) = needle"
    | (miss) "2 < length (link_name l)" "drop 2 (link_name l) \<noteq> needle"
    | (bucket) "length (link_name l) = 2"
    | (other) "length (link_name l) < 2"
    by linarith
  then show ?case
  proof cases
    case hit
    then have "found = None" "needle \<notin> fst ` set (shard_entries co ls)" using Cons(4,5) by (auto simp: c)
    then show ?thesis using hit IH [of "Some (i, c)" "i + 1" work] by (simp add: c suffix try_convert_cid_good)
  next
    case miss
    then show ?thesis using IH [of found "i + 1" work] Cons(5) by (cases found) (simp_all add: c suffix)
  next
    case bucket
    then show ?thesis using IH [of found "i + 1" "work @ [c]"] Cons(5) by (cases found) (simp_all add: c try_convert_cid_good)
  next
    case other
    then show ?thesis using IH [of found "i + 1" work] Cons(5) by (cases found) (simp_all add: c)
  qed
qed

text \<open>A shard as the writers of sharded directories make it.\<close>

definition good_shard :: "('cid, 'h, 'ce, 'z) cid_ops_scheme \<Rightarrow> flat_unix_fs \<Rightarrow> bool" where
  "good_shard co f \<longleftrightarrow> unix_fs.Type (flat_data f) = HAMTShard \<and> check_supported f = Done (Ok ()) \<and>
     good_links co (flat_links f) \<and> prefixed (flat_links f) \<and> distinct (map fst (shard_entries co (flat_links f)))"

lemma search_shard_spec:
  assumes "good_shard co f"
  shows "search_shard co f needle work = Done (Ok
    (case map_of (shard_entries co (flat_links f)) needle of
       Some c \<Rightarrow> Found c
     | None \<Rightarrow> if work @ shard_buckets co (flat_links f) = [] then NotFound
         else NeedToLoadMore \<lparr>sl_links = work @ shard_buckets co (flat_links f), sl_needle = needle\<rparr>))"
  using assms partition_shard_spec [of co "flat_links f" None needle 0 work]
  by (auto simp: good_shard_def search_shard_def split: option.split)

section \<open>Blocks that make the code panic\<close>

text \<open>
  A link of a shard whose name has a character across its third byte, which every block received from the network may have, makes
  the lookup of any name panic.
\<close>

theorem shard_name_panics:
  assumes "unix_fs.Type (flat_data f) = HAMTShard" "check_supported f = Done (Ok ())"
    and "flat_links f = l # ls" "2 < length (link_name l)" "is_continuation (link_name l ! 2)"
  shows "lookup_or_start co f needle = Panic"
  using assms by (simp add: lookup_or_start_def search_shard_def name_suffix_def)

text \<open>The name \<open>a\<close> followed by \<open>e\<close> with an acute accent is such a name.\<close>

lemma panicking_name: "utf8_valid [0x61, 0xC3, 0xA9]" "is_continuation ([0x61, 0xC3, 0xA9] ! 2)"
  by (simp_all add: utf8_valid_Cons first_char_def utf8_char_width_def is_continuation_def)

text \<open>A node whose data is present, empty and at the end of the block.\<close>

theorem empty_data_panics: "wrap_node_data protobuf [0x0A, 0x00] = Some Panic"
proof -
  have "read_fields protobuf (data_position_field protobuf (Suc (Suc 0))) [0x0A, 0x00] (pb_node_default, 0) =
      Some (Ok (\<lparr>Links = [], node_Data = Some []\<rparr>, 2))"
    by (subst read_fields.simps) (simp add: data_position_field_def pb_node_field_def pb_node_default_def protobuf_def read_delimited_def)
  then show ?thesis by (simp add: wrap_node_data_def node_data_def subslice_to_range_def)
qed

text \<open>A node that was read once can be wrapped, or the wrapping panics.\<close>

lemma read_position:
  assumes "read_fields pw (pb_node_field pw) bs node = Some r"
  shows "\<forall>n p. r = Ok n \<longrightarrow> (\<exists>p'. read_fields pw (data_position_field pw full) bs (node, p) = Some (Ok (n, p')))"
proof -
  have "pw = pw \<longrightarrow> pb_node_field pw = pb_node_field pw \<longrightarrow>
      (\<forall>n p. r = Ok n \<longrightarrow> (\<exists>p'. read_fields pw (data_position_field pw full) bs (node, p) = Some (Ok (n, p'))))"
    apply (rule read_fields.raw_induct [where P = "\<lambda>pw' field bs node r. pw' = pw \<longrightarrow> field = pb_node_field pw \<longrightarrow>
      (\<forall>n p. r = Ok n \<longrightarrow> (\<exists>p'. read_fields pw (data_position_field pw full) bs (node, p) = Some (Ok (n, p'))))", OF _ assms])
    subgoal premises step for loop pw' field bs node r
    proof (intro impI allI)
      fix n p assume eqs: "pw' = pw" "field = pb_node_field pw" "r = Ok n"
      show "\<exists>p'. read_fields pw (data_position_field pw full) bs (node, p) = Some (Ok (n, p'))"
      proof (cases "bs = []")
        case True
        then show ?thesis using step(2) eqs by simp
      next
        case False
        then obtain t rest y where t: "next_tag pw bs = Ok (t, rest)" "pb_node_field pw t rest node = Some y"
          "(case y of Err e \<Rightarrow> Some (Err e) | Ok (msg, bs) \<Rightarrow> loop pw (pb_node_field pw) bs msg) = Some (Ok n)"
          using step(2) eqs by (cases "next_tag pw bs") (auto simp: bind_eq_Some_conv)
        then obtain msg rest' where "y = Ok (msg, rest')" by (cases y) auto
        with t have f: "next_tag pw bs = Ok (t, rest)" "pb_node_field pw t rest node = Some (Ok (msg, rest'))"
          "loop pw (pb_node_field pw) rest' msg = Some (Ok n)" by simp_all
        then show ?thesis
          using step(1) [rule_format, OF f(3)] False by (subst read_fields.simps) (simp add: data_position_field_def)
      qed
    qed
    done
  then show ?thesis by simp
qed

end
