(* ===== verification/Subscription.thy ===== *)
theory Subscription
  imports Prelude
begin

text \<open>
  The registry of pending requests of the IPFS node, \<open>utils/rust-ipfs/src/subscription.rs\<close>: futures wait for a request
  kind, whoever has the answer finishes all of them at once, a dropped future cancels its request, and a shutdown cancels
  everything.  The lemmas show that a result is delivered to every future that waits for it, and that a
  future registered while the registry shuts down is forgotten.
\<close>

section \<open>Requests and subscriptions\<close>

datatype ('addr, 'lst, 'cid, 'query) request_kind =
    Connect 'addr
  | ListenerId 'lst
  | GetBlock 'cid
  | KadQuery 'query

datatype 'cid repo_event =
    WantBlock 'cid
  | UnwantBlock 'cid
  | NewBlockEvent 'cid
  | RemovedBlock 'cid

definition repo_event_try_from :: "('addr, 'lst, 'cid, 'query) request_kind \<Rightarrow> ('cid repo_event, string) result" where
  "repo_event_try_from req =
     (case req of
        GetBlock cid \<Rightarrow> Ok (UnwantBlock cid)
      | _ \<Rightarrow> Err ''logic error: RepoEvent can only be created from a Request::GetBlock'')"

datatype 'e subscription_err = Sub_Cancelled_Err | Failed 'e

text \<open>A pending subscription may have a waker, and may have a channel on which its cancellation is reported.\<close>

datatype ('t, 'e, 'w) subscription =
    Sub_Ready "('t, 'e) result"
  | Sub_Pending "'w option" bool
  | Sub_Cancelled

definition subscription_new :: "bool \<Rightarrow> ('t, 'e, 'w) subscription" where
  "subscription_new cancel_notifier = Sub_Pending None cancel_notifier"

text \<open>Waking and cancelling return the new state and the tasks that are woken; cancelling also returns the notifications.\<close>

definition subscription_wake :: "('t, 'e) result \<Rightarrow> ('t, 'e, 'w) subscription \<Rightarrow> ('t, 'e, 'w) subscription \<times> 'w list" where
  "subscription_wake result s =
     (Sub_Ready result, case s of Sub_Pending (Some w) _ \<Rightarrow> [w] | _ \<Rightarrow> [])"

definition subscription_cancel ::
  "('addr, 'lst, 'cid, 'query) request_kind \<Rightarrow> bool \<Rightarrow> ('t, 'e, 'w) subscription \<Rightarrow>
   (('t, 'e, 'w) subscription \<times> 'cid repo_event list \<times> 'w list) exec" where
  "subscription_cancel kind is_last s =
     (case s of
        Sub_Pending waker cancel_notifier \<Rightarrow>
          bind_exec (if is_last \<and> cancel_notifier
                     then bind_exec (expect_ok (repo_event_try_from kind)) (\<lambda>ev. Done [ev]) else Done []) (\<lambda>evs.
          Done (Sub_Cancelled, evs, case waker of Some w \<Rightarrow> [w] | None \<Rightarrow> []))
      | _ \<Rightarrow> Done (Sub_Cancelled, [], []))"

section \<open>The registry\<close>

text \<open>\<open>sr_next\<close> is the global counter of subscription ids; \<open>sr_events\<close> and \<open>sr_woken\<close> record what was sent and whom was woken.\<close>

record ('addr, 'lst, 'cid, 'query, 't, 'e, 'w) registry =
  sr_subscriptions :: "('addr, 'lst, 'cid, 'query) request_kind \<Rightarrow> (u64 \<times> ('t, 'e, 'w) subscription) list option"
  sr_shutting_down :: bool
  sr_next :: u64
  sr_events :: "'cid repo_event list"
  sr_woken :: "'w list"

definition registry_default :: "u64 \<Rightarrow> ('addr, 'lst, 'cid, 'query, 't, 'e, 'w) registry" where
  "registry_default n = \<lparr>sr_subscriptions = Map.empty, sr_shutting_down = False, sr_next = n, sr_events = [], sr_woken = []\<rparr>"

record ('addr, 'lst, 'cid, 'query) subscription_future =
  sf_id :: u64
  sf_kind :: "('addr, 'lst, 'cid, 'query) request_kind"
  sf_cleanup_complete :: bool

text \<open>
  \<open>create_subscription\<close> is two steps: it takes an id and reads the shutdown flag, and only then takes the
  lock and registers the subscription; between them other operations may run.
\<close>

definition create_begin ::
  "('addr, 'lst, 'cid, 'query, 't, 'e, 'w) registry \<Rightarrow> ('addr, 'lst, 'cid, 'query, 't, 'e, 'w) registry \<times> u64 \<times> bool" where
  "create_begin r = (r\<lparr>sr_next := sr_next r + 1\<rparr>, sr_next r, sr_shutting_down r)"

definition create_insert ::
  "u64 \<Rightarrow> ('addr, 'lst, 'cid, 'query) request_kind \<Rightarrow> bool \<Rightarrow> bool \<Rightarrow> ('addr, 'lst, 'cid, 'query, 't, 'e, 'w) registry \<Rightarrow>
   (('addr, 'lst, 'cid, 'query, 't, 'e, 'w) registry \<times> ('addr, 'lst, 'cid, 'query) subscription_future) exec" where
  "create_insert i kind cancel_notifier shutting_down r =
     bind_exec (if shutting_down then subscription_cancel kind True (subscription_new cancel_notifier)
                else Done (subscription_new cancel_notifier, [], [])) (\<lambda>(s, evs, woken).
     Done (r\<lparr>sr_subscriptions := (sr_subscriptions r)(kind \<mapsto>
               AList.update i s (case sr_subscriptions r kind of Some subs \<Rightarrow> subs | None \<Rightarrow> [])),
             sr_events := sr_events r @ evs, sr_woken := sr_woken r @ woken\<rparr>,
           \<lparr>sf_id = i, sf_kind = kind, sf_cleanup_complete = False\<rparr>))"

definition create_subscription ::
  "('addr, 'lst, 'cid, 'query) request_kind \<Rightarrow> bool \<Rightarrow> ('addr, 'lst, 'cid, 'query, 't, 'e, 'w) registry \<Rightarrow>
   (('addr, 'lst, 'cid, 'query, 't, 'e, 'w) registry \<times> ('addr, 'lst, 'cid, 'query) subscription_future) exec" where
  "create_subscription kind cancel_notifier r =
     (case create_begin r of (r, i, shutting_down) \<Rightarrow> create_insert i kind cancel_notifier shutting_down r)"

text \<open>Only pending subscriptions are finished; those already ready or cancelled stay as they are.\<close>

definition finish_one ::
  "('t, 'e) result \<Rightarrow> u64 \<times> ('t, 'e, 'w) subscription \<Rightarrow> (u64 \<times> ('t, 'e, 'w) subscription) \<times> 'w list" where
  "finish_one result p =
     (case snd p of
        Sub_Pending _ _ \<Rightarrow> (case subscription_wake result (snd p) of (s, woken) \<Rightarrow> ((fst p, s), woken))
      | _ \<Rightarrow> (p, []))"

definition finish_subscription ::
  "('addr, 'lst, 'cid, 'query) request_kind \<Rightarrow> ('t, 'e) result \<Rightarrow> ('addr, 'lst, 'cid, 'query, 't, 'e, 'w) registry \<Rightarrow>
   ('addr, 'lst, 'cid, 'query, 't, 'e, 'w) registry" where
  "finish_subscription req_kind result r =
     (case sr_subscriptions r req_kind of
        None \<Rightarrow> r
      | Some related_subs \<Rightarrow>
          r\<lparr>sr_subscriptions := (sr_subscriptions r)(req_kind \<mapsto> map (\<lambda>p. fst (finish_one result p)) related_subs),
            sr_woken := sr_woken r @ concat (map (\<lambda>p. snd (finish_one result p)) related_subs)\<rparr>)"

text \<open>
  \<open>shutdown\<close> takes all subscriptions out of the registry and cancels them.  The kinds come in the order in which the hash map
  yields them, given by \<open>kinds\<close>.
\<close>

primrec cancel_all ::
  "(('addr, 'lst, 'cid, 'query) request_kind \<times> ('t, 'e, 'w) subscription) list \<Rightarrow> ('cid repo_event list \<times> 'w list) exec" where
  "cancel_all [] = Done ([], [])"
| "cancel_all (p # ps) =
     bind_exec (subscription_cancel (fst p) True (snd p)) (\<lambda>(_, evs, woken).
     bind_exec (cancel_all ps) (\<lambda>(evs', woken'). Done (evs @ evs', woken @ woken')))"

definition shutdown ::
  "('addr, 'lst, 'cid, 'query) request_kind list \<Rightarrow> ('addr, 'lst, 'cid, 'query, 't, 'e, 'w) registry \<Rightarrow>
   ('addr, 'lst, 'cid, 'query, 't, 'e, 'w) registry exec" where
  "shutdown kinds r =
     (if sr_shutting_down r then Done r
      else
        bind_exec (cancel_all (concat (map (\<lambda>k. map (\<lambda>p. (k, snd p))
          (case sr_subscriptions r k of Some subs \<Rightarrow> subs | None \<Rightarrow> [])) kinds))) (\<lambda>(evs, woken).
        Done (r\<lparr>sr_shutting_down := True, sr_subscriptions := Map.empty,
          sr_events := sr_events r @ evs, sr_woken := sr_woken r @ woken\<rparr>)))"

section \<open>Futures\<close>

datatype 'a poll_result = Poll_Pending | Poll_Ready 'a

definition future_poll ::
  "'w \<Rightarrow> ('addr, 'lst, 'cid, 'query) subscription_future \<Rightarrow> ('addr, 'lst, 'cid, 'query, 't, 'e, 'w) registry \<Rightarrow>
   ('addr, 'lst, 'cid, 'query, 't, 'e, 'w) registry \<times> ('addr, 'lst, 'cid, 'query) subscription_future \<times>
   ('t, 'e subscription_err) result poll_result" where
  "future_poll waker f r =
     (case sr_subscriptions r (sf_kind f) of
        None \<Rightarrow> (r, f, Poll_Ready (Err Sub_Cancelled_Err))
      | Some related_subs \<Rightarrow>
          (case map_of related_subs (sf_id f) of
             None \<Rightarrow> (r, f, Poll_Ready (Err Sub_Cancelled_Err))
           | Some (Sub_Pending _ n) \<Rightarrow>
               (r\<lparr>sr_subscriptions := (sr_subscriptions r)(sf_kind f \<mapsto>
                  AList.update (sf_id f) (Sub_Pending (Some waker) n) related_subs)\<rparr>, f, Poll_Pending)
           | Some s \<Rightarrow>
               (let ret = (case s of Sub_Ready result \<Rightarrow> map_err Failed result | _ \<Rightarrow> Err Sub_Cancelled_Err);
                    related_subs = AList.delete (sf_id f) related_subs;
                    became_empty = (related_subs = []) in
                (r\<lparr>sr_subscriptions := (sr_subscriptions r)(sf_kind f := (if became_empty then None else Some related_subs))\<rparr>,
                 f\<lparr>sf_cleanup_complete := became_empty\<rparr>, Poll_Ready ret))))"

definition future_drop ::
  "('addr, 'lst, 'cid, 'query) subscription_future \<Rightarrow> ('addr, 'lst, 'cid, 'query, 't, 'e, 'w) registry \<Rightarrow>
   ('addr, 'lst, 'cid, 'query, 't, 'e, 'w) registry exec" where
  "future_drop f r =
     (if sf_cleanup_complete f then Done r
      else case sr_subscriptions r (sf_kind f) of
          None \<Rightarrow> Done r
        | Some subs \<Rightarrow>
            (let sub = map_of subs (sf_id f);
                 subs = AList.delete (sf_id f) subs;
                 is_last = (subs = []);
                 r = r\<lparr>sr_subscriptions := (sr_subscriptions r)(sf_kind f := (if is_last then None else Some subs))\<rparr> in
             case sub of
               None \<Rightarrow> Done r
             | Some sub \<Rightarrow>
                 (case sub of
                    Sub_Pending _ _ \<Rightarrow>
                      bind_exec (subscription_cancel (sf_kind f) is_last sub) (\<lambda>(_, evs, woken).
                      Done (r\<lparr>sr_events := sr_events r @ evs, sr_woken := sr_woken r @ woken\<rparr>))
                  | _ \<Rightarrow> Done r)))"


section \<open>What a future receives\<close>

text \<open>
  The operations on a registry in the order in which its lock admits them; \<open>Op_Send\<close> is another user of the channel the
  notifications go to.
\<close>

datatype ('addr, 'lst, 'cid, 'query, 't, 'e, 'w) sub_op =
    Op_Create "('addr, 'lst, 'cid, 'query) request_kind" bool
  | Op_Finish "('addr, 'lst, 'cid, 'query) request_kind" "('t, 'e) result"
  | Op_Poll 'w "('addr, 'lst, 'cid, 'query) subscription_future"
  | Op_Drop "('addr, 'lst, 'cid, 'query) subscription_future"
  | Op_Send "'cid repo_event"

primrec run_sub_op ::
  "('addr, 'lst, 'cid, 'query, 't, 'e, 'w) sub_op \<Rightarrow> ('addr, 'lst, 'cid, 'query, 't, 'e, 'w) registry \<Rightarrow>
   ('addr, 'lst, 'cid, 'query, 't, 'e, 'w) registry exec" where
  "run_sub_op (Op_Create kind n) r = bind_exec (create_subscription kind n r) (\<lambda>(r, _). Done r)"
| "run_sub_op (Op_Finish kind res) r = Done (finish_subscription kind res r)"
| "run_sub_op (Op_Poll w f) r = Done (fst (future_poll w f r))"
| "run_sub_op (Op_Drop f) r = future_drop f r"
| "run_sub_op (Op_Send ev) r = Done (r\<lparr>sr_events := sr_events r @ [ev]\<rparr>)"

primrec run_sub_ops ::
  "('addr, 'lst, 'cid, 'query, 't, 'e, 'w) sub_op list \<Rightarrow> ('addr, 'lst, 'cid, 'query, 't, 'e, 'w) registry \<Rightarrow>
   ('addr, 'lst, 'cid, 'query, 't, 'e, 'w) registry exec" where
  "run_sub_ops [] r = Done r"
| "run_sub_ops (p # ps) r = bind_exec (run_sub_op p r) (run_sub_ops ps)"

definition sub_entry ::
  "('addr, 'lst, 'cid, 'query, 't, 'e, 'w) registry \<Rightarrow> ('addr, 'lst, 'cid, 'query) request_kind \<Rightarrow> u64 \<Rightarrow>
   ('t, 'e, 'w) subscription option" where
  "sub_entry r kind i = (case sr_subscriptions r kind of None \<Rightarrow> None | Some subs \<Rightarrow> map_of subs i)"

definition op_of :: "u64 \<Rightarrow> ('addr, 'lst, 'cid, 'query, 't, 'e, 'w) sub_op \<Rightarrow> bool" where
  "op_of i p = (case p of Op_Poll _ f \<Rightarrow> sf_id f = i | Op_Drop f \<Rightarrow> sf_id f = i | _ \<Rightarrow> False)"

lemma sub_entry_simps [simp]:
  "sub_entry (r\<lparr>sr_events := evs\<rparr>) = sub_entry r" "sub_entry (r\<lparr>sr_woken := ws\<rparr>) = sub_entry r"
  "sub_entry (r\<lparr>sr_next := n\<rparr>) = sub_entry r" "sub_entry (r\<lparr>sr_shutting_down := b\<rparr>) = sub_entry r"
  by (simp_all add: sub_entry_def fun_eq_iff)

lemma map_of_finish:
  "map_of (map (\<lambda>p. fst (finish_one res p)) subs) i =
     map_option (\<lambda>s. case s of Sub_Pending _ _ \<Rightarrow> Sub_Ready res | _ \<Rightarrow> s) (map_of subs i)"
  by (induction subs) (auto simp: finish_one_def subscription_wake_def split: subscription.splits)

lemma sub_entry_finish:
  "sub_entry (finish_subscription k res r) kind i =
     (if k = kind then map_option (\<lambda>s. case s of Sub_Pending _ _ \<Rightarrow> Sub_Ready res | _ \<Rightarrow> s) (sub_entry r kind i)
      else sub_entry r kind i)"
  by (auto simp: sub_entry_def finish_subscription_def map_of_finish split: option.splits)

lemma sub_entry_create:
  assumes "create_insert j k n sd r = Done (r', f)"
  shows "sub_entry r' kind i = (if k = kind \<and> j = i then Some (if sd then Sub_Cancelled else Sub_Pending None n) else sub_entry r kind i)"
    and "sr_next r' = sr_next r" "sr_shutting_down r' = sr_shutting_down r"
  using assms
  by (auto simp: create_insert_def subscription_new_def subscription_cancel_def sub_entry_def update_conv' bind_exec_Done_iff
      split: if_splits option.splits)

lemma delete_Nil: "AList.delete j subs = [] \<Longrightarrow> i \<noteq> j \<Longrightarrow> map_of subs i = None"
  by (metis delete_conv' fun_upd_other map_of.simps(1))

lemma future_poll_pending:
  "sub_entry r (sf_kind f) (sf_id f) = Some (Sub_Pending w n) \<Longrightarrow> snd (snd (future_poll w' f r)) = Poll_Pending"
  by (auto simp: future_poll_def sub_entry_def split: option.splits)

lemma sub_entry_poll:
  "\<not> (sf_kind f = kind \<and> sf_id f = i) \<Longrightarrow> sub_entry (fst (future_poll w f r)) kind i = sub_entry r kind i"
  by (auto simp: future_poll_def sub_entry_def update_conv' delete_conv' delete_Nil Let_def split: option.splits subscription.splits)

lemma sub_entry_drop:
  "future_drop f r = Done r' \<Longrightarrow> \<not> (sf_kind f = kind \<and> sf_id f = i) \<Longrightarrow> sub_entry r' kind i = sub_entry r kind i"
  by (auto simp: future_drop_def sub_entry_def delete_conv' delete_Nil Let_def bind_exec_Done_iff
      split: option.splits subscription.splits if_splits prod.splits)

lemma future_drop_flags: "future_drop f r = Done r' \<Longrightarrow> sr_next r' = sr_next r \<and> sr_shutting_down r' = sr_shutting_down r"
  by (auto simp: future_drop_def Let_def split: option.splits subscription.splits if_splits)

lemma run_sub_op_flags:
  "run_sub_op p r = Done r' \<Longrightarrow> unat (sr_next r) + 1 < 2 ^ 64 \<Longrightarrow>
     sr_shutting_down r' = sr_shutting_down r \<and> sr_next r \<le> sr_next r' \<and> unat (sr_next r') \<le> unat (sr_next r) + 1"
  by (cases p)
    (auto simp: create_subscription_def create_begin_def sub_entry_create finish_subscription_def future_poll_def Let_def
      word_le_nat_alt unat_word_ariths dest: future_drop_flags split: option.splits subscription.splits)

text \<open>An operation that is not on the future with id \<open>i\<close> changes its subscription only by finishing its kind.\<close>

lemma run_sub_op_entry:
  assumes "run_sub_op p r = Done r'" "\<not> op_of i p" "i < sr_next r"
  shows "sub_entry r' kind i =
    (case p of Op_Finish k res \<Rightarrow> sub_entry (finish_subscription k res r) kind i | _ \<Rightarrow> sub_entry r kind i)"
  using assms
  by (cases p)
    (auto simp: op_of_def create_subscription_def create_begin_def sub_entry_create sub_entry_poll sub_entry_drop)

lemma run_sub_ops_entry:
  assumes "run_sub_ops ps r = Done r'" "\<forall>p\<in>set ps. \<not> op_of i p" "i < sr_next r" "unat (sr_next r) + length ps < 2 ^ 64"
    and "\<And>k res r. Op_Finish k res \<in> set ps \<Longrightarrow> sub_entry r kind i = s \<Longrightarrow> sub_entry (finish_subscription k res r) kind i = s"
    and "sub_entry r kind i = s"
  shows "sub_entry r' kind i = s \<and> i < sr_next r' \<and> unat (sr_next r') \<le> unat (sr_next r) + length ps"
  using assms
proof (induction ps arbitrary: r)
  case (Cons p ps)
  from Cons.prems(1) obtain r1 where r1: "run_sub_op p r = Done r1" "run_sub_ops ps r1 = Done r'" by auto
  have fl: "sr_next r \<le> sr_next r1" "unat (sr_next r1) \<le> unat (sr_next r) + 1"
    using run_sub_op_flags [OF r1(1)] Cons.prems(4) by auto
  have "sub_entry r1 kind i = s"
    using run_sub_op_entry [OF r1(1), of i kind] Cons.prems(2,3,5,6) by (cases p) auto
  then have "sub_entry r' kind i = s \<and> i < sr_next r' \<and> unat (sr_next r') \<le> unat (sr_next r1) + length ps"
    using Cons.prems fl by (intro Cons.IH [OF r1(2)]) auto
  with fl show ?case by auto
qed simp

text \<open>
  A future gets the first result that its request is finished with, whatever other futures do in between, and whatever the request
  is finished with later.
\<close>

lemma first_result:
  assumes "create_subscription kind n r = Done (r1, f)" "\<not> sr_shutting_down r"
    and "run_sub_ops before r1 = Done r2" "run_sub_ops after (finish_subscription kind res r2) = Done r3"
    and "\<forall>p\<in>set before. \<forall>res'. p \<noteq> Op_Finish kind res'" "\<forall>p\<in>set (before @ after). \<not> op_of (sf_id f) p"
    and "unat (sr_next r) + length before + length after + 1 < 2 ^ 64"
  shows "snd (snd (future_poll w f r2)) = Poll_Pending \<and>
    snd (snd (future_poll w f r3)) = Poll_Ready (map_err Failed res)"
proof -
  let ?i = "sf_id f"
  have f: "sf_kind f = kind" "?i = sr_next r" "sub_entry r1 kind ?i = Some (Sub_Pending None n)" "sr_next r1 = sr_next r + 1"
    using assms(1,2) by (auto simp: create_subscription_def create_begin_def sub_entry_create)
      (auto simp: create_insert_def)
  have n1: "?i < sr_next r1" "unat (sr_next r1) = unat (sr_next r) + 1"
    using assms(7) by (simp_all add: f word_less_nat_alt unat_word_ariths)
  have 2: "sub_entry r2 kind ?i = Some (Sub_Pending None n) \<and> ?i < sr_next r2 \<and> unat (sr_next r2) \<le> unat (sr_next r1) + length before"
    using assms n1 f(3) by (intro run_sub_ops_entry [OF assms(3)]) (auto simp: sub_entry_finish)
  let ?r = "finish_subscription kind res r2"
  have nx: "sr_next ?r = sr_next r2" by (simp add: finish_subscription_def split: option.split)
  have "sub_entry ?r kind ?i = Some (Sub_Ready res)" using 2 by (simp add: sub_entry_finish)
  then have "sub_entry r3 kind ?i = Some (Sub_Ready res)"
    using assms n1 2 nx run_sub_ops_entry [OF assms(4), of ?i kind "Some (Sub_Ready res)"] by (simp add: sub_entry_finish)
  with 2 f show ?thesis by (auto simp: future_poll_def sub_entry_def Let_def split: option.splits)
qed

section \<open>Shutting down\<close>

definition all_cancelled :: "('addr, 'lst, 'cid, 'query, 't, 'e, 'w) registry \<Rightarrow> bool" where
  "all_cancelled r \<longleftrightarrow> sr_shutting_down r \<and> (\<forall>kind i. sub_entry r kind i \<in> {None, Some Sub_Cancelled})"

lemma sub_entry_poll_same:
  "sub_entry r (sf_kind f) (sf_id f) \<in> {None, Some Sub_Cancelled} \<Longrightarrow>
     sub_entry (fst (future_poll w f r)) (sf_kind f) (sf_id f) = None"
  by (auto simp: future_poll_def sub_entry_def delete_conv' Let_def split: option.splits if_splits)

lemma sub_entry_drop_same:
  "future_drop f r = Done r' \<Longrightarrow> sub_entry r' (sf_kind f) (sf_id f) \<in> {None, sub_entry r (sf_kind f) (sf_id f)}"
  by (auto simp: future_drop_def sub_entry_def delete_conv' Let_def split: option.splits subscription.splits if_splits)

lemma create_cancelled: "create_subscription k n r = Done (r', f) \<Longrightarrow> all_cancelled r \<Longrightarrow> all_cancelled r'"
  by (auto simp: create_subscription_def create_begin_def sub_entry_create all_cancelled_def)

lemma future_poll_cancelled:
  assumes "all_cancelled r"
  shows "all_cancelled (fst (future_poll w f r))"
proof -
  have "sr_shutting_down (fst (future_poll w f r)) = sr_shutting_down r"
    by (simp add: future_poll_def Let_def split: option.split subscription.split)
  moreover have "sub_entry (fst (future_poll w f r)) kind i \<in> {None, Some Sub_Cancelled}" for kind i
    using assms sub_entry_poll_same [of r f w] sub_entry_poll [of f kind i w r]
    by (cases "sf_kind f = kind \<and> sf_id f = i") (auto simp: all_cancelled_def)
  ultimately show ?thesis using assms by (simp add: all_cancelled_def)
qed

lemma future_drop_cancelled:
  assumes "future_drop f r = Done r'" "all_cancelled r"
  shows "all_cancelled r'"
proof -
  have "sub_entry r' kind i \<in> {None, Some Sub_Cancelled}" for kind i
    using assms(2) sub_entry_drop_same [OF assms(1)] sub_entry_drop [OF assms(1), of kind i]
    by (cases "sf_kind f = kind \<and> sf_id f = i") (simp_all add: all_cancelled_def, metis)
  then show ?thesis using assms(2) future_drop_flags [OF assms(1)] by (simp add: all_cancelled_def)
qed

lemma finish_cancelled:
  assumes "all_cancelled r"
  shows "all_cancelled (finish_subscription k res r)"
proof -
  have "sr_shutting_down (finish_subscription k res r) = sr_shutting_down r"
    by (simp add: finish_subscription_def split: option.split)
  moreover have "sub_entry (finish_subscription k res r) kind i \<in> {None, Some Sub_Cancelled}" for kind i
  proof -
    have "sub_entry r kind i = None \<or> sub_entry r kind i = Some Sub_Cancelled" using assms by (simp add: all_cancelled_def)
    then show ?thesis by (auto simp: sub_entry_finish)
  qed
  ultimately show ?thesis using assms by (simp add: all_cancelled_def)
qed

lemma run_sub_op_cancelled: "run_sub_op p r = Done r' \<Longrightarrow> all_cancelled r \<Longrightarrow> all_cancelled r'"
  by (cases p) (auto intro: future_poll_cancelled finish_cancelled create_cancelled future_drop_cancelled
      simp: all_cancelled_def [of "_\<lparr>sr_events := _\<rparr>"], auto simp: all_cancelled_def)

lemma run_sub_ops_cancelled: "run_sub_ops ps r = Done r' \<Longrightarrow> all_cancelled r \<Longrightarrow> all_cancelled r'"
  by (induction ps arbitrary: r) (auto dest: run_sub_op_cancelled)



text \<open>
  The flag is read before the lock is taken.  A subscription whose creation is interrupted by the shutdown
  between the two is left pending in a registry that nobody cancels again.
\<close>

theorem subscription_during_shutdown_stays_pending:
  assumes "create_begin r = (r1, i, sd)" "\<not> sr_shutting_down r" "shutdown kinds r1 = Done r2"
    and "create_insert i kind n sd r2 = Done (r3, f)"
  shows "sr_shutting_down r3 \<and> shutdown kinds r3 = Done r3 \<and> snd (snd (future_poll w f r3)) = Poll_Pending"
proof -
  have "sr_shutting_down r3" "sub_entry r3 kind i = Some (Sub_Pending None n)"
    using assms by (auto simp: create_begin_def shutdown_def sub_entry_create)
  moreover have "sf_kind f = kind" "sf_id f = i" using assms(4) by (auto simp: create_insert_def)
  ultimately show ?thesis by (auto simp: shutdown_def future_poll_def sub_entry_def split: option.splits)
qed

end
