(* ===== verification/Ipfs_Path.thy ===== *)
theory Ipfs_Path
  imports Rust_Str
begin

text \<open>
  \<open>utils/rust-ipfs/src/path.rs\<close>: parsing and printing of IPFS paths.  Strings are their UTF-8 bytes; the text forms of CIDs and
  peer ids come from third-party crates and are parameters, with the laws the round trips rely on collected in a
  locale.
\<close>

section \<open>Paths\<close>

record ('cid, 'peer, 'ce) path_texts =
  cid_parse :: "bytes \<Rightarrow> ('cid, 'ce) result"
  cid_text :: "'cid \<Rightarrow> bytes"
  peer_parse :: "bytes \<Rightarrow> 'peer option"
  peer_text :: "'peer \<Rightarrow> bytes"

datatype ('cid, 'peer) path_root = Ipld 'cid | Ipns 'peer | Dns bytes

type_synonym slashed_path = "bytes list"

record ('cid, 'peer) ipfs_path =
  ip_root :: "('cid, 'peer) path_root"
  ip_path :: slashed_path

datatype 'ce ipfs_path_error = InvalidPath bytes | SegmentContainsSlash bytes | InvalidCid 'ce

definition slash :: byte where
  "slash = 0x2f"

fun push_split :: "bytes list \<Rightarrow> slashed_path \<Rightarrow> slashed_path \<times> (unit, unit) result" where
  "push_split [] path = (path, Ok ())"
| "push_split (sub_path # split) path =
     (if sub_path = [] then (if split = [] then (path, Ok ()) else (path, Err ()))
      else push_split split (path @ [sub_path]))"

definition push_path :: "bytes \<Rightarrow> slashed_path \<Rightarrow> slashed_path \<times> (unit, 'ce ipfs_path_error) result" where
  "push_path s path =
     (if s = [] then (path, Ok ())
      else case push_split (split_at slash s) path of
          (path, Ok _) \<Rightarrow> (path, Ok ())
        | (path, Err _) \<Rightarrow> (path, Err (SegmentContainsSlash s)))"

definition shift :: "nat \<Rightarrow> slashed_path \<Rightarrow> slashed_path exec" where
  "shift n path = (if n \<le> length path then Done (drop n path) else Panic)"

definition truncate :: "nat \<Rightarrow> slashed_path \<Rightarrow> slashed_path" where
  "truncate len path = take len path"

text \<open>\<open>Display for SlashedPath\<close>: a slash before every segment but the first.\<close>

definition slashed_text :: "slashed_path \<Rightarrow> bytes" where
  "slashed_text path = snd (fold (\<lambda>s (first, out). (False, out @ (if first then [] else [slash]) @ s)) path (True, []))"

text \<open>\<open>PartialEq<[&str]> for SlashedPath\<close>.\<close>

definition eq_strs :: "slashed_path \<Rightarrow> bytes list \<Rightarrow> bool" where
  "eq_strs path other = list_all (\<lambda>(a, b). a = b) (zip path other)"

definition path_new :: "('cid, 'peer) path_root \<Rightarrow> ('cid, 'peer) ipfs_path" where
  "path_new root = \<lparr>ip_root = root, ip_path = []\<rparr>"

definition path_push_str ::
  "bytes \<Rightarrow> ('cid, 'peer) ipfs_path \<Rightarrow> ('cid, 'peer) ipfs_path \<times> (unit, 'ce ipfs_path_error) result" where
  "path_push_str s p = (case push_path s (ip_path p) of (path, r) \<Rightarrow> (p\<lparr>ip_path := path\<rparr>, r))"

definition sub_path :: "bytes \<Rightarrow> ('cid, 'peer) ipfs_path \<Rightarrow> (('cid, 'peer) ipfs_path, 'ce ipfs_path_error) result" where
  "sub_path segments p = (case path_push_str segments p of (path, Ok _) \<Rightarrow> Ok path | (_, Err e) \<Rightarrow> Err e)"

definition into_shifted :: "nat \<Rightarrow> ('cid, 'peer) ipfs_path \<Rightarrow> slashed_path exec" where
  "into_shifted shifted p = (if shifted \<le> length (ip_path p) then shift shifted (ip_path p) else Panic)"

definition into_truncated :: "nat \<Rightarrow> ('cid, 'peer) ipfs_path \<Rightarrow> slashed_path exec" where
  "into_truncated len p = (if len \<le> length (ip_path p) then Done (truncate len (ip_path p)) else Panic)"

definition root_cid :: "('cid, 'peer) path_root \<Rightarrow> 'cid option" where
  "root_cid r = (case r of Ipld cid \<Rightarrow> Some cid | _ \<Rightarrow> None)"

definition try_into_cid :: "('cid, 'peer) path_root \<Rightarrow> ('cid, unit) result" where
  "try_into_cid r = (case r of Ipld cid \<Rightarrow> Ok cid | _ \<Rightarrow> Err ())"

definition try_into_peer :: "('cid, 'peer) path_root \<Rightarrow> ('peer, unit) result" where
  "try_into_peer r = (case r of Ipns peer_id \<Rightarrow> Ok peer_id | _ \<Rightarrow> Err ())"

definition root_text :: "('cid, 'peer, 'ce) path_texts \<Rightarrow> ('cid, 'peer) path_root \<Rightarrow> bytes" where
  "root_text tx r =
     (let (prefix, key) = (case r of
        Ipld cid \<Rightarrow> (str_bytes ''/ipfs/'', cid_text tx cid)
      | Ipns peer_id \<Rightarrow> (str_bytes ''/ipns/'', peer_text tx peer_id)
      | Dns domain \<Rightarrow> (str_bytes ''/ipns/'', domain))
      in prefix @ key)"

definition path_text :: "('cid, 'peer, 'ce) path_texts \<Rightarrow> ('cid, 'peer) ipfs_path \<Rightarrow> bytes" where
  "path_text tx p = root_text tx (ip_root p) @ (if ip_path p = [] then [] else [slash] @ slashed_text (ip_path p))"

section \<open>Parsing\<close>

text \<open>The root and the pieces left for the path; \<open>string\<close> is only for the error.\<close>

definition parse_root ::
  "('cid, 'peer, 'ce) path_texts \<Rightarrow> bytes \<Rightarrow> bytes list \<Rightarrow>
   (('cid, 'peer) path_root \<times> bytes list, 'ce ipfs_path_error) result" where
  "parse_root tx string pieces =
     (let empty = hd pieces; subpath = tl pieces in
      if empty \<noteq> [] then (case cid_parse tx empty of Ok c \<Rightarrow> Ok (Ipld c, subpath) | Err e \<Rightarrow> Err (InvalidCid e))
      else
        (case subpath of
           root_type # key # subpath \<Rightarrow>
             if root_type = str_bytes ''ipfs'' \<or> root_type = str_bytes ''ipld'' then
               (case cid_parse tx key of Ok c \<Rightarrow> Ok (Ipld c, subpath) | Err e \<Rightarrow> Err (InvalidCid e))
             else if root_type = str_bytes ''ipns'' then
               (case peer_parse tx key of Some peer_id \<Rightarrow> Ok (Ipns peer_id, subpath) | None \<Rightarrow> Ok (Dns key, subpath))
             else Err (InvalidPath string)
         | _ \<Rightarrow> Err (InvalidPath string)))"

definition path_from_str ::
  "('cid, 'peer, 'ce) path_texts \<Rightarrow> bytes \<Rightarrow> (('cid, 'peer) ipfs_path, 'ce ipfs_path_error) result" where
  "path_from_str tx string =
     (case parse_root tx string (split_at slash string) of
        Err e \<Rightarrow> Err e
      | Ok (root, subpath) \<Rightarrow>
          (let path = path_new root in
           case push_split subpath (ip_path path) of
             (p, Ok _) \<Rightarrow> Ok (path\<lparr>ip_path := p\<rparr>)
           | (_, Err _) \<Rightarrow> Err (InvalidPath string)))"

section \<open>Segments\<close>

lemma slashed_text_join: "slashed_text path = join [slash] path"
proof -
  have step: "fold (\<lambda>s (first, out). (False, out @ (if first then [] else [slash]) @ s)) ps (False, out) =
      (False, out @ concat (map (\<lambda>s. slash # s) ps))" for ps out
    by (induction ps arbitrary: out) simp_all
  have rest: "join [slash] (p # ps) = p @ concat (map (\<lambda>s. slash # s) ps)" for p ps
    by (induction ps arbitrary: p) simp_all
  show ?thesis by (cases path) (simp_all add: slashed_text_def step rest)
qed

text \<open>The pieces of a text are the segments, with one empty piece at the end allowed.\<close>

definition segments_ok :: "bytes list \<Rightarrow> bool" where
  "segments_ok ps \<longleftrightarrow> (\<forall>p\<in>set ps. p \<noteq> [] \<and> slash \<notin> set p)"

lemma push_split_Ok:
  "push_split ps path = (path', Ok u) \<longleftrightarrow>
     (\<exists>segs. path' = path @ segs \<and> (\<forall>s\<in>set segs. s \<noteq> []) \<and> (ps = segs \<or> ps = segs @ [[]]))"
proof (induction ps arbitrary: path)
  case (Cons p ps)
  show ?case
  proof (cases "p = []")
    case True
    have "p # ps = segs \<or> p # ps = segs @ [[]] \<longleftrightarrow> segs = [] \<and> ps = []" if "\<forall>s\<in>set segs. s \<noteq> []" for segs
      using that True by (cases segs) auto
    with True show ?thesis by auto
  next
    case False
    have "(\<exists>segs. path' = (path @ [p]) @ segs \<and> (\<forall>s\<in>set segs. s \<noteq> []) \<and> (ps = segs \<or> ps = segs @ [[]])) \<longleftrightarrow>
        (\<exists>segs. path' = path @ segs \<and> (\<forall>s\<in>set segs. s \<noteq> []) \<and> (p # ps = segs \<or> p # ps = segs @ [[]]))"
    proof
      assume "\<exists>segs. path' = (path @ [p]) @ segs \<and> (\<forall>s\<in>set segs. s \<noteq> []) \<and> (ps = segs \<or> ps = segs @ [[]])"
      then obtain segs where "path' = (path @ [p]) @ segs" "\<forall>s\<in>set segs. s \<noteq> []" "ps = segs \<or> ps = segs @ [[]]" by blast
      with False show "\<exists>segs. path' = path @ segs \<and> (\<forall>s\<in>set segs. s \<noteq> []) \<and> (p # ps = segs \<or> p # ps = segs @ [[]])"
        by (intro exI [of _ "p # segs"]) auto
    next
      assume "\<exists>segs. path' = path @ segs \<and> (\<forall>s\<in>set segs. s \<noteq> []) \<and> (p # ps = segs \<or> p # ps = segs @ [[]])"
      then obtain segs where s: "path' = path @ segs" "\<forall>s\<in>set segs. s \<noteq> []" "p # ps = segs \<or> p # ps = segs @ [[]]" by blast
      then obtain segs' where "segs = p # segs'" using False by (cases segs) auto
      with s show "\<exists>segs. path' = (path @ [p]) @ segs \<and> (\<forall>s\<in>set segs. s \<noteq> []) \<and> (ps = segs \<or> ps = segs @ [[]])" by auto
    qed
    with Cons.IH [of "path @ [p]"] False show ?thesis by simp
  qed
qed auto


section \<open>Round trips\<close>

text \<open>What is used of the text forms: they parse back and contain no slash.\<close>

definition texts_ok :: "('cid, 'peer, 'ce) path_texts \<Rightarrow> bool" where
  "texts_ok tx \<longleftrightarrow>
     (\<forall>c. cid_parse tx (cid_text tx c) = Ok c \<and> slash \<notin> set (cid_text tx c)) \<and>
     (\<forall>p. peer_parse tx (peer_text tx p) = Some p \<and> slash \<notin> set (peer_text tx p))"

text \<open>Paths that parsing can produce.\<close>

definition path_ok :: "('cid, 'peer, 'ce) path_texts \<Rightarrow> ('cid, 'peer) ipfs_path \<Rightarrow> bool" where
  "path_ok tx p \<longleftrightarrow> segments_ok (ip_path p) \<and>
     (case ip_root p of Dns d \<Rightarrow> slash \<notin> set d \<and> peer_parse tx d = None | _ \<Rightarrow> True)"

definition root_pieces :: "('cid, 'peer, 'ce) path_texts \<Rightarrow> ('cid, 'peer) path_root \<Rightarrow> bytes list" where
  "root_pieces tx r =
     [[], (case r of Ipld _ \<Rightarrow> str_bytes ''ipfs'' | _ \<Rightarrow> str_bytes ''ipns''),
      (case r of Ipld c \<Rightarrow> cid_text tx c | Ipns p \<Rightarrow> peer_text tx p | Dns d \<Rightarrow> d)]"

lemma no_slash_str: "slash \<notin> set (str_bytes ''ipfs'')" "slash \<notin> set (str_bytes ''ipns'')"
  by (simp_all add: slash_def str_bytes_def)

lemma ipfs_ipns_ne: "str_bytes ''ipns'' \<noteq> str_bytes ''ipfs''" "str_bytes ''ipns'' \<noteq> str_bytes ''ipld''"
  by (simp_all add: str_bytes_def)

lemma path_text_join: "path_text tx p = join [slash] (root_pieces tx (ip_root p) @ ip_path p)"
proof -
  have "str_bytes ''/ipfs/'' = slash # str_bytes ''ipfs'' @ [slash]" "str_bytes ''/ipns/'' = slash # str_bytes ''ipns'' @ [slash]"
    by (simp_all add: str_bytes_def slash_def)
  then show ?thesis
    by (cases "ip_path p"; cases "ip_root p")
      (simp_all add: path_text_def root_text_def slashed_text_join root_pieces_def)
qed

lemma root_pieces_no_slash:
  assumes "texts_ok tx" "path_ok tx p" "x \<in> set (root_pieces tx (ip_root p))"
  shows "slash \<notin> set x"
  using assms no_slash_str by (cases "ip_root p") (auto simp: root_pieces_def texts_ok_def path_ok_def)

lemma parse_root_pieces:
  assumes "texts_ok tx" "path_ok tx p"
  shows "parse_root tx string (root_pieces tx (ip_root p) @ ps) = Ok (ip_root p, ps)"
  using assms ipfs_ipns_ne
  by (cases "ip_root p") (auto simp: parse_root_def root_pieces_def texts_ok_def path_ok_def)

lemma print_parse:
  assumes "texts_ok tx" "path_ok tx p"
  shows "path_from_str tx (path_text tx p) = Ok p"
proof -
  have seg: "\<forall>x\<in>set (ip_path p). x \<noteq> [] \<and> slash \<notin> set x" using assms(2) by (simp add: path_ok_def segments_ok_def)
  have "split_at slash (path_text tx p) = root_pieces tx (ip_root p) @ ip_path p"
    unfolding path_text_join
    by (rule split_at_join) (use seg root_pieces_no_slash [OF assms] in \<open>auto simp: root_pieces_def [of tx "ip_root p"]\<close>)
  moreover have "push_split (ip_path p) [] = (ip_path p, Ok ())"
    using push_split_Ok [of "ip_path p" "[]" "ip_path p"] seg by simp
  ultimately show ?thesis
    by (simp add: path_from_str_def parse_root_pieces [OF assms] path_new_def)
qed

lemma parse_root_ok:
  assumes "parse_root tx string ps = Ok (root, rest)" "ps \<noteq> []"
  shows "set rest \<subseteq> set ps \<and> (\<forall>d. root = Dns d \<longrightarrow> d \<in> set ps \<and> peer_parse tx d = None)"
proof -
  obtain e sub where "ps = e # sub" using assms(2) by (cases ps) auto
  with assms(1) show ?thesis
    by (auto simp: parse_root_def split: result.splits list.splits if_splits option.splits)
qed

lemma parse_path_ok:
  assumes "path_from_str tx s = Ok p"
  shows "path_ok tx p"
proof -
  obtain root rest where root: "parse_root tx s (split_at slash s) = Ok (root, rest)"
    using assms by (cases "parse_root tx s (split_at slash s)") (auto simp: path_from_str_def)
  obtain path r where push: "push_split rest [] = (path, r)" by (cases "push_split rest []") auto
  with assms root have p: "p = \<lparr>ip_root = root, ip_path = path\<rparr>" "r = Ok ()"
    by (auto simp: path_from_str_def path_new_def split: result.splits)
  from push p(2) obtain segs where segs: "path = segs" "\<forall>x\<in>set segs. x \<noteq> []" "rest = segs \<or> rest = segs @ [[]]"
    using push_split_Ok [of rest "[]" path "()"] by auto
  note ok = parse_root_ok [OF root split_at_ne]
  have "slash \<notin> set x" if "x \<in> set segs" for x
    using that segs(3) ok split_at_pieces [of x slash s] by auto
  with segs(1,2) have "segments_ok path" by (simp add: segments_ok_def)
  then show ?thesis using ok split_at_pieces [of _ slash s] by (auto simp: path_ok_def p(1) split: path_root.split)
qed

text \<open>C36: printing and parsing of paths agree.  A path that is printed parses back to itself: every path whose segments are
  non-empty and contain no slash, and whose DNS name, if it has one, contains no slash and is not a peer
  id; and parsing yields only such paths, so a parsed path can be printed and parsed again without loss.\<close>

theorem ipfs_path_roundtrip:
  assumes "texts_ok tx"
  shows "(path_ok tx p \<longrightarrow> path_from_str tx (path_text tx p) = Ok p) \<and>
    (path_from_str tx s = Ok q \<longrightarrow> path_ok tx q \<and> path_from_str tx (path_text tx q) = Ok q)"
  using print_parse [OF assms] parse_path_ok by blast

lemma sub_path_segments:
  assumes "segments_ok segs" "segs \<noteq> []"
  shows "sub_path (join [slash] segs) p = Ok (p\<lparr>ip_path := ip_path p @ segs\<rparr>)"
proof -
  have s: "split_at slash (join [slash] segs) = segs" using assms by (intro split_at_join) (auto simp: segments_ok_def)
  have "join [slash] segs \<noteq> []" using assms by (cases segs rule: remdups_adj.cases) (auto simp: segments_ok_def)
  moreover have "push_split segs (ip_path p) = (ip_path p @ segs, Ok ())"
    using assms(1) push_split_Ok [of segs "ip_path p" "ip_path p @ segs"] by (simp add: segments_ok_def)
  ultimately show ?thesis by (simp add: sub_path_def path_push_str_def push_path_def s)
qed

text \<open>Comparing a path with a list of strings stops at the shorter of the two.\<close>

lemma eq_strs_ignores_length: "eq_strs path (path @ more_segments)" "eq_strs [] other"
proof -
  have "list_all (\<lambda>(a, b). a = b) (zip path (path @ ys))" for ys :: "bytes list"
    by (induction path) simp_all
  then show "eq_strs path (path @ more_segments)" by (simp add: eq_strs_def)
  show "eq_strs [] other" by (simp add: eq_strs_def)
qed

text \<open>Identifiers in unary notation as an instance of the parameters.\<close>

definition sample_texts :: "(nat, nat, unit) path_texts" where
  "sample_texts = \<lparr>cid_parse = (\<lambda>b. if b \<noteq> [] \<and> set b \<subseteq> {0x51} then Ok (length b - 1) else Err ()),
     cid_text = (\<lambda>n. replicate (Suc n) 0x51),
     peer_parse = (\<lambda>b. if b \<noteq> [] \<and> set b \<subseteq> {0x31} then Some (length b - 1) else None),
     peer_text = (\<lambda>n. replicate (Suc n) 0x31)\<rparr>"

lemma sample_texts_ok: "texts_ok sample_texts"
  by (auto simp: texts_ok_def sample_texts_def slash_def)

theorem ipfs_path_roundtrip_witness:
  "path_from_str sample_texts (str_bytes ''/ipns/example.org/a/b'') =
     Ok \<lparr>ip_root = Dns (str_bytes ''example.org''), ip_path = [str_bytes ''a'', str_bytes ''b'']\<rparr> \<and>
   path_from_str sample_texts (path_text sample_texts \<lparr>ip_root = Dns (str_bytes ''example.org''), ip_path = [str_bytes ''a'', str_bytes ''b'']\<rparr>) =
     Ok \<lparr>ip_root = Dns (str_bytes ''example.org''), ip_path = [str_bytes ''a'', str_bytes ''b'']\<rparr>"
proof -
  have "path_from_str sample_texts (str_bytes ''/ipns/example.org/a/b'') =
     Ok \<lparr>ip_root = Dns (str_bytes ''example.org''), ip_path = [str_bytes ''a'', str_bytes ''b'']\<rparr>"
    by (simp add: path_from_str_def parse_root_def str_bytes_def slash_def sample_texts_def path_new_def)
  with ipfs_path_roundtrip [OF sample_texts_ok] show ?thesis by blast
qed

end
