(* ===== verification/Ipfs_Repo.thy ===== *)
theory Ipfs_Repo
  imports Repo_Mem Subscription Ipfs_Path
begin

text \<open>
  The repository of the IPFS node, \<open>utils/rust-ipfs/src/repo/mod.rs\<close>, over the in-memory stores of \<open>repo/mem.rs\<close>: putting,
  getting and removing blocks, the garbage collection of unpinned blocks, and the records of the name system.  The lemmas show
  that a waiting \<open>get_block\<close> is answered by \<open>put_block\<close>, that the collection keeps exactly the blocks stored under a pinned
  CID, and that a published path is read back.
\<close>

section \<open>State\<close>

text \<open>A block is its CID and its bytes.\<close>

type_synonym 'cid block = "'cid \<times> bytes"

text \<open>
  \<open>rp_ipns\<close> is the only column of the data store.  The channel to the swarm is the event log of the registry: the repo sends on the same
  channel that its subscriptions report cancellations to, and ignores whether anyone listens.
\<close>

record ('addr, 'lst, 'cid, 'query, 'h, 'w) repo =
  rp_blocks :: "('cid, 'h, 'cid block) mem_block_store"
  rp_pins :: pins
  rp_ipns :: "bytes \<Rightarrow> bytes option"
  rp_subscriptions :: "('addr, 'lst, 'cid, 'query, 'cid block, string, 'w) registry"

definition repo_new :: "u64 \<Rightarrow> ('addr, 'lst, 'cid, 'query, 'h, 'w) repo" where
  "repo_new n = \<lparr>rp_blocks = Map.empty, rp_pins = Map.empty, rp_ipns = Map.empty, rp_subscriptions = registry_default n\<rparr>"

datatype repo_error =
    Re_Subscription "string subscription_err"
  | Re_Pinned
  | Re_NotFound

definition send_event ::
  "'cid repo_event \<Rightarrow> ('addr, 'lst, 'cid, 'query, 'h, 'w) repo \<Rightarrow> ('addr, 'lst, 'cid, 'query, 'h, 'w) repo" where
  "send_event ev rp = rp\<lparr>rp_subscriptions := (rp_subscriptions rp)\<lparr>sr_events := sr_events (rp_subscriptions rp) @ [ev]\<rparr>\<rparr>"

definition repo_shutdown ::
  "('addr, 'lst, 'cid, 'query) request_kind list \<Rightarrow> ('addr, 'lst, 'cid, 'query, 'h, 'w) repo \<Rightarrow>
   ('addr, 'lst, 'cid, 'query, 'h, 'w) repo exec" where
  "repo_shutdown kinds rp = bind_exec (shutdown kinds (rp_subscriptions rp)) (\<lambda>r. Done (rp\<lparr>rp_subscriptions := r\<rparr>))"

section \<open>Blocks\<close>

text \<open>\<open>provide\<close> is what the swarm answers to a new block: the outcome of the query it started, if it started one.\<close>

definition put_block ::
  "('cid, 'h, 'ce) cid_ops \<Rightarrow> ('cid \<Rightarrow> (unit, string subscription_err) result option) \<Rightarrow> 'cid block \<Rightarrow>
   ('addr, 'lst, 'cid, 'query, 'h, 'w) repo \<Rightarrow>
   ('addr, 'lst, 'cid, 'query, 'h, 'w) repo \<times> ('cid \<times> block_put, repo_error) result" where
  "put_block co provide block rp =
     (let cid = fst block in
      case blocks_put co fst block (rp_blocks rp) of
        (blocks, _, res) \<Rightarrow>
          (let rp = rp\<lparr>rp_blocks := blocks\<rparr> in
           if res = NewBlock then
             (let rp = rp\<lparr>rp_subscriptions := finish_subscription (GetBlock cid) (Ok block) (rp_subscriptions rp)\<rparr>;
                  rp = send_event (NewBlockEvent cid) rp in
              case provide cid of
                Some (Err e) \<Rightarrow> (rp, Err (Re_Subscription e))
              | _ \<Rightarrow> (rp, Ok (cid, res)))
           else (rp, Ok (cid, res))))"

definition get_block_now ::
  "('cid, 'h, 'ce) cid_ops \<Rightarrow> 'cid \<Rightarrow> ('addr, 'lst, 'cid, 'query, 'h, 'w) repo \<Rightarrow> 'cid block option" where
  "get_block_now co cid rp = blocks_get co cid (rp_blocks rp)"

text \<open>\<open>get_block\<close> looks the block up, and then subscribes to it and asks for it; the future is awaited by the caller.\<close>

definition get_block_subscribe ::
  "'cid \<Rightarrow> ('addr, 'lst, 'cid, 'query, 'h, 'w) repo \<Rightarrow>
   (('addr, 'lst, 'cid, 'query, 'h, 'w) repo \<times> ('addr, 'lst, 'cid, 'query) subscription_future) exec" where
  "get_block_subscribe cid rp =
     bind_exec (create_subscription (GetBlock cid) True (rp_subscriptions rp)) (\<lambda>(r, subscription).
     Done (send_event (WantBlock cid) (rp\<lparr>rp_subscriptions := r\<rparr>), subscription))"

definition get_block_start ::
  "('cid, 'h, 'ce) cid_ops \<Rightarrow> 'cid \<Rightarrow> ('addr, 'lst, 'cid, 'query, 'h, 'w) repo \<Rightarrow>
   (('addr, 'lst, 'cid, 'query, 'h, 'w) repo \<times> ('cid block + ('addr, 'lst, 'cid, 'query) subscription_future)) exec" where
  "get_block_start co cid rp =
     (case get_block_now co cid rp of
        Some block \<Rightarrow> Done (rp, Inl block)
      | None \<Rightarrow> bind_exec (get_block_subscribe cid rp) (\<lambda>(rp, subscription). Done (rp, Inr subscription)))"

text \<open>\<open>network\<close> runs the rest of the node until the future is ready; it never returns when the block does not arrive.\<close>

definition get_block ::
  "('cid, 'h, 'ce) cid_ops \<Rightarrow>
   (('addr, 'lst, 'cid, 'query) subscription_future \<Rightarrow> ('addr, 'lst, 'cid, 'query, 'h, 'w) repo \<Rightarrow>
      (('addr, 'lst, 'cid, 'query, 'h, 'w) repo \<times> ('cid block, string subscription_err) result) option) \<Rightarrow>
   'cid \<Rightarrow> ('addr, 'lst, 'cid, 'query, 'h, 'w) repo \<Rightarrow>
   (('addr, 'lst, 'cid, 'query, 'h, 'w) repo \<times> ('cid block, repo_error) result) exec option" where
  "get_block co network cid rp =
     (case get_block_start co cid rp of
        Panic \<Rightarrow> Some Panic
      | Done (rp, Inl block) \<Rightarrow> Some (Done (rp, Ok block))
      | Done (rp, Inr subscription) \<Rightarrow>
          map_option (\<lambda>(rp, r). Done (rp, map_err Re_Subscription r)) (network subscription rp))"

text \<open>\<open>order\<close> is the order in which the hash map yields its keys.\<close>

definition blocks_list :: "'h list \<Rightarrow> ('cid, 'h, 'b) mem_block_store \<Rightarrow> 'cid list" where
  "blocks_list order blocks = concat (map (\<lambda>h. case blocks h of Some (cid, _) \<Rightarrow> [cid] | None \<Rightarrow> []) order)"

definition list_blocks :: "'h list \<Rightarrow> ('addr, 'lst, 'cid, 'query, 'h, 'w) repo \<Rightarrow> 'cid list" where
  "list_blocks order rp = blocks_list order (rp_blocks rp)"

definition remove_block ::
  "('cid, 'h, 'ce) cid_ops \<Rightarrow> 'cid \<Rightarrow> ('addr, 'lst, 'cid, 'query, 'h, 'w) repo \<Rightarrow>
   ('addr, 'lst, 'cid, 'query, 'h, 'w) repo \<times> ('cid, repo_error) result" where
  "remove_block co cid rp =
     (if is_pinned co cid (rp_pins rp) then (rp, Err Re_Pinned)
      else case blocks_remove co cid (rp_blocks rp) of
          (blocks, Ok (Removed _)) \<Rightarrow> (send_event (RemovedBlock cid) (rp\<lparr>rp_blocks := blocks\<rparr>), Ok cid)
        | (blocks, Err (NotFound _)) \<Rightarrow> (rp\<lparr>rp_blocks := blocks\<rparr>, Err Re_NotFound))"

primrec cleanup_blocks ::
  "('cid, 'h, 'ce) cid_ops \<Rightarrow> 'cid list \<Rightarrow> 'cid list \<Rightarrow> ('addr, 'lst, 'cid, 'query, 'h, 'w) repo \<Rightarrow>
   ('addr, 'lst, 'cid, 'query, 'h, 'w) repo \<times> 'cid list" where
  "cleanup_blocks co [] removed_blocks rp = (rp, removed_blocks)"
| "cleanup_blocks co (cid # blocks) removed_blocks rp =
     (if \<not> is_pinned co cid (rp_pins rp) then
        (case remove_block co cid rp of
           (rp, Ok cid) \<Rightarrow> cleanup_blocks co blocks (removed_blocks @ [cid]) rp
         | (rp, Err _) \<Rightarrow> cleanup_blocks co blocks removed_blocks rp)
      else cleanup_blocks co blocks removed_blocks rp)"

definition cleanup ::
  "('cid, 'h, 'ce) cid_ops \<Rightarrow> 'h list \<Rightarrow> ('addr, 'lst, 'cid, 'query, 'h, 'w) repo \<Rightarrow>
   ('addr, 'lst, 'cid, 'query, 'h, 'w) repo \<times> 'cid list" where
  "cleanup co order rp = cleanup_blocks co (list_blocks order rp) [] rp"

section \<open>The data store and the records of the name system\<close>

datatype column = Column_Ipns

definition data_map :: "column \<Rightarrow> ('addr, 'lst, 'cid, 'query, 'h, 'w) repo \<Rightarrow> bytes \<Rightarrow> bytes option" where
  "data_map col rp = (case col of Column_Ipns \<Rightarrow> rp_ipns rp)"

definition data_contains :: "column \<Rightarrow> bytes \<Rightarrow> ('addr, 'lst, 'cid, 'query, 'h, 'w) repo \<Rightarrow> bool" where
  "data_contains col key rp \<longleftrightarrow> data_map col rp key \<noteq> None"

definition data_get :: "column \<Rightarrow> bytes \<Rightarrow> ('addr, 'lst, 'cid, 'query, 'h, 'w) repo \<Rightarrow> bytes option" where
  "data_get col key rp = data_map col rp key"

definition data_put ::
  "column \<Rightarrow> bytes \<Rightarrow> bytes \<Rightarrow> ('addr, 'lst, 'cid, 'query, 'h, 'w) repo \<Rightarrow> ('addr, 'lst, 'cid, 'query, 'h, 'w) repo" where
  "data_put col key value rp = (case col of Column_Ipns \<Rightarrow> rp\<lparr>rp_ipns := (rp_ipns rp)(key \<mapsto> value)\<rparr>)"

definition data_remove ::
  "column \<Rightarrow> bytes \<Rightarrow> ('addr, 'lst, 'cid, 'query, 'h, 'w) repo \<Rightarrow> ('addr, 'lst, 'cid, 'query, 'h, 'w) repo" where
  "data_remove col key rp = (case col of Column_Ipns \<Rightarrow> rp\<lparr>rp_ipns := (rp_ipns rp)(key := None)\<rparr>)"

definition data_wipe :: "('addr, 'lst, 'cid, 'query, 'h, 'w) repo \<Rightarrow> ('addr, 'lst, 'cid, 'query, 'h, 'w) repo" where
  "data_wipe rp = rp\<lparr>rp_ipns := Map.empty, rp_pins := Map.empty\<rparr>"

text \<open>\<open>String::from_utf8_lossy\<close>: every invalid sequence becomes the replacement character.\<close>

definition replacement_character :: bytes where
  "replacement_character = [0xEF, 0xBF, 0xBD]"

function from_utf8_lossy :: "bytes \<Rightarrow> bytes" where
  "from_utf8_lossy [] = []"
| "from_utf8_lossy (b # bs) =
     (case first_char b bs of
        Ok n \<Rightarrow> take n (b # bs) @ from_utf8_lossy (drop (n - 1) bs)
      | Err None \<Rightarrow> replacement_character
      | Err (Some n) \<Rightarrow> replacement_character @ from_utf8_lossy (drop (n - 1) bs))"
  by pat_completeness auto
termination by (relation "measure length") auto

definition get_ipns ::
  "('cid, 'peer, 'ce) path_texts \<Rightarrow> ('peer \<Rightarrow> bytes) \<Rightarrow> 'peer \<Rightarrow> ('addr, 'lst, 'c, 'query, 'h, 'w) repo \<Rightarrow>
   (('cid, 'peer) ipfs_path option, 'ce ipfs_path_error) result" where
  "get_ipns tx peer_bytes ipns rp =
     (case data_get Column_Ipns (peer_bytes ipns) rp of
        Some bs \<Rightarrow> map_result Some id (path_from_str tx (from_utf8_lossy bs))
      | None \<Rightarrow> Ok None)"

definition put_ipns ::
  "('cid, 'peer, 'ce) path_texts \<Rightarrow> ('peer \<Rightarrow> bytes) \<Rightarrow> 'peer \<Rightarrow> ('cid, 'peer) ipfs_path \<Rightarrow>
   ('addr, 'lst, 'c, 'query, 'h, 'w) repo \<Rightarrow> ('addr, 'lst, 'c, 'query, 'h, 'w) repo" where
  "put_ipns tx peer_bytes ipns path rp = data_put Column_Ipns (peer_bytes ipns) (path_text tx path) rp"

definition remove_ipns ::
  "('peer \<Rightarrow> bytes) \<Rightarrow> 'peer \<Rightarrow> ('addr, 'lst, 'c, 'query, 'h, 'w) repo \<Rightarrow> ('addr, 'lst, 'c, 'query, 'h, 'w) repo" where
  "remove_ipns peer_bytes ipns rp = data_remove Column_Ipns (peer_bytes ipns) rp"


section \<open>Waiting for a block\<close>

text \<open>The store files every block under the hash of its CID.\<close>

definition repo_inv :: "('cid, 'h, 'ce) cid_ops \<Rightarrow> ('addr, 'lst, 'cid, 'query, 'h, 'w) repo \<Rightarrow> bool" where
  "repo_inv co rp \<longleftrightarrow> (\<forall>h cid b. rp_blocks rp h = Some (cid, b) \<longrightarrow> co_hash co cid = h \<and> fst b = cid)"

lemma send_event_simps [simp]:
  "rp_blocks (send_event ev rp) = rp_blocks rp" "rp_pins (send_event ev rp) = rp_pins rp" "rp_ipns (send_event ev rp) = rp_ipns rp"
  "sub_entry (rp_subscriptions (send_event ev rp)) = sub_entry (rp_subscriptions rp)"
  by (simp_all add: send_event_def)

lemma put_block_new:
  assumes "rp_blocks rp (co_hash co (fst block)) = None" "put_block co provide block rp = (rp', r)"
  shows "rp_blocks rp' = (rp_blocks rp)(co_hash co (fst block) \<mapsto> (fst block, block))"
    and "rp_pins rp' = rp_pins rp" "rp_ipns rp' = rp_ipns rp"
    and "rp_subscriptions rp' = (finish_subscription (GetBlock (fst block)) (Ok block) (rp_subscriptions rp))
      \<lparr>sr_events := sr_events (finish_subscription (GetBlock (fst block)) (Ok block) (rp_subscriptions rp)) @ [NewBlockEvent (fst block)]\<rparr>"
    and "r = (case provide (fst block) of Some (Err e) \<Rightarrow> Err (Re_Subscription e) | _ \<Rightarrow> Ok (fst block, NewBlock))"
  using assms
  by (auto simp: put_block_def blocks_put_def Let_def send_event_def split: option.splits result.splits)

lemma put_block_existing:
  assumes "rp_blocks rp (co_hash co (fst block)) = Some x"
  shows "put_block co provide block rp = (rp, Ok (fst block, Existed))"
  using assms by (simp add: put_block_def blocks_put_def Let_def)

lemma put_block_inv:
  assumes "put_block co provide block rp = (rp', r)" "repo_inv co rp"
  shows "repo_inv co rp'"
  using assms put_block_new [OF _ assms(1)] put_block_existing [of rp co block _ provide]
  by (cases "rp_blocks rp (co_hash co (fst block))") (auto simp: repo_inv_def)

lemma remove_block_inv:
  assumes "remove_block co cid rp = (rp', r)" "repo_inv co rp"
  shows "repo_inv co rp'"
  using assms by (fastforce simp: remove_block_def blocks_remove_def repo_inv_def split: if_splits option.splits)


text \<open>
  The store identifies blocks by their hash, the subscriptions by the CID.  A block put under another CID with
  the same hash is found by \<open>get_block_now\<close>, while the future that waits for it stays pending.
\<close>

theorem other_cid_not_answered:
  assumes "get_block_start co cid rp = Done (rp1, Inr f)" "\<not> sr_shutting_down (rp_subscriptions rp)"
    and "cid' \<noteq> cid" "co_hash co cid' = co_hash co cid" "put_block co provide (cid', data) rp1 = (rp2, put)"
  shows "get_block_now co cid rp2 = Some (cid', data) \<and> snd (snd (future_poll w f (rp_subscriptions rp2))) = Poll_Pending"
proof -
  have none: "rp_blocks rp (co_hash co cid) = None"
    using assms(1) by (auto simp: get_block_start_def get_block_now_def blocks_get_def split: option.splits)
  obtain r where cr: "create_subscription (GetBlock cid) True (rp_subscriptions rp) = Done (r, f)"
      "rp1 = send_event (WantBlock cid) (rp\<lparr>rp_subscriptions := r\<rparr>)"
    using assms(1) by (auto simp: get_block_start_def get_block_subscribe_def split: option.splits)
  have f: "sf_kind f = GetBlock cid" "sub_entry r (GetBlock cid) (sf_id f) = Some (Sub_Pending None True)"
    using cr(1) assms(2) by (auto simp: create_subscription_def create_begin_def sub_entry_create)
      (auto simp: create_insert_def)
  note put = put_block_new [of rp1 co "(cid', data)", simplified, OF _ assms(5)]
  have b: "rp_blocks rp1 (co_hash co cid') = None" using none assms(4) by (simp add: cr(2))
  have "sub_entry (rp_subscriptions rp2) (GetBlock cid) (sf_id f) = Some (Sub_Pending None True)"
    using assms(3) f(2) by (simp add: put [OF b] sub_entry_finish cr(2))
  then show ?thesis
    using f(1) assms(4) by (simp add: get_block_now_def blocks_get_def put [OF b] future_poll_pending)
qed

text \<open>The block may also arrive between the lookup and the subscription; the future then waits for a block that is already there.\<close>

theorem block_arrives_before_subscription:
  assumes "get_block_now co cid rp = None" "\<not> sr_shutting_down (rp_subscriptions rp)"
    and "put_block co provide (cid, data) rp = (rp1, put)" "get_block_subscribe cid rp1 = Done (rp2, f)"
  shows "get_block_now co cid rp2 = Some (cid, data) \<and> snd (snd (future_poll w f (rp_subscriptions rp2))) = Poll_Pending"
proof -
  have none: "rp_blocks rp (co_hash co cid) = None" using assms(1) by (simp add: get_block_now_def blocks_get_def)
  note put = put_block_new [of rp co "(cid, data)", simplified, OF none assms(3)]
  obtain r where cr: "create_subscription (GetBlock cid) True (rp_subscriptions rp1) = Done (r, f)"
      "rp2 = send_event (WantBlock cid) (rp1\<lparr>rp_subscriptions := r\<rparr>)"
    using assms(4) by (auto simp: get_block_subscribe_def)
  have "\<not> sr_shutting_down (rp_subscriptions rp1)"
    using assms(2) by (simp add: put finish_subscription_def split: option.split)
  then have f: "sf_kind f = GetBlock cid" "sub_entry r (GetBlock cid) (sf_id f) = Some (Sub_Pending None True)"
    using cr(1) by (auto simp: create_subscription_def create_begin_def sub_entry_create)
      (auto simp: create_insert_def)
  have "sub_entry (rp_subscriptions rp2) (GetBlock cid) (sf_id f) = Some (Sub_Pending None True)"
    using f by (simp add: cr(2))
  then show ?thesis
    using f(1) by (simp add: get_block_now_def blocks_get_def put cr(2) future_poll_pending)
qed

section \<open>Collecting garbage\<close>

lemma remove_block_unpinned:
  assumes "\<not> is_pinned co cid (rp_pins rp)" "rp_blocks rp (co_hash co cid) = Some x"
  shows "remove_block co cid rp =
    (send_event (RemovedBlock cid) (rp\<lparr>rp_blocks := (rp_blocks rp)(co_hash co cid := None)\<rparr>), Ok cid)"
  using assms by (simp add: remove_block_def blocks_remove_def)

lemma cleanup_blocks_spec:
  assumes "distinct (map (co_hash co) cids)" "\<forall>c\<in>set cids. rp_blocks rp (co_hash co c) \<noteq> None"
    and "cleanup_blocks co cids acc rp = (rp', removed)"
  shows "removed = acc @ filter (\<lambda>c. \<not> is_pinned co c (rp_pins rp)) cids \<and> rp_pins rp' = rp_pins rp \<and>
    rp_blocks rp' = (\<lambda>h. if \<exists>c\<in>set cids. co_hash co c = h \<and> \<not> is_pinned co c (rp_pins rp) then None else rp_blocks rp h)"
  using assms
proof (induction cids arbitrary: acc rp)
  case (Cons c cids)
  show ?case
  proof (cases "is_pinned co c (rp_pins rp)")
    case True
    with Cons.prems(3) have "cleanup_blocks co cids acc rp = (rp', removed)" by simp
    with Cons.IH [of rp acc] Cons.prems(1,2) True show ?thesis by auto
  next
    case False
    obtain x where x: "rp_blocks rp (co_hash co c) = Some x" using Cons.prems(2) by auto
    let ?rp = "send_event (RemovedBlock c) (rp\<lparr>rp_blocks := (rp_blocks rp)(co_hash co c := None)\<rparr>)"
    have "cleanup_blocks co cids (acc @ [c]) ?rp = (rp', removed)"
      using Cons.prems(3) False by (simp add: remove_block_unpinned [OF False x])
    then have "removed = (acc @ [c]) @ filter (\<lambda>c. \<not> is_pinned co c (rp_pins ?rp)) cids \<and> rp_pins rp' = rp_pins ?rp \<and>
        rp_blocks rp' = (\<lambda>h. if \<exists>c\<in>set cids. co_hash co c = h \<and> \<not> is_pinned co c (rp_pins ?rp) then None else rp_blocks ?rp h)"
    proof (intro Cons.IH)
      have "co_hash co d \<noteq> co_hash co c" if "d \<in> set cids" for d
        using Cons.prems(1) that by (auto simp: in_set_conv_decomp)
      then show "\<forall>d\<in>set cids. rp_blocks ?rp (co_hash co d) \<noteq> None" using Cons.prems(2) by simp
    qed (use Cons.prems(1) in auto)
    with False show ?thesis by (auto simp: fun_eq_iff)
  qed
qed auto

lemma blocks_list_spec:
  assumes "repo_inv co rp" "distinct order"
  shows "distinct (map (co_hash co) (list_blocks order rp))"
    and "\<forall>c\<in>set (list_blocks order rp). rp_blocks rp (co_hash co c) \<noteq> None"
    and "set order = dom (rp_blocks rp) \<Longrightarrow> c \<in> set (list_blocks order rp) \<longleftrightarrow> (\<exists>b. rp_blocks rp (co_hash co c) = Some (c, b))"
proof -
  have hash: "co_hash co c = h" if "rp_blocks rp h = Some (c, b)" for h c b
    using assms(1) that by (cases b) (simp add: repo_inv_def)
  have mem: "c \<in> set (list_blocks order rp) \<longleftrightarrow> (\<exists>h\<in>set order. \<exists>b. rp_blocks rp h = Some (c, b))" for c
    unfolding list_blocks_def blocks_list_def by (induction order) (auto split: option.splits dest: sym [of "Some _"])
  have "map (co_hash co) (list_blocks order rp) = filter (\<lambda>h. rp_blocks rp h \<noteq> None) order"
    unfolding list_blocks_def blocks_list_def by (induction order) (auto simp: hash split: option.split)
  then show "distinct (map (co_hash co) (list_blocks order rp))" using assms(2) by simp
  show "\<forall>c\<in>set (list_blocks order rp). rp_blocks rp (co_hash co c) \<noteq> None"
    by (auto simp: mem) (metis hash)
  show "c \<in> set (list_blocks order rp) \<longleftrightarrow> (\<exists>b. rp_blocks rp (co_hash co c) = Some (c, b))" if "set order = dom (rp_blocks rp)"
    using that hash by (auto simp: mem)
qed

text \<open>
  C11: the garbage collection removes exactly the blocks whose CID is not pinned and returns their CIDs, each once; every block stored
  under a pinned CID stays as it was, and the pins are not touched.
\<close>

theorem gc_keeps_exactly_pinned:
  assumes "repo_inv co rp" "distinct order" "set order = dom (rp_blocks rp)" "cleanup co order rp = (rp', removed)"
  shows "rp_blocks rp' = (\<lambda>h. case rp_blocks rp h of
      Some (cid, b) \<Rightarrow> if is_pinned co cid (rp_pins rp) then Some (cid, b) else None | None \<Rightarrow> None) \<and>
    rp_pins rp' = rp_pins rp \<and> distinct removed \<and> repo_inv co rp' \<and>
    set removed = {cid. \<exists>b. rp_blocks rp (co_hash co cid) = Some (cid, b) \<and> \<not> is_pinned co cid (rp_pins rp)}"
proof -
  let ?cids = "list_blocks order rp"
  note l = blocks_list_spec [OF assms(1,2)]
  note spec = cleanup_blocks_spec [OF l(1,2) assms(4) [unfolded cleanup_def]]
  have hash: "co_hash co c = h" if "rp_blocks rp h = Some (c, b)" for h c b
    using assms(1) that by (cases b) (simp add: repo_inv_def)
  have "(\<exists>c\<in>set ?cids. co_hash co c = h \<and> \<not> is_pinned co c (rp_pins rp)) \<longleftrightarrow>
      (\<exists>c b. rp_blocks rp h = Some (c, b) \<and> \<not> is_pinned co c (rp_pins rp))" for h
    using hash l(3) [OF assms(3)] by blast
  then have blocks: "rp_blocks rp' = (\<lambda>h. case rp_blocks rp h of
      Some (cid, b) \<Rightarrow> if is_pinned co cid (rp_pins rp) then Some (cid, b) else None | None \<Rightarrow> None)"
    using spec by (auto simp: fun_eq_iff split: option.split)
  moreover have "distinct ?cids" using l(1) by (simp add: distinct_map)
  moreover have "repo_inv co rp'"
    using assms(1) unfolding repo_inv_def blocks by (auto split: option.splits if_splits)
  ultimately show ?thesis using spec l(3) [OF assms(3)] by (intro conjI) (auto intro: distinct_filter)
qed

text \<open>
  A pin is filed under the bytes of the CID it was made with, a block under the hash.  A pin made under another CID
  of the same block does not protect it.
\<close>

theorem gc_removes_block_pinned_under_other_cid:
  assumes "repo_inv co rp" "distinct order" "set order = dom (rp_blocks rp)" "cleanup co order rp = (rp', removed)"
    and "rp_blocks rp (co_hash co cid) = Some (cid, b)" "co_hash co cid' = co_hash co cid"
    and "is_pinned co cid' (rp_pins rp)" "\<not> is_pinned co cid (rp_pins rp)"
  shows "get_block_now co cid' rp = Some b \<and> get_block_now co cid' rp' = None"
proof -
  note l = blocks_list_spec [OF assms(1,2)]
  have "cid \<in> set (list_blocks order rp)" using l(3) [OF assms(3), of cid] assms(5) by blast
  then have "rp_blocks rp' (co_hash co cid) = None"
    using cleanup_blocks_spec [OF l(1,2) assms(4) [unfolded cleanup_def]] assms(8) by auto
  with assms(5,6) show ?thesis by (simp add: get_block_now_def blocks_get_def)
qed

section \<open>Names\<close>

lemma from_utf8_lossy_valid: "utf8_valid bs \<Longrightarrow> from_utf8_lossy bs = bs"
proof (induction bs rule: from_utf8_lossy.induct)
  case (2 b bs)
  from 2(3) obtain n where n: "first_char b bs = Ok n" "utf8_valid (drop n (b # bs))" by (auto simp: utf8_valid_Cons)
  have d: "drop (n - 1) bs = drop n (b # bs)" using first_char_pos [OF n(1)] by (cases n) simp_all
  have "from_utf8_lossy (drop (n - 1) bs) = drop (n - 1) bs" using 2(1) n d by simp
  then show ?case using n(1) d by (simp del: drop_Cons take_Cons)
qed simp

text \<open>
  C40: a path published under a peer id is read back unchanged, reading under any other peer id is not affected, and
  after the record is removed there is none.
\<close>

theorem ipns_roundtrip:
  assumes "texts_ok tx" "path_ok tx path" "utf8_valid (path_text tx path)" "inj peer_bytes"
  shows "get_ipns tx peer_bytes peer (put_ipns tx peer_bytes peer path rp) = Ok (Some path) \<and>
    get_ipns tx peer_bytes peer (remove_ipns peer_bytes peer rp) = Ok None \<and>
    (other \<noteq> peer \<longrightarrow> get_ipns tx peer_bytes other (put_ipns tx peer_bytes peer path rp) = get_ipns tx peer_bytes other rp \<and>
      get_ipns tx peer_bytes other (remove_ipns peer_bytes peer rp) = get_ipns tx peer_bytes other rp)"
  using assms
  by (auto simp: get_ipns_def put_ipns_def remove_ipns_def data_get_def data_map_def data_put_def data_remove_def
      from_utf8_lossy_valid print_parse inj_eq)

section \<open>An instance\<close>

type_synonym sample_repo = "(unit, unit, version \<times> byte, unit, byte, unit) repo"

definition sample_repo_blocks :: sample_repo where
  "sample_repo_blocks = (repo_new 0)\<lparr>rp_blocks := [3 \<mapsto> ((V0, 3), ((V0, 3), [1])), 7 \<mapsto> ((V1, 7), ((V1, 7), [2]))],
     rp_pins := [[1, 7] \<mapsto> [], [1, 3] \<mapsto> []]\<rparr>"

lemma sample_repo_inv: "repo_inv sample_cids sample_repo_blocks"
  by (simp add: repo_inv_def sample_repo_blocks_def sample_cids_def)


theorem gc_keeps_exactly_pinned_witness:
  "\<exists>rp' removed. cleanup sample_cids [7, 3] sample_repo_blocks = (rp', removed) \<and>
     get_block_now sample_cids (V1, 7) rp' = Some ((V1, 7), [2]) \<and> get_block_now sample_cids (V0, 3) rp' = None \<and> set removed = {(V0, 3)}"
proof -
  obtain rp' removed where gc: "cleanup sample_cids [7, 3] sample_repo_blocks = (rp', removed)" by fastforce
  have order: "distinct [7, 3 :: byte]" "set [7, 3] = dom (rp_blocks sample_repo_blocks)"
    by (auto simp: sample_repo_blocks_def)
  note res = gc_keeps_exactly_pinned [OF sample_repo_inv order gc]
  have "(\<exists>b. rp_blocks sample_repo_blocks (co_hash sample_cids c) = Some (c, b) \<and> \<not> is_pinned sample_cids c (rp_pins sample_repo_blocks)) \<longleftrightarrow>
      c = (V0, 3)" for c
    by (cases c; cases "snd c = 3"; cases "snd c = 7") (simp_all add: sample_repo_blocks_def sample_cids_def is_pinned_def)
  then have "set removed = {(V0, 3)}" using res by simp
  moreover have "get_block_now sample_cids (V1, 7) rp' = Some ((V1, 7), [2])" "get_block_now sample_cids (V0, 3) rp' = None"
    using res by (simp_all add: get_block_now_def blocks_get_def sample_repo_blocks_def sample_cids_def is_pinned_def)
  ultimately show ?thesis using gc by auto
qed

text \<open>The block of the CID \<open>(V0, 3)\<close> was pinned as \<open>(V1, 3)\<close>, and is collected.\<close>

theorem gc_removes_block_pinned_under_other_cid_witness:
  "\<exists>rp' removed. cleanup sample_cids [7, 3] sample_repo_blocks = (rp', removed) \<and>
     is_pinned sample_cids (V1, 3) (rp_pins sample_repo_blocks) \<and> get_block_now sample_cids (V1, 3) rp' = None"
proof -
  obtain rp' removed where gc: "cleanup sample_cids [7, 3] sample_repo_blocks = (rp', removed)" by fastforce
  have order: "distinct [7, 3 :: byte]" "set [7, 3] = dom (rp_blocks sample_repo_blocks)"
    by (auto simp: sample_repo_blocks_def)
  have pin: "is_pinned sample_cids (V1, 3) (rp_pins sample_repo_blocks)" "\<not> is_pinned sample_cids (V0, 3) (rp_pins sample_repo_blocks)"
    by (simp_all add: is_pinned_def sample_cids_def sample_repo_blocks_def)
  have "get_block_now sample_cids (V1, 3) rp' = None"
    using gc_removes_block_pinned_under_other_cid [OF sample_repo_inv order gc _ _ pin, of "((V0, 3), [1])"]
    by (simp add: sample_repo_blocks_def sample_cids_def)
  with gc pin show ?thesis by auto
qed

theorem ipns_roundtrip_witness:
  "get_ipns sample_texts (\<lambda>p. replicate p 1) 2
     (put_ipns sample_texts (\<lambda>p. replicate p 1) 2 \<lparr>ip_root = Ipld 1, ip_path = [str_bytes ''a'']\<rparr> (repo_new 0 :: sample_repo)) =
     Ok (Some \<lparr>ip_root = Ipld 1, ip_path = [str_bytes ''a'']\<rparr>)"
proof -
  let ?p = "\<lparr>ip_root = Ipld 1, ip_path = [str_bytes ''a'']\<rparr> :: (nat, nat) ipfs_path"
  have "path_ok sample_texts ?p" by (simp add: path_ok_def segments_ok_def str_bytes_def slash_def)
  moreover have "utf8_valid (path_text sample_texts ?p)"
    by (rule utf8_valid_ascii) (simp add: path_text_def root_text_def slashed_text_def sample_texts_def str_bytes_def slash_def)
  moreover have "inj (\<lambda>p. replicate p (1 :: byte))" by (metis injI length_replicate)
  ultimately show ?thesis using ipns_roundtrip [OF sample_texts_ok, of ?p "\<lambda>p. replicate p 1" 2 "repo_new 0 :: sample_repo"] by simp
qed


section \<open>Blocks for the walks\<close>

text \<open>What the walks over linked blocks use of a repo: getting a block, with the waiting that may take, and looking it up.\<close>

record ('cid, 's) block_source =
  bs_get :: "'cid \<Rightarrow> 's \<Rightarrow> ('s \<times> ('cid block, repo_error) result) exec option"
  bs_get_now :: "'cid \<Rightarrow> 's \<Rightarrow> 'cid block option"

definition repo_source ::
  "('cid, 'h, 'ce) cid_ops \<Rightarrow>
   (('addr, 'lst, 'cid, 'query) subscription_future \<Rightarrow> ('addr, 'lst, 'cid, 'query, 'h, 'w) repo \<Rightarrow>
      (('addr, 'lst, 'cid, 'query, 'h, 'w) repo \<times> ('cid block, string subscription_err) result) option) \<Rightarrow>
   ('cid, ('addr, 'lst, 'cid, 'query, 'h, 'w) repo) block_source" where
  "repo_source co network = \<lparr>bs_get = get_block co network, bs_get_now = get_block_now co\<rparr>"

text \<open>A stored block is returned at once, and getting it changes nothing.\<close>

locale stored_blocks =
  fixes src :: "('cid, 's) block_source"
    and stored :: "'s \<Rightarrow> 'cid \<Rightarrow> 'cid block option"
  assumes get_stored: "stored s c = Some b \<Longrightarrow> bs_get src c s = Some (Done (s, Ok b))"
    and now_stored: "bs_get_now src c s = stored s c"

interpretation repo_blocks: stored_blocks "repo_source co network" "\<lambda>rp c. get_block_now co c rp" for co network
  by unfold_locales (simp_all add: repo_source_def get_block_def get_block_start_def)

end
