(* ===== verification/Ipld_Refs.thy ===== *)
theory Ipld_Refs
  imports Ipfs_Repo Unixfs_Pb
begin

text \<open>
  \<open>utils/rust-ipfs/src/refs.rs\<close>: the breadth-first walk over the links of IPLD documents, and the pinning of
  documents built on it (\<open>insert_pin\<close> and \<open>remove_pin\<close> of \<open>utils/rust-ipfs/src/lib.rs\<close>).  The lemmas show that a walk over stored
  blocks ends and reports every linked document once, that a recursive pin therefore protects the whole document from the garbage
  collection, and that removing it restores the pins.
\<close>

section \<open>Links\<close>

text \<open>
  The data model and its codecs are a library.  \<open>io_view\<close> is how the code looks at a value, \<open>io_iter\<close> lists the value with everything
  inside it.
\<close>

datatype ('i, 'cid) ipld_view = V_Map "bytes \<Rightarrow> 'i option" | V_List "'i list" | V_Link 'cid | V_String bytes | V_Other

record ('i, 'cid, 'de) ipld_ops =
  io_view :: "'i \<Rightarrow> ('i, 'cid) ipld_view"
  io_iter :: "'i \<Rightarrow> 'i list"
  io_decode :: "'cid block \<Rightarrow> ('i, 'de) result"
  io_dag_pb :: "'cid \<Rightarrow> bool"

record 'cid edge =
  ed_source :: 'cid
  ed_destination :: 'cid
  ed_name :: "bytes option"

text \<open>One entry of the list of links of a dag-pb document; entries without a hash are skipped.\<close>

definition dagpb_link :: "('i, 'cid, 'de) ipld_ops \<Rightarrow> 'i \<Rightarrow> (bytes option \<times> 'cid) list exec" where
  "dagpb_link io ipld =
     (case io_view io ipld of
        V_Map m \<Rightarrow>
          (case m (str_bytes ''Hash'') of
             None \<Rightarrow> Done []
           | Some h \<Rightarrow>
               (case io_view io h of
                  V_Link cid \<Rightarrow>
                    (case m (str_bytes ''Name'') of
                       None \<Rightarrow> Panic
                     | Some n \<Rightarrow>
                         (case io_view io n of
                            V_String s \<Rightarrow> if s = str_bytes ''/'' then Panic else Done [(Some s, cid)]
                          | _ \<Rightarrow> Panic))
                | _ \<Rightarrow> Panic))
      | _ \<Rightarrow> Panic)"

primrec dagpb_link_list :: "('i, 'cid, 'de) ipld_ops \<Rightarrow> 'i list \<Rightarrow> (bytes option \<times> 'cid) list exec" where
  "dagpb_link_list io [] = Done []"
| "dagpb_link_list io (i # is) =
     bind_exec (dagpb_link io i) (\<lambda>l. bind_exec (dagpb_link_list io is) (\<lambda>ls. Done (l @ ls)))"

definition dagpb_links :: "('i, 'cid, 'de) ipld_ops \<Rightarrow> 'i \<Rightarrow> (bytes option \<times> 'cid) list exec" where
  "dagpb_links io ipld =
     (case io_view io ipld of
        V_Map m \<Rightarrow>
          (case m (str_bytes ''Links'') of
             None \<Rightarrow> Panic
           | Some l \<Rightarrow> (case io_view io l of V_List v \<Rightarrow> dagpb_link_list io v | _ \<Rightarrow> Panic))
      | _ \<Rightarrow> Done [])"

definition ipld_links :: "('i, 'cid, 'de) ipld_ops \<Rightarrow> 'cid \<Rightarrow> 'i \<Rightarrow> (bytes option \<times> 'cid) list exec" where
  "ipld_links io cid ipld =
     (if io_dag_pb io cid then dagpb_links io ipld
      else Done (concat (map (\<lambda>i. case io_view io i of V_Link c \<Rightarrow> [(None, c)] | _ \<Rightarrow> []) (io_iter io ipld))))"

section \<open>The walk\<close>

record ipld_refs =
  max_depth :: "u64 option"
  unique :: bool
  download_blocks :: bool

definition ipld_refs_default :: ipld_refs where
  "ipld_refs_default = \<lparr>max_depth = None, unique = False, download_blocks = True\<rparr>"

definition with_max_depth :: "u64 \<Rightarrow> ipld_refs \<Rightarrow> ipld_refs" where
  "with_max_depth depth r = r\<lparr>max_depth := Some depth\<rparr>"

definition with_only_unique :: "ipld_refs \<Rightarrow> ipld_refs" where
  "with_only_unique r = r\<lparr>unique := True\<rparr>"

definition with_existing_blocks :: "ipld_refs \<Rightarrow> ipld_refs" where
  "with_existing_blocks r = r\<lparr>download_blocks := False\<rparr>"

datatype ('cid, 'de) refs_error = Refs_Loading 'de | Refs_BlockNotFound 'cid

text \<open>
  The loop that queues links: \<open>next_depth\<close> is evaluated for every link that is queued.  \<open>queued\<close> is only maintained for walks that report
  a document once.
\<close>

type_synonym 'cid work_item = "u64 \<times> 'cid \<times> 'cid \<times> bytes option"

fun enqueue ::
  "bool \<Rightarrow> u64 exec \<Rightarrow> 'cid \<Rightarrow> (bytes option \<times> 'cid) list \<Rightarrow> 'cid set \<Rightarrow> 'cid work_item list \<Rightarrow>
   ('cid set \<times> 'cid work_item list) exec" where
  "enqueue uniq next_depth origin [] queued work = Done (queued, work)"
| "enqueue uniq next_depth origin ((link_name, next_cid) # links) queued work =
     (if uniq \<and> next_cid \<in> queued then enqueue uniq next_depth origin links queued work
      else
        bind_exec next_depth (\<lambda>d.
        enqueue uniq next_depth origin links (if uniq then insert next_cid queued else queued)
          (work @ [(d, next_cid, origin, link_name)])))"

fun enqueue_roots ::
  "('i, 'cid, 'de) ipld_ops \<Rightarrow> bool \<Rightarrow> ('cid \<times> 'i) list \<Rightarrow> 'cid set \<Rightarrow> 'cid work_item list \<Rightarrow>
   ('cid set \<times> 'cid work_item list) exec" where
  "enqueue_roots io uniq [] queued work = Done (queued, work)"
| "enqueue_roots io uniq ((origin, ipld) # iplds) queued work =
     bind_exec (ipld_links io origin ipld) (\<lambda>links.
     bind_exec (enqueue uniq (Done 0) origin links queued work) (\<lambda>(queued, work).
     enqueue_roots io uniq iplds queued work))"

text \<open>\<open>None\<close> skips the item, \<open>Some b\<close> tells whether its links are followed.\<close>

definition depth_check :: "bool \<Rightarrow> u64 option \<Rightarrow> u64 \<Rightarrow> bool option exec" where
  "depth_check checks limit depth =
     (case limit of
        None \<Rightarrow> Done (Some True)
      | Some d \<Rightarrow> if d \<le> depth then Done None else bind_exec (add_u64 checks d 1) (\<lambda>d'. Done (Some (d' \<noteq> depth))))"

datatype ('cid, 'de) loaded = Loaded "'cid block" | Load_Skip | Load_Stop "('cid, 'de) refs_error"

definition load ::
  "('cid, 's) block_source \<Rightarrow> bool \<Rightarrow> 'cid \<Rightarrow> 's \<Rightarrow> ('s \<times> ('cid, 'de) loaded) exec option" where
  "load src download cid s =
     (if download then
        map_option (\<lambda>r. bind_exec r (\<lambda>(s, x). Done (s, case x of Ok block \<Rightarrow> Loaded block | Err _ \<Rightarrow> Load_Skip))) (bs_get src cid s)
      else Some (Done (s, case bs_get_now src cid s of Some block \<Rightarrow> Loaded block | None \<Rightarrow> Load_Stop (Refs_BlockNotFound cid))))"

text \<open>
  The stream, with what it yields in \<open>out\<close>.  \<open>stop\<close> says that its consumer drops it at the first error.  A walk that
  waits for a block that never arrives, or that goes round a cycle forever, is \<open>None\<close>.
\<close>

partial_function (option) refs_loop ::
  "('i, 'cid, 'de) ipld_ops \<Rightarrow> ('cid, 's) block_source \<Rightarrow> bool \<Rightarrow> ipld_refs \<Rightarrow> bool \<Rightarrow> 'cid work_item list \<Rightarrow> 'cid set \<Rightarrow> 's \<Rightarrow>
   ('cid edge, ('cid, 'de) refs_error) result list \<Rightarrow> ('s \<times> ('cid edge, ('cid, 'de) refs_error) result list) exec option" where
  "refs_loop io src checks opts stop work queued s out =
     (case work of
        [] \<Rightarrow> Some (Done (s, out))
      | (depth, cid, origin, link_name) # work \<Rightarrow>
          (case depth_check checks (max_depth opts) depth of
             Panic \<Rightarrow> Some Panic
           | Done None \<Rightarrow> refs_loop io src checks opts stop work queued s out
           | Done (Some traverse_links) \<Rightarrow>
               Option.bind (load src (download_blocks opts) cid s) (\<lambda>r.
               case r of
                 Panic \<Rightarrow> Some Panic
               | Done (s, Load_Skip) \<Rightarrow> refs_loop io src checks opts stop work queued s out
               | Done (s, Load_Stop e) \<Rightarrow> Some (Done (s, out @ [Err e]))
               | Done (s, Loaded block) \<Rightarrow>
                   (case io_decode io block of
                      Err e \<Rightarrow>
                        if stop then Some (Done (s, out @ [Err (Refs_Loading e)]))
                        else refs_loop io src checks opts stop work queued s (out @ [Err (Refs_Loading e)])
                    | Ok ipld \<Rightarrow>
                        (case (if traverse_links
                               then bind_exec (ipld_links io cid ipld) (\<lambda>links.
                                 enqueue (unique opts) (add_u64 checks depth 1) cid links queued work)
                               else Done (queued, work)) of
                           Panic \<Rightarrow> Some Panic
                         | Done (queued, work) \<Rightarrow>
                             refs_loop io src checks opts stop work queued s
                               (out @ [Ok \<lparr>ed_source = origin, ed_destination = cid, ed_name = link_name\<rparr>]))))))"

text \<open>The links of the given documents are queued before the stream is first polled.\<close>

definition refs_start ::
  "('i, 'cid, 'de) ipld_ops \<Rightarrow> ipld_refs \<Rightarrow> ('cid \<times> 'i) list \<Rightarrow> ('cid set \<times> 'cid work_item list) exec" where
  "refs_start io opts iplds =
     (if max_depth opts = Some 0 then Done ({}, []) else enqueue_roots io (unique opts) iplds {} [])"

definition refs_stream ::
  "('i, 'cid, 'de) ipld_ops \<Rightarrow> ('cid, 's) block_source \<Rightarrow> bool \<Rightarrow> ipld_refs \<Rightarrow> bool \<Rightarrow> 'cid set \<times> 'cid work_item list \<Rightarrow> 's \<Rightarrow>
   ('s \<times> ('cid edge, ('cid, 'de) refs_error) result list) exec option" where
  "refs_stream io src checks opts stop start s =
     (if max_depth opts = Some 0 then Some (Done (s, []))
      else refs_loop io src checks opts stop (snd start) (fst start) s [])"

definition iplds_refs_inner ::
  "('i, 'cid, 'de) ipld_ops \<Rightarrow> ('cid, 's) block_source \<Rightarrow> bool \<Rightarrow> ipld_refs \<Rightarrow> bool \<Rightarrow> ('cid \<times> 'i) list \<Rightarrow> 's \<Rightarrow>
   ('s \<times> ('cid edge, ('cid, 'de) refs_error) result list) exec option" where
  "iplds_refs_inner io src checks opts stop iplds s =
     (case refs_start io opts iplds of
        Panic \<Rightarrow> Some Panic
      | Done start \<Rightarrow> refs_stream io src checks opts stop start s)"

section \<open>Pins\<close>

datatype ('cid, 'ce, 'de) ipfs_pin_error =
    Ip_Repo repo_error
  | Ip_Decode 'de
  | Ip_RootNotFound 'cid
  | Ip_Pin "('cid, 'ce, ('cid, 'de) refs_error) pin_error"

definition destinations ::
  "('cid edge, ('cid, 'de) refs_error) result list \<Rightarrow> ('cid, ('cid, 'de) refs_error) result list" where
  "destinations items = map (map_result ed_destination id) items"

text \<open>The result of a pin operation put back into the repo.\<close>

definition with_pins ::
  "('addr, 'lst, 'cid, 'query, 'h, 'w) repo \<Rightarrow> (pins \<times> (unit, ('cid, 'ce, ('cid, 'de) refs_error) pin_error) result) exec \<Rightarrow>
   (('addr, 'lst, 'cid, 'query, 'h, 'w) repo \<times> (unit, ('cid, 'ce, 'de) ipfs_pin_error) result) exec" where
  "with_pins rp r = bind_exec r (\<lambda>(g, x). Done (rp\<lparr>rp_pins := g\<rparr>, map_err Ip_Pin x))"

text \<open>The stream of references is only polled once the intention to pin them is recorded.\<close>

definition ipfs_insert_pin ::
  "('i, 'cid, 'de) ipld_ops \<Rightarrow> ('cid, 'h, 'ce) cid_ops \<Rightarrow> pin_document codec \<Rightarrow>
   ('cid, ('addr, 'lst, 'cid, 'query, 'h, 'w) repo) block_source \<Rightarrow> bool \<Rightarrow> 'cid \<Rightarrow> bool \<Rightarrow>
   ('addr, 'lst, 'cid, 'query, 'h, 'w) repo \<Rightarrow>
   (('addr, 'lst, 'cid, 'query, 'h, 'w) repo \<times> (unit, ('cid, 'ce, 'de) ipfs_pin_error) result) exec option" where
  "ipfs_insert_pin io co dc src checks cid recursive rp =
     Option.bind (bs_get src cid rp) (\<lambda>r.
     case r of
       Panic \<Rightarrow> Some Panic
     | Done (rp, Err e) \<Rightarrow> Some (Done (rp, Err (Ip_Repo e)))
     | Done (rp, Ok block) \<Rightarrow>
         if \<not> recursive then Some (with_pins rp (insert_direct_pin co dc cid (rp_pins rp)))
         else
           (case io_decode io block of
              Err e \<Rightarrow> Some (Done (rp, Err (Ip_Decode e)))
            | Ok ipld \<Rightarrow>
                (let opts = with_only_unique ipld_refs_default in
                 case refs_start io opts [(cid, ipld)] of
                   Panic \<Rightarrow> Some Panic
                 | Done start \<Rightarrow>
                     (case insert_pin co dc cid RecursiveIntention (rp_pins rp) of
                        Panic \<Rightarrow> Some Panic
                      | Done (g, Err e) \<Rightarrow> Some (Done (rp\<lparr>rp_pins := g\<rparr>, Err (Ip_Pin e)))
                      | Done (g, Ok _) \<Rightarrow>
                          map_option (\<lambda>r. bind_exec r (\<lambda>(rp, items).
                              with_pins rp (insert_recursive_pin co dc cid (destinations items) (rp_pins rp))))
                            (refs_stream io src checks opts True start rp)))))"

text \<open>The references are only read to remove a recursive pin.\<close>

definition pinned_recursively :: "('cid, 'h, 'ce) cid_ops \<Rightarrow> pin_document codec \<Rightarrow> 'cid \<Rightarrow> pins \<Rightarrow> bool" where
  "pinned_recursively co dc cid g =
     (case g (co_to_bytes co cid) of
        None \<Rightarrow> False
      | Some raw \<Rightarrow> (case decode dc raw of None \<Rightarrow> False | Some doc \<Rightarrow> is_set (pd_recursive doc)))"

definition ipfs_remove_pin ::
  "('i, 'cid, 'de) ipld_ops \<Rightarrow> ('cid, 'h, 'ce) cid_ops \<Rightarrow> pin_document codec \<Rightarrow>
   ('cid, ('addr, 'lst, 'cid, 'query, 'h, 'w) repo) block_source \<Rightarrow> bool \<Rightarrow> 'cid \<Rightarrow> bool \<Rightarrow>
   ('addr, 'lst, 'cid, 'query, 'h, 'w) repo \<Rightarrow>
   (('addr, 'lst, 'cid, 'query, 'h, 'w) repo \<times> (unit, ('cid, 'ce, 'de) ipfs_pin_error) result) exec option" where
  "ipfs_remove_pin io co dc src checks cid recursive rp =
     (if \<not> recursive then Some (with_pins rp (Done (remove_direct_pin co dc cid (rp_pins rp))))
      else
        (case bs_get_now src cid rp of
           None \<Rightarrow> Some (Done (rp, Err (Ip_RootNotFound cid)))
         | Some block \<Rightarrow>
             (case io_decode io block of
                Err e \<Rightarrow> Some (Done (rp, Err (Ip_Decode e)))
              | Ok ipld \<Rightarrow>
                  (let opts = with_existing_blocks (with_only_unique ipld_refs_default) in
                   case refs_start io opts [(cid, ipld)] of
                     Panic \<Rightarrow> Some Panic
                   | Done start \<Rightarrow>
                       map_option (\<lambda>r. bind_exec r (\<lambda>(rp, items).
                           with_pins rp (remove_recursive_pin co dc cid (destinations items) (rp_pins rp))))
                         (if pinned_recursively co dc cid (rp_pins rp) then refs_stream io src checks opts True start rp
                          else Some (Done (rp, [])))))))"

definition ipfs_gc ::
  "('cid, 'h, 'ce) cid_ops \<Rightarrow> 'h list \<Rightarrow> ('addr, 'lst, 'cid, 'query, 'h, 'w) repo \<Rightarrow>
   ('addr, 'lst, 'cid, 'query, 'h, 'w) repo \<times> 'cid list" where
  "ipfs_gc co order rp = cleanup co order rp"


section \<open>The linked documents\<close>

text \<open>The links of a stored document, when it can be read; \<open>st\<close> is the lookup of blocks.\<close>

definition doc_links :: "('i, 'cid, 'de) ipld_ops \<Rightarrow> ('cid \<Rightarrow> 'cid block option) \<Rightarrow> 'cid \<Rightarrow> 'cid list option" where
  "doc_links io st c =
     (case st c of
        None \<Rightarrow> None
      | Some b \<Rightarrow>
          (case io_decode io b of
             Err _ \<Rightarrow> None
           | Ok i \<Rightarrow> (case ipld_links io c i of Panic \<Rightarrow> None | Done ls \<Rightarrow> Some (map snd ls))))"

definition link_rel :: "('i, 'cid, 'de) ipld_ops \<Rightarrow> ('cid \<Rightarrow> 'cid block option) \<Rightarrow> ('cid \<times> 'cid) set" where
  "link_rel io st = {(c, d). \<exists>ls. doc_links io st c = Some ls \<and> d \<in> set ls}"

definition linked :: "('i, 'cid, 'de) ipld_ops \<Rightarrow> ('cid \<Rightarrow> 'cid block option) \<Rightarrow> 'cid \<Rightarrow> 'cid set" where
  "linked io st root = {c. (root, c) \<in> (link_rel io st)\<^sup>+}"

text \<open>Everything below the document is stored and can be read.\<close>

definition complete_doc :: "('i, 'cid, 'de) ipld_ops \<Rightarrow> ('cid \<Rightarrow> 'cid block option) \<Rightarrow> 'cid \<Rightarrow> bool" where
  "complete_doc io st root \<longleftrightarrow> (\<forall>c\<in>insert root (linked io st root). doc_links io st c \<noteq> None) \<and> finite (linked io st root)"

lemma linked_closed: "c \<in> insert root (linked io st root) \<Longrightarrow> doc_links io st c = Some ls \<Longrightarrow> set ls \<subseteq> linked io st root"
  by (auto simp: linked_def link_rel_def intro: trancl_into_trancl)

lemma linked_least:
  assumes "\<forall>c\<in>insert root A. \<forall>ls. doc_links io st c = Some ls \<longrightarrow> set ls \<subseteq> A"
  shows "linked io st root \<subseteq> A"
proof
  fix c assume "c \<in> linked io st root"
  then have "(root, c) \<in> (link_rel io st)\<^sup>+" by (simp add: linked_def)
  then show "c \<in> A" by induction (use assms in \<open>auto simp: link_rel_def\<close>)
qed

lemma doc_linksE:
  assumes "doc_links io st c = Some ls"
  obtains b i links where "st c = Some b" "io_decode io b = Ok i" "ipld_links io c i = Done links" "ls = map snd links"
  using assms by (auto simp: doc_links_def split: option.splits result.splits exec.splits)

text \<open>Queueing adds the links that are not queued yet, each once, to both the set and the queue.\<close>

lemma enqueue_unique:
  "\<exists>new. enqueue True (Done d) origin links Q W = Done (Q \<union> snd ` set links, W @ map (\<lambda>(c, n). (d, c, origin, n)) new) \<and>
     distinct (map fst new) \<and> fst ` set new = snd ` set links - Q"
proof (induction links arbitrary: Q W)
  case (Cons l links)
  obtain n c where l: "l = (n, c)" by (cases l)
  show ?case
  proof (cases "c \<in> Q")
    case True
    from Cons.IH [of Q W] obtain new where
      "enqueue True (Done d) origin links Q W = Done (Q \<union> snd ` set links, W @ map (\<lambda>(c, n). (d, c, origin, n)) new)"
      "distinct (map fst new)" "fst ` set new = snd ` set links - Q" by blast
    with True show ?thesis by (intro exI [of _ new]) (auto simp: l insert_absorb)
  next
    case False
    from Cons.IH [of "insert c Q" "W @ [(d, c, origin, n)]"] obtain new where
      "enqueue True (Done d) origin links (insert c Q) (W @ [(d, c, origin, n)]) =
         Done (insert c Q \<union> snd ` set links, (W @ [(d, c, origin, n)]) @ map (\<lambda>(c, n). (d, c, origin, n)) new)"
      "distinct (map fst new)" "fst ` set new = snd ` set links - insert c Q" by blast
    with False show ?thesis by (intro exI [of _ "(c, n) # new"]) (auto simp: l)
  qed
qed simp

lemma enqueue_depth_unused: "links = [] \<Longrightarrow> enqueue u nd origin links Q W = Done (Q, W)"
  by simp

definition item_cid :: "'cid work_item \<Rightarrow> 'cid" where
  "item_cid i = fst (snd i)"

lemma item_cid_simp [simp]: "item_cid (d, c, origin, n) = c"
  by (simp add: item_cid_def)

text \<open>
  The invariant of a walk from \<open>root\<close>: the queued documents are those in the queue and those reported, all of them different and
  linked from the root, and the links of the root and of every reported document are queued.
\<close>

definition walking ::
  "('i, 'cid, 'de) ipld_ops \<Rightarrow> ('cid \<Rightarrow> 'cid block option) \<Rightarrow> 'cid \<Rightarrow> 'cid work_item list \<Rightarrow> 'cid set \<Rightarrow> 'cid edge list \<Rightarrow> bool" where
  "walking io st root W Q out \<longleftrightarrow>
     distinct (map item_cid W @ map ed_destination out) \<and> Q = set (map item_cid W @ map ed_destination out) \<and>
     Q \<subseteq> linked io st root \<and>
     (\<forall>c\<in>insert root (ed_destination ` set out). \<forall>ls. doc_links io st c = Some ls \<longrightarrow> set ls \<subseteq> Q) \<and>
     (\<forall>(d, c, origin, n)\<in>set W. unat d \<le> length out \<and> (origin, c) \<in> link_rel io st) \<and>
     (\<forall>e\<in>set out. (ed_source e, ed_destination e) \<in> link_rel io st)"

lemma walking_start:
  assumes "st root = Some b" "io_decode io b = Ok i" "ipld_links io root i = Done links"
  shows "\<exists>Q W. enqueue_roots io True [(root, i)] {} [] = Done (Q, W) \<and> walking io st root W Q []"
proof -
  have dl: "doc_links io st root = Some (map snd links)" using assms by (simp add: doc_links_def)
  obtain new where new: "enqueue True (Done 0) root links {} [] = Done (snd ` set links, map (\<lambda>(c, n). (0, c, root, n)) new)"
    "distinct (map fst new)" "fst ` set new = snd ` set links"
    using enqueue_unique [of 0 root links "{}" "[]"] by auto
  let ?W = "map (\<lambda>(c, n). (0, c, root, n)) new"
  have cids: "map item_cid ?W = map fst new" by auto
  have "walking io st root ?W (snd ` set links) []"
    unfolding walking_def cids
  proof (intro conjI)
    show "snd ` set links \<subseteq> linked io st root" using linked_closed [OF _ dl] by auto
    have "(root, c) \<in> link_rel io st" if "(c, n) \<in> set new" for c n
      using that new(3) dl by (force simp: link_rel_def)
    then show "\<forall>(d, c, origin, n)\<in>set ?W. unat d \<le> length [] \<and> (origin, c) \<in> link_rel io st" by auto
  qed (use new dl in auto)
  with new(1) assms(3) show ?thesis by auto
qed

lemma walking_step:
  assumes "walking io st root ((d, c, origin, n) # W) Q out" "doc_links io st c = Some (map snd links)"
    and "unat d + 1 < 2 ^ 64" "finite (linked io st root)"
  shows "\<exists>Q' W'. enqueue True (Done (d + 1)) c links Q W = Done (Q', W') \<and>
    walking io st root W' Q' (out @ [\<lparr>ed_source = origin, ed_destination = c, ed_name = n\<rparr>]) \<and>
    2 * card (linked io st root - Q') + length W' < 2 * card (linked io st root - Q) + length ((d, c, origin, n) # W)"
proof -
  let ?L = "linked io st root" and ?D = "snd ` set links"
  obtain new where new: "enqueue True (Done (d + 1)) c links Q W = Done (Q \<union> ?D, W @ map (\<lambda>(c', n). (d + 1, c', c, n)) new)"
    "distinct (map fst new)" "fst ` set new = ?D - Q"
    using enqueue_unique [of "d + 1" c links Q W] by auto
  let ?W = "W @ map (\<lambda>(c', n). (d + 1, c', c, n)) new" and ?out = "out @ [\<lparr>ed_source = origin, ed_destination = c, ed_name = n\<rparr>]"
  have cids: "map item_cid ?W = map item_cid W @ map fst new" by auto
  have inv: "distinct (c # map item_cid W @ map ed_destination out)" "Q = set (c # map item_cid W @ map ed_destination out)"
    "Q \<subseteq> ?L" "\<forall>c\<in>insert root (ed_destination ` set out). \<forall>ls. doc_links io st c = Some ls \<longrightarrow> set ls \<subseteq> Q"
    using assms(1) [unfolded walking_def list.map item_cid_simp append_Cons] by blast+
  have items: "\<forall>(d, c, origin, n)\<in>set ((d, c, origin, n) # W). unat d \<le> length out \<and> (origin, c) \<in> link_rel io st"
    "\<forall>e\<in>set out. (ed_source e, ed_destination e) \<in> link_rel io st"
    using assms(1) [unfolded walking_def] by blast+
  have sub: "?D \<subseteq> ?L" using linked_closed [OF _ assms(2)] inv(2,3) by auto
  have rel: "(c, c') \<in> link_rel io st" if "c' \<in> ?D" for c' using that assms(2) by (auto simp: link_rel_def)
  have "walking io st root ?W (Q \<union> ?D) ?out"
    unfolding walking_def cids
  proof (intro conjI)
    show "\<forall>(d, c, origin, n)\<in>set ?W. unat d \<le> length ?out \<and> (origin, c) \<in> link_rel io st"
      unfolding set_append ball_Un
    proof (intro conjI ballI)
      fix x assume "x \<in> set W"
      then show "case x of (d, c, origin, n) \<Rightarrow> unat d \<le> length ?out \<and> (origin, c) \<in> link_rel io st"
        using bspec [OF items(1), of x] by (auto split: prod.splits)
    next
      fix x assume "x \<in> set (map (\<lambda>(c', n). (d + 1, c', c, n)) new)"
      then obtain c' n' where x: "x = (d + 1, c', c, n')" "(c', n') \<in> set new" by auto
      then have "c' \<in> fst ` set new" by force
      then have "(c, c') \<in> link_rel io st" using rel new(3) by simp
      moreover have "unat (d + 1) \<le> Suc (length out)"
        using items(1) unat_add_no_overflow [of d 1] assms(3) by simp
      ultimately show "case x of (d, c, origin, n) \<Rightarrow> unat d \<le> length ?out \<and> (origin, c) \<in> link_rel io st"
        by (simp add: x(1))
    qed
    show "distinct ((map item_cid W @ map fst new) @ map ed_destination ?out)"
      using inv(1,2) new(2,3) by auto
    show "Q \<union> ?D = set ((map item_cid W @ map fst new) @ map ed_destination ?out)"
      using inv(2) new(3) by auto
    show "\<forall>c\<in>insert root (ed_destination ` set ?out). \<forall>ls. doc_links io st c = Some ls \<longrightarrow> set ls \<subseteq> Q \<union> ?D"
      using inv(4) assms(2) by fastforce
  qed (use inv(3) sub items in auto)
  moreover have "2 * card (?L - (Q \<union> ?D)) + length ?W < 2 * card (?L - Q) + length ((d, c, origin, n) # W)"
  proof -
    have "?L - Q = (?L - (Q \<union> ?D)) \<union> (?D - Q)" using sub by auto
    then have "card (?L - Q) = card (?L - (Q \<union> ?D)) + card (?D - Q)"
      using assms(4) by (subst card_Un_disjoint [symmetric]) (auto intro: finite_subset)
    moreover have "card (?D - Q) = length new" using distinct_card [OF new(2)] by (simp add: new(3))
    ultimately show ?thesis by simp
  qed
  ultimately show ?thesis using new(1) by blast
qed

lemma walking_length:
  assumes "walking io st root W Q out" "finite (linked io st root)"
  shows "length W + length out \<le> card (linked io st root)"
proof -
  have "distinct (map item_cid W @ map ed_destination out)" "set (map item_cid W @ map ed_destination out) \<subseteq> linked io st root"
    using assms(1) by (auto simp: walking_def)
  then have "length (map item_cid W @ map ed_destination out) \<le> card (linked io st root)"
    by (metis distinct_card card_mono [OF assms(2)])
  then show ?thesis by simp
qed

text \<open>When the queue is empty, exactly the linked documents have been reported.\<close>

lemma walking_done:
  assumes "walking io st root [] Q out"
  shows "distinct (map ed_destination out) \<and> set (map ed_destination out) = linked io st root \<and>
    (\<forall>e\<in>set out. (ed_source e, ed_destination e) \<in> link_rel io st)"
  using assms linked_least [of root "ed_destination ` set out" io st] by (auto simp: walking_def)

definition plain_walk :: "ipld_refs \<Rightarrow> bool" where
  "plain_walk opts \<longleftrightarrow> unique opts \<and> max_depth opts = None"

context stored_blocks
begin

lemma load_stored: "stored s c = Some b \<Longrightarrow> load src download c s = Some (Done (s, Loaded b))"
  by (simp add: load_def get_stored now_stored)

text \<open>
  A walk that reports every document once, over a store whose lookup is \<open>st\<close>, ends; what it reports does not depend on the rest of the
  state nor on the other options.
\<close>

lemma refs_loop_complete:
  assumes "complete_doc io st root" "card (linked io st root) < 2 ^ 64" "walking io st root W Q out"
  shows "\<exists>out' Q'. walking io st root [] Q' out' \<and> (\<forall>s checks opts stop. stored s = st \<longrightarrow> plain_walk opts \<longrightarrow>
    refs_loop io src checks opts stop W Q s (map Ok out) = Some (Done (s, map Ok out')))"
  using assms(3)
proof (induction "2 * card (linked io st root - Q) + length W" arbitrary: W Q out rule: less_induct)
  case less
  show ?case
  proof (cases W)
    case Nil
    with less.prems show ?thesis by (intro exI [of _ out] exI [of _ Q]) (simp add: refs_loop.simps)
  next
    case (Cons item W')
    obtain d c origin n where item: "item = (d, c, origin, n)" by (cases item)
    let ?e = "\<lparr>ed_source = origin, ed_destination = c, ed_name = n\<rparr>"
    have fin: "finite (linked io st root)" using assms(1) by (simp add: complete_doc_def)
    have "c \<in> linked io st root" using less.prems by (auto simp: walking_def Cons item)
    then obtain ls where ls: "doc_links io st c = Some ls" using assms(1) by (auto simp: complete_doc_def)
    then obtain b i links where doc: "st c = Some b" "io_decode io b = Ok i" "ipld_links io c i = Done links" "ls = map snd links"
      by (rule doc_linksE)
    have "unat d \<le> length out" using less.prems by (simp add: walking_def Cons item)
    then have d: "unat d + 1 < 2 ^ 64" using walking_length [OF less.prems fin] assms(2) by (simp add: Cons)
    then have add: "add_u64 checks d 1 = Done (d + 1)" for checks by (simp add: add_u64_def checked_add_def)
    obtain Q1 W1 where step: "enqueue True (Done (d + 1)) c links Q W' = Done (Q1, W1)" "walking io st root W1 Q1 (out @ [?e])"
      "2 * card (linked io st root - Q1) + length W1 < 2 * card (linked io st root - Q) + length W"
      using walking_step [OF less.prems [unfolded Cons item] _ d fin, of links] ls doc(4) by (auto simp: Cons item)
    have "refs_loop io src checks opts stop W Q s (map Ok out) = refs_loop io src checks opts stop W1 Q1 s (map Ok (out @ [?e]))"
      if "stored s = st" "plain_walk opts" for s checks opts stop
      using that doc step(1) by (subst refs_loop.simps) (simp add: Cons item depth_check_def load_stored add plain_walk_def)
    with less.hyps [OF step(3,2)] show ?thesis by simp
  qed
qed

lemma refs_walk:
  assumes "complete_doc io st root" "card (linked io st root) < 2 ^ 64" "st root = Some b" "io_decode io b = Ok i"
  obtains start out where "\<forall>opts. plain_walk opts \<longrightarrow> refs_start io opts [(root, i)] = Done start"
    "\<forall>s checks opts stop. stored s = st \<longrightarrow> plain_walk opts \<longrightarrow>
      refs_stream io src checks opts stop start s = Some (Done (s, map Ok out))"
    "distinct (map ed_destination out)" "set (map ed_destination out) = linked io st root"
    "\<forall>e\<in>set out. (ed_source e, ed_destination e) \<in> link_rel io st"
proof -
  obtain ls where "doc_links io st root = Some ls" using assms(1) by (auto simp: complete_doc_def)
  then obtain links where "ipld_links io root i = Done links" using assms(3,4) by (auto elim!: doc_linksE)
  from walking_start [of st, OF assms(3,4) this] obtain Q W where
    start: "enqueue_roots io True [(root, i)] {} [] = Done (Q, W)" "walking io st root W Q []" by blast
  from refs_loop_complete [OF assms(1,2) start(2)] obtain out Q' where
    out: "walking io st root [] Q' out" "\<forall>s checks opts stop. stored s = st \<longrightarrow> plain_walk opts \<longrightarrow>
      refs_loop io src checks opts stop W Q s [] = Some (Done (s, map Ok out))" by auto
  show thesis
    by (rule that [of "(Q, W)" out])
      (use walking_done [OF out(1)] start(1) out(2) in \<open>simp_all add: refs_start_def refs_stream_def plain_walk_def\<close>)
qed

end


section \<open>Pinning documents\<close>

text \<open>The document is not pinned itself, and nothing below it is pinned through it.\<close>

definition fresh_pin :: "('cid, 'h, 'ce) cid_ops \<Rightarrow> pin_document codec \<Rightarrow> pins \<Rightarrow> 'cid \<Rightarrow> 'cid set \<Rightarrow> bool" where
  "fresh_pin co dc g root below \<longleftrightarrow>
     (\<forall>d. g (co_to_bytes co root) = Some (encode dc d) \<longrightarrow> \<not> pd_direct d \<and> pd_recursive d = Not) \<and>
     (\<forall>c\<in>below. \<forall>d. g (co_to_bytes co c) = Some (encode dc d) \<longrightarrow>
       co_to_string co (v1_of co (v1_of co root)) \<notin> set (pd_indirect_by d))"

text \<open>
  A document whose parts are all in the repo, none of them the document itself, with CIDs that differ in their bytes: then pinning it succeeds, pins
  everything below it and leaves the rest of the repo alone, and unpinning it restores the repo.
\<close>

definition pinnable ::
  "('i, 'cid, 'de) ipld_ops \<Rightarrow> ('cid, 'h, 'ce) cid_ops \<Rightarrow> pin_document codec \<Rightarrow> 'cid \<Rightarrow>
   ('addr, 'lst, 'cid, 'query, 'h, 'w) repo \<Rightarrow> bool" where
  "pinnable io co dc root rp \<longleftrightarrow>
     (let st = (\<lambda>c. get_block_now co c rp) in
      codec_ok dc \<and> pins_inv dc (rp_pins rp) \<and> inj_on (co_to_bytes co) (insert root (linked io st root)) \<and>
      complete_doc io st root \<and> card (linked io st root) < 2 ^ 64 \<and> root \<notin> linked io st root \<and>
      fresh_pin co dc (rp_pins rp) root (linked io st root))"

lemma insert_recursive_intention:
  fixes co :: "('cid, 'h, 'ce) cid_ops" and refs :: "('cid, 're) result list"
  assumes "insert_recursive_pin co dc target refs g = Done (g', Ok ())"
  shows "\<exists>g1 m. insert_pin co dc target RecursiveIntention g = Done (g1, Ok m :: (bool, ('cid, 'ce, 're) pin_error) result)"
proof -
  obtain g1 and x :: "(bool, ('cid, 'ce, 're) pin_error) result" where
    "insert_pin co dc target RecursiveIntention g = Done (g1, x)"
    using assms by (auto simp: insert_recursive_pin_def)
  with assms show ?thesis by (cases x) (auto simp: insert_recursive_pin_def)
qed

lemma cleanup_keeps_pinned:
  assumes "repo_inv co rp" "distinct order" "set order = dom (rp_blocks rp)" "cleanup co order rp = (rp', removed)"
    and "rp_blocks rp (co_hash co c) = Some (c, b)" "is_pinned co c (rp_pins rp)"
  shows "rp_blocks rp' (co_hash co c) = Some (c, b)"
proof -
  note l = blocks_list_spec [OF assms(1,2)]
  have "c' = c" if "c' \<in> set (list_blocks order rp)" "co_hash co c' = co_hash co c" for c'
    using l(3) [OF assms(3), of c'] that assms(5) by auto
  then show ?thesis
    using cleanup_blocks_spec [OF l(1,2) assms(4) [unfolded cleanup_def]] assms(5,6) by auto
qed

lemma pin_document:
  fixes io :: "('i, 'cid, 'de) ipld_ops" and co :: "('cid, 'h, 'ce) cid_ops" and rp :: "('addr, 'lst, 'cid, 'query, 'h, 'w) repo"
  assumes "pinnable io co dc root rp"
  obtains g where "ipfs_insert_pin io co dc (repo_source co network) checks root True rp = Some (Done (rp\<lparr>rp_pins := g\<rparr>, Ok ()))"
    "\<forall>c\<in>insert root (linked io (\<lambda>c. get_block_now co c rp) root). is_pinned co c g"
    "ipfs_remove_pin io co dc (repo_source co network) checks' root True (rp\<lparr>rp_pins := g\<rparr>) = Some (Done (rp, Ok ()))"
proof -
  let ?st = "\<lambda>c. get_block_now co c rp" and ?src = "repo_source co network"
  let ?L = "linked io ?st root"
  have ok: "codec_ok dc" "pins_inv dc (rp_pins rp)" "inj_on (co_to_bytes co) (insert root ?L)" "complete_doc io ?st root"
    "card ?L < 2 ^ 64" "root \<notin> ?L" "fresh_pin co dc (rp_pins rp) root ?L"
    using assms unfolding pinnable_def Let_def by blast+
  obtain ls where "doc_links io ?st root = Some ls" using ok(4) by (auto simp: complete_doc_def)
  then obtain b i where doc: "?st root = Some b" "io_decode io b = Ok i" by (auto elim: doc_linksE)
  obtain start out where walk: "\<forall>opts. plain_walk opts \<longrightarrow> refs_start io opts [(root, i)] = Done start"
    "\<forall>s checks opts stop. (\<lambda>c. get_block_now co c s) = ?st \<longrightarrow> plain_walk opts \<longrightarrow>
      refs_stream io ?src checks opts stop start s = Some (Done (s, map Ok out))"
    "distinct (map ed_destination out)" "set (map ed_destination out) = ?L"
    using repo_blocks.refs_walk [OF ok(4,5), OF doc] by metis
  let ?rs = "map ed_destination out"
  have dest: "destinations (map Ok out :: ('cid edge, ('cid, 'de) refs_error) result list) = map Ok ?rs"
    by (simp add: destinations_def)
  have "distinct (map (co_to_bytes co) (root # ?rs))"
    using ok(3,6) walk(3,4) by (subst distinct_map) auto
  moreover have "\<forall>d. rp_pins rp (co_to_bytes co root) = Some (encode dc d) \<longrightarrow> \<not> pd_direct d \<and> pd_recursive d = Not"
    "\<forall>r\<in>set ?rs. \<forall>d. rp_pins rp (co_to_bytes co r) = Some (encode dc d) \<longrightarrow>
      co_to_string co (v1_of co (v1_of co root)) \<notin> set (pd_indirect_by d)"
    using ok(7) unfolding fresh_pin_def walk(4) by blast+
  ultimately obtain g where
    ins: "insert_recursive_pin co dc root (map Ok ?rs :: ('cid, ('cid, 'de) refs_error) result list) (rp_pins rp) = Done (g, Ok ())"
    and pinned: "\<forall>c\<in>set (root # ?rs). is_pinned co c g"
    and rec: "\<exists>d. g (co_to_bytes co root) = Some (encode dc d) \<and> is_set (pd_recursive d)"
    and rem: "remove_recursive_pin co dc root (map Ok ?rs :: ('cid, ('cid, 'de) refs_error) result list) g = Done (rp_pins rp, Ok ())"
    using recursive_pin_restored [OF ok(1,2), of co root ?rs] by metis
  obtain g1 m where "insert_pin co dc root RecursiveIntention (rp_pins rp) =
      Done (g1, Ok m :: (bool, ('cid, 'ce, ('cid, 'de) refs_error) pin_error) result)"
    using insert_recursive_intention [OF ins] by blast
  then have "ipfs_insert_pin io co dc ?src checks root True rp = Some (Done (rp\<lparr>rp_pins := g\<rparr>, Ok ()))"
    using repo_blocks.get_stored [OF doc(1), of network] doc(2) walk(1,2) ins dest
    by (simp add: ipfs_insert_pin_def plain_walk_def with_only_unique_def ipld_refs_default_def with_pins_def)
  moreover have "pinned_recursively co dc root g" using rec ok(1) by (auto simp: pinned_recursively_def)
  then have "ipfs_remove_pin io co dc ?src checks' root True (rp\<lparr>rp_pins := g\<rparr>) = Some (Done (rp, Ok ()))"
    using doc walk(1,2) rem dest
    by (simp add: ipfs_remove_pin_def repo_blocks.now_stored get_block_now_def plain_walk_def with_only_unique_def
        with_existing_blocks_def ipld_refs_default_def with_pins_def)
  moreover have "\<forall>c\<in>insert root ?L. is_pinned co c g" using pinned unfolding list.set(2) walk(4) .
  ultimately show thesis by (intro that)
qed

text \<open>
  C7: a recursive pin protects a document.  When everything linked from a document is in the repo, each block stored under the CID it is linked by,
  \<open>insert_pin\<close> ends successfully, and a garbage collection after it removes neither the document nor anything linked from
  it: \<open>get_block_now\<close> returns the same blocks as before.
\<close>

theorem pinned_document_survives_gc:
  assumes "pinnable io co dc root rp" "repo_inv co rp"
    and "\<forall>c\<in>insert root (linked io (\<lambda>c. get_block_now co c rp) root). \<exists>b. rp_blocks rp (co_hash co c) = Some (c, b)"
    and "distinct order" "set order = dom (rp_blocks rp)"
  shows "\<exists>rp1. ipfs_insert_pin io co dc (repo_source co network) checks root True rp = Some (Done (rp1, Ok ())) \<and>
    (\<forall>c\<in>insert root (linked io (\<lambda>c. get_block_now co c rp) root).
       get_block_now co c (fst (ipfs_gc co order rp1)) = get_block_now co c rp \<and> get_block_now co c rp \<noteq> None)"
proof -
  let ?L = "insert root (linked io (\<lambda>c. get_block_now co c rp) root)"
  obtain g where ins: "ipfs_insert_pin io co dc (repo_source co network) checks root True rp = Some (Done (rp\<lparr>rp_pins := g\<rparr>, Ok ()))"
    and pinned: "\<forall>c\<in>?L. is_pinned co c g"
    using pin_document [OF assms(1)] by metis
  let ?rp = "rp\<lparr>rp_pins := g\<rparr>"
  obtain rp2 removed where gc: "cleanup co order ?rp = (rp2, removed)" by fastforce
  have "repo_inv co ?rp" using assms(2) by (simp add: repo_inv_def)
  note kept = cleanup_keeps_pinned [OF this assms(4) _ gc]
  have "get_block_now co c rp2 = get_block_now co c rp \<and> get_block_now co c rp \<noteq> None" if "c \<in> ?L" for c
  proof -
    obtain b where b: "rp_blocks rp (co_hash co c) = Some (c, b)" using assms(3) \<open>c \<in> ?L\<close> by blast
    have "rp_blocks rp2 (co_hash co c) = Some (c, b)"
      using kept [of c b] b bspec [OF pinned \<open>c \<in> ?L\<close>] assms(5) by simp
    with b show ?thesis by (simp add: get_block_now_def blocks_get_def)
  qed
  with ins gc show ?thesis by (auto simp: ipfs_gc_def)
qed


section \<open>An instance\<close>

text \<open>Documents that are the list of the CIDs they link to; a block holds the hashes.\<close>

definition sample_ipld :: "((version \<times> byte) list, version \<times> byte, unit) ipld_ops" where
  "sample_ipld = \<lparr>io_view = (\<lambda>i. case i of [c] \<Rightarrow> V_Link c | _ \<Rightarrow> V_Other), io_iter = map (\<lambda>c. [c]),
     io_decode = (\<lambda>b. Ok (map (Pair V1) (snd b))), io_dag_pb = (\<lambda>_. False)\<rparr>"

definition sample_documents :: sample_repo where
  "sample_documents = (repo_new 0)\<lparr>rp_blocks := [1 \<mapsto> ((V1, 1), ((V1, 1), [7])), 7 \<mapsto> ((V1, 7), ((V1, 7), []))]\<rparr>"

lemma sample_doc_links:
  "doc_links sample_ipld (\<lambda>c. get_block_now sample_cids c sample_documents) (V1, 1) = Some [(V1, 7)]"
  "doc_links sample_ipld (\<lambda>c. get_block_now sample_cids c sample_documents) (V1, 7) = Some []"
  by (simp_all add: doc_links_def get_block_now_def blocks_get_def sample_documents_def sample_cids_def sample_ipld_def ipld_links_def)

lemma sample_linked: "linked sample_ipld (\<lambda>c. get_block_now sample_cids c sample_documents) (V1, 1) = {(V1, 7)}"
proof
  show "linked sample_ipld (\<lambda>c. get_block_now sample_cids c sample_documents) (V1, 1) \<subseteq> {(V1, 7)}"
    by (rule linked_least) (simp add: sample_doc_links)
  show "{(V1, 7)} \<subseteq> linked sample_ipld (\<lambda>c. get_block_now sample_cids c sample_documents) (V1, 1)"
    using linked_closed [OF insertI1 sample_doc_links(1)] by simp
qed

lemma sample_pinnable: "pinnable sample_ipld sample_cids sample_doc_codec (V1, 1) sample_documents"
proof -
  have pins: "rp_pins sample_documents = Map.empty" by (simp add: sample_documents_def repo_new_def)
  have "inj_on (co_to_bytes sample_cids) {(V1, 1), (V1, 7)}" by (simp add: sample_cids_def)
  then show ?thesis
    unfolding pinnable_def Let_def complete_doc_def sample_linked fresh_pin_def pins
    by (simp add: sample_doc_codec_ok sample_doc_links pins_inv_def)
qed

theorem pinned_document_survives_gc_witness:
  "\<exists>rp1. ipfs_insert_pin sample_ipld sample_cids sample_doc_codec (repo_source sample_cids (\<lambda>_ _. None)) True (V1, 1) True
       sample_documents = Some (Done (rp1, Ok ())) \<and>
     get_block_now sample_cids (V1, 7) (fst (ipfs_gc sample_cids [1, 7] rp1)) = Some ((V1, 7), [])"
proof -
  have "repo_inv sample_cids sample_documents" by (simp add: repo_inv_def sample_documents_def sample_cids_def)
  moreover have "\<forall>c\<in>insert (V1, 1) (linked sample_ipld (\<lambda>c. get_block_now sample_cids c sample_documents) (V1, 1)).
      \<exists>b. rp_blocks sample_documents (co_hash sample_cids c) = Some (c, b)"
    unfolding sample_linked by (simp add: sample_documents_def sample_cids_def)
  moreover have "distinct [1, 7 :: byte]" "set [1, 7] = dom (rp_blocks sample_documents)"
    by (auto simp: sample_documents_def)
  moreover have "get_block_now sample_cids (V1, 7) sample_documents = Some ((V1, 7), [])"
    by (simp add: get_block_now_def blocks_get_def sample_documents_def sample_cids_def)
  ultimately show ?thesis
    using pinned_document_survives_gc [OF sample_pinnable, of "[1, 7]" "\<lambda>_ _. None" True] unfolding sample_linked by auto
qed


text \<open>
  The branch that is meant to spare following links below the depth limit is dead: an item is either skipped or its links are followed.
\<close>

lemma depth_check_always_traverses:
  "unat d + 1 < 2 ^ 64 \<Longrightarrow> depth_check checks (Some d) depth = (if d \<le> depth then Done None else Done (Some True))"
  by (auto simp: depth_check_def add_u64_def checked_add_def unat_add_no_overflow word_le_nat_alt dest!: arg_cong [of "_ + 1" _ unat])

section \<open>The public walk\<close>

text \<open>\<open>iplds_refs\<close> downloads blocks and passes errors on; it claims that a missing block is never reported.\<close>

definition loading_error :: "('cid edge, ('cid, 'de) refs_error) result \<Rightarrow> ('cid edge, 'de) result exec" where
  "loading_error r =
     (case r of
        Ok e \<Rightarrow> Done (Ok e)
      | Err (Refs_Loading e) \<Rightarrow> Done (Err e)
      | Err (Refs_BlockNotFound _) \<Rightarrow> Panic)"

primrec loading_errors :: "('cid edge, ('cid, 'de) refs_error) result list \<Rightarrow> ('cid edge, 'de) result list exec" where
  "loading_errors [] = Done []"
| "loading_errors (r # rs) = bind_exec (loading_error r) (\<lambda>x. bind_exec (loading_errors rs) (\<lambda>xs. Done (x # xs)))"

definition iplds_refs ::
  "('i, 'cid, 'de) ipld_ops \<Rightarrow> ('cid, 's) block_source \<Rightarrow> bool \<Rightarrow> u64 option \<Rightarrow> bool \<Rightarrow> bool \<Rightarrow> ('cid \<times> 'i) list \<Rightarrow> 's \<Rightarrow>
   ('s \<times> ('cid edge, 'de) result list) exec option" where
  "iplds_refs io src checks depth uniq stop iplds s =
     map_option (\<lambda>r. bind_exec r (\<lambda>(s, items). bind_exec (loading_errors items) (\<lambda>xs. Done (s, xs))))
       (iplds_refs_inner io src checks \<lparr>max_depth = depth, unique = uniq, download_blocks = True\<rparr> stop iplds s)"

definition no_missing_block :: "('cid edge, ('cid, 'de) refs_error) result list \<Rightarrow> bool" where
  "no_missing_block items \<longleftrightarrow> (\<forall>c. Err (Refs_BlockNotFound c) \<notin> set items)"

lemma load_download:
  assumes "load src True cid s = Some (Done (s', r))"
  shows "r \<noteq> Load_Stop e"
proof -
  from assms obtain x :: "(_, repo_error) result" where "r = (case x of Ok block \<Rightarrow> Loaded block | Err _ \<Rightarrow> Load_Skip)" by (auto simp: load_def)
  then show ?thesis by (cases x) auto
qed

lemma refs_loop_download:
  fixes io :: "('i, 'cid, 'de) ipld_ops" and src :: "('cid, 's) block_source"
  assumes "refs_loop io src checks opts stop work queued s out = Some r"
  shows "download_blocks opts \<longrightarrow> no_missing_block out \<longrightarrow> (case r of Panic \<Rightarrow> True | Done (s', items) \<Rightarrow> no_missing_block items)"
  apply (rule refs_loop.raw_induct [where P = "\<lambda>io src checks opts stop work queued s out r. download_blocks opts \<longrightarrow>
    no_missing_block out \<longrightarrow> (case r of Panic \<Rightarrow> True | Done (s', items) \<Rightarrow> no_missing_block items)", OF _ assms])
  subgoal premises step for loop io src checks opts stop work queued s out r
    proof (intro impI)
      note IH = step(1) [rule_format] and run = step(2)
      assume opts: "download_blocks opts" "no_missing_block out"
      have more: "no_missing_block (out @ [Err (Refs_Loading e)])" "no_missing_block (out @ [Ok x])" for e x
        using opts(2) by (simp_all add: no_missing_block_def)
      show "case r of Panic \<Rightarrow> True | Done (s', items) \<Rightarrow> no_missing_block items"
      proof (cases work)
        case Nil
        then show ?thesis using run opts(2) by auto
      next
        case (Cons item rest)
        obtain depth cid origin link_name where item: "item = (depth, cid, origin, link_name)" by (cases item)
        note run = run [unfolded Cons item list.case prod.case]
        show ?thesis
        proof (cases "\<exists>tl. depth_check checks (max_depth opts) depth = Done (Some tl)")
          case False
          then show ?thesis using run IH opts by (auto split: exec.split_asm option.split_asm)
        next
          case True
          then obtain tl where tl: "depth_check checks (max_depth opts) depth = Done (Some tl)" by blast
          then obtain l :: "('s \<times> ('cid, 'de) loaded) exec" where l: "load src True cid s = Some l"
            using run opts(1) by (cases "load src True cid s :: ('s \<times> ('cid, 'de) loaded) exec option") auto
          show ?thesis
          proof (cases l)
            case (Done p)
            obtain s1 x where p: "p = (s1, x)" by (cases p)
            show ?thesis
            proof (cases x)
              case (Loaded block)
              then show ?thesis using run tl l Done p opts more IH
                by (cases "io_decode io block") (auto split: if_split_asm exec.split_asm)
            next
              case Load_Skip
              then show ?thesis using run tl l Done p opts IH by auto
            next
              case (Load_Stop e)
              then show ?thesis using load_download [of src cid s s1 x e] l Done p by simp
            qed
          qed (use run tl l opts(1) in auto)
        qed
      qed
    qed
  done

lemma loading_errors_returns: "no_missing_block items \<Longrightarrow> loading_errors items \<noteq> Panic"
proof (induction items)
  case (Cons r rs)
  then have "no_missing_block rs" "loading_error r \<noteq> Panic"
    by (auto simp: no_missing_block_def loading_error_def split: result.splits refs_error.splits)
  with Cons(1) show ?case by (cases "loading_error r"; cases "loading_errors rs") auto
qed simp

text \<open>The claim holds: the public walk only panics where the inner walk does.\<close>

theorem iplds_refs_unreachable:
  assumes "iplds_refs io src checks depth uniq stop iplds s = Some Panic"
  shows "iplds_refs_inner io src checks \<lparr>max_depth = depth, unique = uniq, download_blocks = True\<rparr> stop iplds s = Some Panic"
proof (rule ccontr)
  let ?opts = "\<lparr>max_depth = depth, unique = uniq, download_blocks = True\<rparr>"
  assume "iplds_refs_inner io src checks ?opts stop iplds s \<noteq> Some Panic"
  then obtain s' items where inner: "iplds_refs_inner io src checks ?opts stop iplds s = Some (Done (s', items))"
    "loading_errors items = Panic"
    using assms by (auto simp: iplds_refs_def bind_exec_Panic_iff)
  have "no_missing_block items"
    using inner(1) refs_loop_download [of io src checks ?opts stop _ _ s "[]" "Done (s', items)"]
    by (auto simp: iplds_refs_inner_def refs_stream_def no_missing_block_def split: exec.splits if_splits)
  with loading_errors_returns inner(2) show False by blast
qed

end
