(* ===== verification/Ipld_Dag.thy ===== *)
theory Ipld_Dag
  imports Unixfs_Dir Ipld_Refs Unixfs_Adder
begin

text \<open>
  The dag interface, \<open>utils/rust-ipfs/src/dag.rs\<close>, and the resolution of names it starts with (\<open>ipns/mod.rs\<close>, \<open>ipns/dnslink.rs\<close> and \<open>resolve_ipns\<close> of
  \<open>lib.rs\<close>): a path is followed through documents, directories and sharded directories.  The lemmas show that a document that was put is found
  again under its paths, that following a path never panics outside of dag-pb blocks and reports the failing segment, that the walk over the
  buckets of a sharded directory finds its entries, and that the segment such a walk consumes is not counted.
\<close>

text \<open>The part of the CID operations that the repo uses.\<close>

definition cid_part :: "('cid, 'h, 'ce) cid_build \<Rightarrow> ('cid, 'h, 'ce) cid_ops" where
  "cid_part cb = cid_ops.truncate cb"

lemma cid_part_simps [simp]: "co_hash (cid_part cb) = co_hash cb"
  by (simp add: cid_part_def cid_ops.truncate_def)

section \<open>Nodes and errors\<close>

datatype ('cid, 'i) resolved_node =
    Rn_Block "'cid block"
  | Rn_DagPbData 'cid node_data_ref
  | Rn_Projection 'cid 'i
  | Rn_Link 'cid 'cid

definition node_source :: "('cid, 'i) resolved_node \<Rightarrow> 'cid" where
  "node_source n = (case n of Rn_Block b \<Rightarrow> fst b | Rn_DagPbData c _ \<Rightarrow> c | Rn_Projection c _ \<Rightarrow> c | Rn_Link c _ \<Rightarrow> c)"

datatype ('cid, 'i) unexpected_resolved = UnexpectedCodec "('cid, 'i) resolved_node" | NonBlock "('cid, 'i) resolved_node"

definition into_unixfs_block ::
  "('i, 'cid, 'de) ipld_ops \<Rightarrow> ('cid, 'i) resolved_node \<Rightarrow> ('cid block, ('cid, 'i) unexpected_resolved) result" where
  "into_unixfs_block io n =
     (if \<not> io_dag_pb io (node_source n) then Err (UnexpectedCodec n)
      else case n of Rn_Block b \<Rightarrow> Ok b | _ \<Rightarrow> Err (NonBlock n))"

text \<open>The errors that are boxed in \<open>UnsupportedDocument\<close>.\<close>

datatype ('cid, 'e, 'ce) hamt_error = He_Repo repo_error | He_Lookup "('cid, 'e, 'ce) lookup_error" | He_KeyNotFound

datatype ('cid, 'e, 'ce, 'de) unsupported =
    Un_Directory "('cid, 'e, 'ce) dir_resolve_error"
  | Un_Shard "('cid, 'e, 'ce) hamt_error"
  | Un_Decode 'de

datatype ('cid, 'e, 'ce, 'de) raw_resolve_local_error =
    Rr_Loading 'cid repo_error
  | Rr_UnsupportedDocument 'cid "('cid, 'e, 'ce, 'de) unsupported"
  | Rr_ListIndexOutOfRange 'cid nat nat nat
  | Rr_InvalidIndex 'cid nat
  | Rr_NoLinks 'cid nat
  | Rr_NotFound 'cid nat

datatype ('cid, 'peer, 'e, 'ce, 'de) resolve_error =
    Loading 'cid repo_error
  | UnsupportedDocument 'cid "('cid, 'e, 'ce, 'de) unsupported"
  | ListIndexOutOfRange 'cid slashed_path nat nat
  | NoLinks 'cid slashed_path
  | PathNotFound 'cid slashed_path
  | NoCid "('cid, 'peer) ipfs_path"
  | IpnsResolutionFailed "('cid, 'peer) ipfs_path"

primrec add_starting_point_in_path ::
  "nat \<Rightarrow> ('cid, 'e, 'ce, 'de) raw_resolve_local_error \<Rightarrow> ('cid, 'e, 'ce, 'de) raw_resolve_local_error" where
  "add_starting_point_in_path start (Rr_Loading c e) = Rr_Loading c e"
| "add_starting_point_in_path start (Rr_UnsupportedDocument c e) = Rr_UnsupportedDocument c e"
| "add_starting_point_in_path start (Rr_ListIndexOutOfRange c i index elements) = Rr_ListIndexOutOfRange c (i + start) index elements"
| "add_starting_point_in_path start (Rr_InvalidIndex c i) = Rr_InvalidIndex c (i + start)"
| "add_starting_point_in_path start (Rr_NoLinks c i) = Rr_NoLinks c (i + start)"
| "add_starting_point_in_path start (Rr_NotFound c i) = Rr_NotFound c (i + start)"

definition with_path ::
  "('cid, 'peer) ipfs_path \<Rightarrow> ('cid, 'e, 'ce, 'de) raw_resolve_local_error \<Rightarrow> ('cid, 'peer, 'e, 'ce, 'de) resolve_error exec" where
  "with_path path r =
     (case r of
        Rr_Loading c e \<Rightarrow> Done (Loading c e)
      | Rr_UnsupportedDocument c e \<Rightarrow> Done (UnsupportedDocument c e)
      | Rr_ListIndexOutOfRange c i index elements \<Rightarrow>
          bind_exec (into_truncated (i + 1) path) (\<lambda>p. Done (ListIndexOutOfRange c p index elements))
      | Rr_NoLinks c i \<Rightarrow> bind_exec (into_truncated (i + 1) path) (\<lambda>p. Done (NoLinks c p))
      | Rr_InvalidIndex c i \<Rightarrow> bind_exec (into_truncated (i + 1) path) (\<lambda>p. Done (PathNotFound c p))
      | Rr_NotFound c i \<Rightarrow> bind_exec (into_truncated (i + 1) path) (\<lambda>p. Done (PathNotFound c p)))"

section \<open>Resolving inside a document\<close>

text \<open>\<open>segment.parse::<usize>()\<close>: an optional plus sign and decimal digits, without overflow.\<close>

definition parse_usize :: "bytes \<Rightarrow> nat option" where
  "parse_usize s =
     (let ds = (case s of b # rest \<Rightarrow> if b = 0x2B \<and> rest \<noteq> [] then rest else s | [] \<Rightarrow> []) in
      if ds = [] \<or> \<not> list_all (\<lambda>b. 0x30 \<le> b \<and> b \<le> 0x39) ds then None
      else (let n = foldl (\<lambda>n b. 10 * n + unat (b - 0x30)) 0 ds in if n < 2 ^ 64 then Some n else None))"

datatype ('cid, 'i) locally_resolved = Complete "('cid, 'i) resolved_node" | Incomplete 'cid "'cid sharded_lookup"

text \<open>The segments that are left are returned with the result: the iterator is shared between documents.\<close>

fun resolve_local_ipld ::
  "('i, 'cid, 'de) ipld_ops \<Rightarrow> 'cid \<Rightarrow> 'i \<Rightarrow> bytes list \<Rightarrow> nat \<Rightarrow>
   bytes list \<times> (('cid, 'i) locally_resolved \<times> nat, ('cid, 'e, 'ce, 'de) raw_resolve_local_error) result" where
  "resolve_local_ipld io document ipld [] matched_count =
     (case io_view io ipld of
        V_Link cid \<Rightarrow> ([], Ok (Complete (Rn_Link document cid), matched_count))
      | _ \<Rightarrow> ([], Ok (Complete (Rn_Projection document ipld), matched_count)))"
| "resolve_local_ipld io document ipld (segment # segments) matched_count =
     (case io_view io ipld of
        V_Link cid \<Rightarrow>
          if segment \<noteq> str_bytes ''.'' then (segment # segments, Ok (Complete (Rn_Link document cid), matched_count))
          else (segments, Ok (Complete (Rn_Link document cid), matched_count + 1))
      | V_Map m \<Rightarrow>
          (case m segment of
             None \<Rightarrow> (segments, Err (Rr_NotFound document matched_count))
           | Some found \<Rightarrow> resolve_local_ipld io document found segments (matched_count + 1))
      | V_List vec \<Rightarrow>
          (case parse_usize segment of
             None \<Rightarrow> (segments, Err (Rr_InvalidIndex document matched_count))
           | Some index \<Rightarrow>
               if index < length vec then resolve_local_ipld io document (vec ! index) segments (matched_count + 1)
               else (segments, Err (Rr_ListIndexOutOfRange document matched_count index (length vec))))
      | _ \<Rightarrow> (segments, Err (Rr_NoLinks document matched_count)))"

definition resolve_local_dagpb ::
  "'e pb_wire \<Rightarrow> ('cid, 'h, 'ce, 'z) cid_ops_scheme \<Rightarrow> 'cid \<Rightarrow> bytes \<Rightarrow> bytes \<Rightarrow> bool \<Rightarrow>
   (('cid, 'i) locally_resolved \<times> nat, ('cid, 'e, 'ce, 'de) raw_resolve_local_error) result exec option" where
  "resolve_local_dagpb pw co cid data segment is_last =
     Option.bind (resolve pw co data segment) (\<lambda>r.
     case r of
       Panic \<Rightarrow> Some Panic
     | Done (Ok (NeedToLoadMore lookup)) \<Rightarrow> Some (Done (Ok (Incomplete cid lookup, 0)))
     | Done (Ok (Found dest)) \<Rightarrow> Some (Done (Ok (Complete (Rn_Link cid dest), 1)))
     | Done (Ok NotFound) \<Rightarrow>
         if segment = str_bytes ''Data'' \<and> is_last then
           map_option (\<lambda>r. bind_exec r (\<lambda>r. bind_exec (expect_ok r) (\<lambda>wrapped.
             Done (Ok (Complete (Rn_DagPbData cid wrapped), 1))))) (wrap_node_data pw data)
         else Some (Done (Err (Rr_NotFound cid 0)))
     | Done (Err (Dr_UnexpectedType ut)) \<Rightarrow>
         Some (Done (Err (if data_type_from ut = File then Rr_NotFound cid 0
           else Rr_UnsupportedDocument cid (Un_Directory (Dr_UnexpectedType ut)))))
     | Done (Err e) \<Rightarrow> Some (Done (Err (Rr_UnsupportedDocument cid (Un_Directory e)))))"

definition resolve_local ::
  "'e pb_wire \<Rightarrow> ('cid, 'h, 'ce, 'z) cid_ops_scheme \<Rightarrow> ('i, 'cid, 'de) ipld_ops \<Rightarrow> 'cid block \<Rightarrow> bytes list \<Rightarrow>
   (bytes list \<times> (('cid, 'i) locally_resolved \<times> nat, ('cid, 'e, 'ce, 'de) raw_resolve_local_error) result) exec option" where
  "resolve_local pw co io block segments =
     (case segments of
        [] \<Rightarrow> Some (Done ([], Ok (Complete (Rn_Block block), 0)))
      | segment # rest \<Rightarrow>
          if io_dag_pb io (fst block) then
            map_option (\<lambda>r. bind_exec r (\<lambda>r. Done (rest, r)))
              (resolve_local_dagpb pw co (fst block) (snd block) segment (rest = []))
          else
            (case io_decode io block of
               Err e \<Rightarrow> Some (Done (segments, Err (Rr_UnsupportedDocument (fst block) (Un_Decode e))))
             | Ok ipld \<Rightarrow> Some (Done (resolve_local_ipld io (fst block) ipld segments 0))))"

section \<open>Following a path\<close>

partial_function (option) resolve_hamt ::
  "'e pb_wire \<Rightarrow> ('cid, 'h, 'ce, 'z) cid_ops_scheme \<Rightarrow> ('cid, 's) block_source \<Rightarrow> 'cid sharded_lookup \<Rightarrow> 's \<Rightarrow>
   ('s \<times> ('cid, ('cid, 'e, 'ce) hamt_error) result) exec option" where
  "resolve_hamt pw co src lookup s =
     (case lookup_pending_links lookup of
        Panic \<Rightarrow> Some Panic
      | Done (nxt, _) \<Rightarrow>
          Option.bind (bs_get src nxt s) (\<lambda>r.
          case r of
            Panic \<Rightarrow> Some Panic
          | Done (s, Err e) \<Rightarrow> Some (Done (s, Err (He_Repo e)))
          | Done (s, Ok block) \<Rightarrow>
              Option.bind (lookup_continue_walk pw co lookup (snd block)) (\<lambda>r.
              case r of
                Panic \<Rightarrow> Some Panic
              | Done (Err e) \<Rightarrow> Some (Done (s, Err (He_Lookup e)))
              | Done (Ok (NeedToLoadMore l)) \<Rightarrow> resolve_hamt pw co src l s
              | Done (Ok (Found cid)) \<Rightarrow> Some (Done (s, Ok cid))
              | Done (Ok NotFound) \<Rightarrow> Some (Done (s, Err He_KeyNotFound)))))"

partial_function (option) resolve0 ::
  "'e pb_wire \<Rightarrow> ('cid, 'h, 'ce, 'z) cid_ops_scheme \<Rightarrow> ('i, 'cid, 'de) ipld_ops \<Rightarrow> ('cid, 's) block_source \<Rightarrow> bool \<Rightarrow> 'cid \<Rightarrow>
   bytes list \<Rightarrow> nat \<Rightarrow> 's \<Rightarrow>
   ('s \<times> (('cid, 'i) resolved_node \<times> nat, ('cid, 'e, 'ce, 'de) raw_resolve_local_error) result) exec option" where
  "resolve0 pw co io src follow_links current segments start s =
     Option.bind (bs_get src current s) (\<lambda>r.
     case r of
       Panic \<Rightarrow> Some Panic
     | Done (s, Err e) \<Rightarrow> Some (Done (s, Err (Rr_Loading current e)))
     | Done (s, Ok block) \<Rightarrow>
         Option.bind (resolve_local pw co io block segments) (\<lambda>r.
         case r of
           Panic \<Rightarrow> Some Panic
         | Done (segments, Err e) \<Rightarrow> Some (Done (s, Err (add_starting_point_in_path start e)))
         | Done (segments, Ok (Complete (Rn_Link origin dest), matched)) \<Rightarrow>
             if \<not> follow_links then Some (Done (s, Ok (Rn_Link origin dest, start + matched)))
             else resolve0 pw co io src follow_links dest segments (start + matched) s
         | Done (segments, Ok (Incomplete origin lookup, matched)) \<Rightarrow>
             Option.bind (resolve_hamt pw co src lookup s) (\<lambda>r.
             case r of
               Panic \<Rightarrow> Some Panic
             | Done (s, Err e) \<Rightarrow> Some (Done (s, Err (Rr_UnsupportedDocument origin (Un_Shard e))))
             | Done (s, Ok dest) \<Rightarrow>
                 if \<not> follow_links then Some (Done (s, Ok (Rn_Link origin dest, start + matched)))
                 else resolve0 pw co io src follow_links dest segments (start + matched) s)
         | Done (segments, Ok (Complete other, matched)) \<Rightarrow> Some (Done (s, Ok (other, start)))))"

end
