(* ===== verification/Unixfs_File.thy ===== *)
theory Unixfs_File
  imports Unixfs_Visit Ipld_Dag
begin

text \<open>
  Adding files to the IPFS node and reading them back, \<open>utils/rust-ipfs/src/unixfs/add.rs\<close> and \<open>cat.rs\<close>: the composition of the file adder and the
  file visitor with the repo.  The lemmas show that a file that was added, in whatever pieces it arrived, is read back byte by byte, and any
  range of it, and that a file of exactly one chunk is not.
\<close>

section \<open>Adding\<close>

record add_option =
  ao_chunk :: "chunker option"
  ao_pin :: bool
  ao_provide :: bool
  ao_cid_version :: version

definition add_option_default :: add_option where
  "add_option_default =
     \<lparr>ao_chunk = Some (Size (1024 * 1024)), ao_pin = False, ao_provide = False, ao_cid_version = DEFAULT_CID_VERSION\<rparr>"

definition default_with_cid_version :: "version \<Rightarrow> add_option" where
  "default_with_cid_version v = add_option_default\<lparr>ao_cid_version := v\<rparr>"

datatype 'be add_error = Ae_Block 'be | Ae_Put repo_error

text \<open>The status reports, with the number of bytes written and the total size if it is known.\<close>

datatype ('cid, 'peer, 'be) unixfs_status =
    ProgressStatus nat "nat option"
  | CompletedStatus "('cid, 'peer) ipfs_path" nat "nat option"
  | FailedStatus nat "nat option" "'be add_error option"

text \<open>The two loops that put the blocks of the adder into the repo; the CID of the last one is kept.\<close>

fun store_blocks ::
  "('cid, 'h, 'ce) cid_ops \<Rightarrow> ('cid \<Rightarrow> (unit, string subscription_err) result option) \<Rightarrow> ('cid \<Rightarrow> bytes \<Rightarrow> ('cid block, 'be) result) \<Rightarrow>
   ('cid \<times> bytes) list \<Rightarrow> 'cid option \<Rightarrow> ('addr, 'lst, 'cid, 'query, 'h, 'w) repo \<Rightarrow>
   ('addr, 'lst, 'cid, 'query, 'h, 'w) repo \<times> ('cid option, 'be add_error) result" where
  "store_blocks co provide block_new [] last_cid rp = (rp, Ok last_cid)"
| "store_blocks co provide block_new ((cid, data) # blocks) last_cid rp =
     (case block_new cid data of
        Err e \<Rightarrow> (rp, Err (Ae_Block e))
      | Ok block \<Rightarrow>
          (case put_block co provide block rp of
             (rp, Err e) \<Rightarrow> (rp, Err (Ae_Put e))
           | (rp, Ok _) \<Rightarrow> store_blocks co provide block_new blocks (Some cid) rp))"

text \<open>One buffer of the input stream, pushed until it is consumed.\<close>

partial_function (option) push_buffer ::
  "'e pb_wire \<Rightarrow> ('cid, 'h, 'ce) cid_build \<Rightarrow> bool \<Rightarrow> ('cid \<Rightarrow> (unit, string subscription_err) result option) \<Rightarrow>
   ('cid \<Rightarrow> bytes \<Rightarrow> ('cid block, 'be) result) \<Rightarrow> bytes \<Rightarrow> nat \<Rightarrow> 'cid file_adder \<Rightarrow> nat \<Rightarrow>
   ('addr, 'lst, 'cid, 'query, 'h, 'w) repo \<Rightarrow>
   (('addr, 'lst, 'cid, 'query, 'h, 'w) repo \<times> 'cid file_adder \<times> nat \<times> (unit, 'be add_error) result) exec option" where
  "push_buffer pw cb checks provide block_new buffer pushed adder written rp =
     (if pushed < length buffer then
        Option.bind (push pw cb checks (drop pushed buffer) adder) (\<lambda>r.
        case r of
          Panic \<Rightarrow> Some Panic
        | Done (adder, blocks, consumed) \<Rightarrow>
            (case store_blocks (cid_part cb) provide block_new blocks None rp of
               (rp, Err e) \<Rightarrow> Some (Done (rp, adder, written, Err e))
             | (rp, Ok _) \<Rightarrow>
                 push_buffer pw cb checks provide block_new buffer (pushed + consumed) adder (written + consumed) rp))
      else Some (Done (rp, adder, written, Ok ())))"

fun push_stream ::
  "'e pb_wire \<Rightarrow> ('cid, 'h, 'ce) cid_build \<Rightarrow> bool \<Rightarrow> ('cid \<Rightarrow> (unit, string subscription_err) result option) \<Rightarrow>
   ('cid \<Rightarrow> bytes \<Rightarrow> ('cid block, 'be) result) \<Rightarrow> nat option \<Rightarrow> bytes list \<Rightarrow> 'cid file_adder \<Rightarrow> nat \<Rightarrow>
   ('addr, 'lst, 'cid, 'query, 'h, 'w) repo \<Rightarrow> ('cid, 'peer, 'be) unixfs_status list \<Rightarrow>
   (('addr, 'lst, 'cid, 'query, 'h, 'w) repo \<times> 'cid file_adder \<times> nat \<times> ('cid, 'peer, 'be) unixfs_status list \<times> bool) exec option" where
  "push_stream pw cb checks provide block_new size_hint [] adder written rp out = Some (Done (rp, adder, written, out, True))"
| "push_stream pw cb checks provide block_new size_hint (buffer # stream) adder written rp out =
     Option.bind (push_buffer pw cb checks provide block_new buffer 0 adder written rp) (\<lambda>r.
     case r of
       Panic \<Rightarrow> Some Panic
     | Done (rp, adder, written, Err e) \<Rightarrow>
         Some (Done (rp, adder, written, out @ [FailedStatus written size_hint (Some e)], False))
     | Done (rp, adder, written, Ok _) \<Rightarrow>
         push_stream pw cb checks provide block_new size_hint stream adder written rp (out @ [ProgressStatus written size_hint]))"

definition adder_for :: "add_option option \<Rightarrow> 'cid file_adder" where
  "adder_for opt =
     (let adder = build (with_chunker (case opt of
            Some opts \<Rightarrow> (case ao_chunk opts of Some c \<Rightarrow> c | None \<Rightarrow> chunker_default)
          | None \<Rightarrow> chunker_default) adder_builder_default)
      in case opt of Some opts \<Rightarrow> adder\<lparr>fa_cid_version := ao_cid_version opts\<rparr> | None \<Rightarrow> adder)"

text \<open>Pinning the file when asked to; failures to pin are ignored.\<close>

definition pin_added ::
  "('i, 'cid, 'de) ipld_ops \<Rightarrow> ('cid, 'h, 'ce) cid_ops \<Rightarrow> pin_document codec \<Rightarrow>
   ('cid, ('addr, 'lst, 'cid, 'query, 'h, 'w) repo) block_source \<Rightarrow> bool \<Rightarrow> add_option option \<Rightarrow> 'cid \<Rightarrow>
   ('addr, 'lst, 'cid, 'query, 'h, 'w) repo \<Rightarrow> ('addr, 'lst, 'cid, 'query, 'h, 'w) repo exec option" where
  "pin_added io co dc src checks opt cid rp =
     (case opt of
        None \<Rightarrow> Some (Done rp)
      | Some opts \<Rightarrow>
          if ao_pin opts \<and> \<not> is_pinned co cid (rp_pins rp)
          then map_option (\<lambda>r. bind_exec r (\<lambda>(rp, _). Done rp)) (ipfs_insert_pin io co dc src checks cid True rp)
          else Some (Done rp))"

definition add ::
  "'e pb_wire \<Rightarrow> ('cid, 'h, 'ce) cid_build \<Rightarrow> bool \<Rightarrow> ('i, 'cid, 'de) ipld_ops \<Rightarrow> pin_document codec \<Rightarrow>
   ('cid, ('addr, 'lst, 'cid, 'query, 'h, 'w) repo) block_source \<Rightarrow> ('cid \<Rightarrow> (unit, string subscription_err) result option) \<Rightarrow>
   ('cid \<Rightarrow> bytes \<Rightarrow> ('cid block, 'be) result) \<Rightarrow> nat option \<Rightarrow> bytes list \<Rightarrow> add_option option \<Rightarrow>
   ('addr, 'lst, 'cid, 'query, 'h, 'w) repo \<Rightarrow>
   (('addr, 'lst, 'cid, 'query, 'h, 'w) repo \<times> ('cid, 'peer, 'be) unixfs_status list) exec option" where
  "add pw cb checks io dc src provide block_new size_hint stream opt rp =
     Option.bind (push_stream pw cb checks provide block_new size_hint stream (adder_for opt) 0 rp [ProgressStatus 0 size_hint]) (\<lambda>r.
     case r of
       Panic \<Rightarrow> Some Panic
     | Done (rp, adder, written, out, False) \<Rightarrow> Some (Done (rp, out))
     | Done (rp, adder, written, out, True) \<Rightarrow>
         Option.bind (finish pw cb checks adder) (\<lambda>r.
         case r of
           Panic \<Rightarrow> Some Panic
         | Done blocks \<Rightarrow>
             (case store_blocks (cid_part cb) provide block_new blocks None rp of
                (rp, Err e) \<Rightarrow> Some (Done (rp, out @ [FailedStatus written size_hint (Some e)]))
              | (rp, Ok None) \<Rightarrow> Some (Done (rp, out @ [FailedStatus written size_hint None]))
              | (rp, Ok (Some cid)) \<Rightarrow>
                  map_option (\<lambda>r. bind_exec r (\<lambda>rp. Done (rp, out @ [CompletedStatus (path_new (Ipld cid)) written size_hint])))
                    (pin_added io (cid_part cb) dc src checks opt cid rp))))"

section \<open>Reading\<close>

datatype ('cid, 'e, 'ce) traversal_failed = Tf_Loading 'cid repo_error | Tf_Walking 'cid "('e, 'ce) file_read_failed"

partial_function (option) cat_loop ::
  "'e pb_wire \<Rightarrow> ('cid, 'h, 'ce, 'z) cid_ops_scheme \<Rightarrow> bool \<Rightarrow> ('cid, 's) block_source \<Rightarrow> 'cid file_visit \<Rightarrow> 's \<Rightarrow>
   (bytes, ('cid, 'e, 'ce) traversal_failed) result list \<Rightarrow>
   ('s \<times> (bytes, ('cid, 'e, 'ce) traversal_failed) result list) exec option" where
  "cat_loop pw co checks src visit s out =
     (case visit_pending_links visit of
        Panic \<Rightarrow> Some Panic
      | Done (nxt, _) \<Rightarrow>
          Option.bind (bs_get src nxt s) (\<lambda>r.
          case r of
            Panic \<Rightarrow> Some Panic
          | Done (s, Err e) \<Rightarrow> Some (Done (s, out @ [Err (Tf_Loading nxt e)]))
          | Done (s, Ok block) \<Rightarrow>
              Option.bind (visit_continue_walk pw co checks visit (snd block)) (\<lambda>r.
              case r of
                Panic \<Rightarrow> Some Panic
              | Done (Err e) \<Rightarrow> Some (Done (s, out @ [Err (Tf_Walking (fst block) e)]))
              | Done (Ok (bs, next_visit)) \<Rightarrow>
                  (let out = (if bs \<noteq> [] then out @ [Ok bs] else out) in
                   case next_visit of
                     Some v \<Rightarrow> cat_loop pw co checks src v s out
                   | None \<Rightarrow> Some (Done (s, out))))))"

text \<open>\<open>cat\<close> from the block of the file.\<close>

definition cat ::
  "'e pb_wire \<Rightarrow> ('cid, 'h, 'ce, 'z) cid_ops_scheme \<Rightarrow> bool \<Rightarrow> ('cid, 's) block_source \<Rightarrow> 'cid block \<Rightarrow> (u64 \<times> u64) option \<Rightarrow> 's \<Rightarrow>
   ('s \<times> ((bytes, ('cid, 'e, 'ce) traversal_failed) result list, ('cid, 'e, 'ce) traversal_failed) result) exec option" where
  "cat pw co checks src block rng s =
     Option.bind (visit_start pw co checks rng (snd block)) (\<lambda>r.
     case r of
       Panic \<Rightarrow> Some Panic
     | Done (Err e) \<Rightarrow> Some (Done (s, Err (Tf_Walking (fst block) e)))
     | Done (Ok (bs, _, _, visit)) \<Rightarrow>
         (let out = (if bs \<noteq> [] then [Ok bs] else []) in
          case visit of
            None \<Rightarrow> Some (Done (s, Ok out))
          | Some v \<Rightarrow> map_option (\<lambda>r. bind_exec r (\<lambda>(s, out). Done (s, Ok out))) (cat_loop pw co checks src v s out)))"

section \<open>Reading a stored tree\<close>

primrec dag_nodes :: "dag \<Rightarrow> nat" where
  "dag_nodes (Leaf b) = 1"
| "dag_nodes (Node ts) = 1 + sum_list (map dag_nodes ts)"

definition to_visit :: "(nat \<times> dag) list \<Rightarrow> nat" where
  "to_visit items = sum_list (map (\<lambda>i. dag_nodes (snd i)) items)"

lemma map_snd_placed [simp]: "map snd (placed p ts) = ts"
  by (induction ts arbitrary: p) simp_all

lemma to_visit_kids: "to_visit (filter P (placed p ts)) < dag_nodes (Node ts)"
proof -
  have "to_visit (filter P (placed p ts)) \<le> to_visit (placed p ts)"
    unfolding to_visit_def by (rule sum_list_filter_le_nat)
  moreover have "to_visit (placed p ts) = sum_list (map dag_nodes ts)"
    by (induction ts arbitrary: p) (simp_all add: to_visit_def)
  ultimately show ?thesis by simp
qed

text \<open>Every block of the trees can be looked up, under its CID or another one of the same hash.\<close>

definition tree_stored :: "('e, 'cid) dag_format \<Rightarrow> ('cid \<Rightarrow> 'cid block option) \<Rightarrow> dag \<Rightarrow> bool" where
  "tree_stored D st t \<longleftrightarrow> (\<forall>(c, b) \<in> set (dag_blocks D t). \<exists>c'. st c = Some (c', b))"

lemma tree_stored_root: "tree_stored D st t \<Longrightarrow> \<exists>c'. st (de_cid (dag_entry D t)) = Some (c', de_block (dag_entry D t))"
  using block_of_in_dag_blocks [of D t] by (auto simp: tree_stored_def block_of_def)

lemma tree_stored_kids:
  assumes "tree_stored D st (Node ts)" "i \<in> set (filter P (placed p ts))"
  shows "tree_stored D st (snd i)"
proof -
  have "snd i \<in> set (map snd (placed p ts))" using assms(2) unfolding set_map by auto
  then have "snd i \<in> set ts" unfolding map_snd_placed .
  then show ?thesis using assms(1) by (auto simp: tree_stored_def)
qed

lemma items_bytes_node: "items_bytes tgt (filter (in_range tgt) (placed p ts) @ rest) = items_bytes tgt ((p, Node ts) # rest)"
  unfolding items_bytes_append items_bytes_filter items_bytes_placed by (simp add: items_bytes_def)

text \<open>The loop of \<open>cat\<close> over a store that holds the trees to be visited.\<close>

context stored_blocks
begin

lemma cat_loop_visits:
  assumes "pb_wire_ok (df_wire D)" "visiting co D tgt items v" "\<forall>i \<in> set items. tree_stored D (stored s) (snd i)"
  shows "\<exists>outs. cat_loop (df_wire D) co checks src v s out = Some (Done (s, out @ map Ok outs)) \<and> concat outs = items_bytes tgt items"
  using assms(2,3)
proof (induction "to_visit items" arbitrary: items v out rule: less_induct)
  case less
  obtain p t rest where items: "items = (p, t) # rest" using less(2) by (cases items) (auto simp: visiting_def)
  note v = less(2) [unfolded items]
  obtain c' where "stored s (de_cid (dag_entry D t)) = Some (c', de_block (dag_entry D t))"
    using tree_stored_root less(3) by (fastforce simp: items)
  then have got: "bs_get src (de_cid (dag_entry D t)) s = Some (Done (s, Ok (c', de_block (dag_entry D t))))" by (rule get_stored)
  show ?case
  proof (cases t)
    case (Leaf b)
    from visit_leaf [OF assms(1) v [unfolded Leaf], of checks] obtain v' where
      walk: "visit_continue_walk (df_wire D) co checks v (de_block (dag_entry D t)) =
        Some (Done (Ok (clip tgt p b, if rest = [] then None else Some v')))" and v': "rest \<noteq> [] \<longrightarrow> visiting co D tgt rest v'"
      unfolding Leaf by blast
    let ?o = "if clip tgt p b \<noteq> [] then out @ [Ok (clip tgt p b)] else out"
    have step: "cat_loop (df_wire D) co checks src v s out =
        (if rest = [] then Some (Done (s, ?o)) else cat_loop (df_wire D) co checks src v' s ?o)"
      by (subst cat_loop.simps) (simp add: visit_next [OF v] got walk Let_def)
    have bytes: "items_bytes tgt items = clip tgt p b @ items_bytes tgt rest" by (simp add: items_bytes_def items Leaf)
    show ?thesis
    proof (cases "rest = []")
      case True
      then show ?thesis unfolding step bytes
        by (intro exI [of _ "if clip tgt p b \<noteq> [] then [clip tgt p b] else []"]) (simp add: items_bytes_def)
    next
      case False
      have "to_visit rest < to_visit items" by (simp add: to_visit_def items Leaf)
      from less(1) [OF this v' [rule_format, OF False], of ?o] less(3) obtain outs where
        "cat_loop (df_wire D) co checks src v' s ?o = Some (Done (s, ?o @ map Ok outs))" "concat outs = items_bytes tgt rest"
        by (auto simp: items)
      then show ?thesis unfolding step bytes using False
        by (intro exI [of _ "(if clip tgt p b \<noteq> [] then [clip tgt p b] else []) @ outs"]) simp
    qed
  next
    case (Node ts)
    let ?items = "filter (in_range tgt) (placed p ts) @ rest"
    from visit_node [OF assms(1) v [unfolded Node], of checks] obtain v' where
      walk: "visit_continue_walk (df_wire D) co checks v (de_block (dag_entry D t)) = Some (Done (Ok ([], Some v')))" and
      v': "visiting co D tgt ?items v'"
      unfolding Node by blast
    have step: "cat_loop (df_wire D) co checks src v s out = cat_loop (df_wire D) co checks src v' s out"
      by (subst cat_loop.simps) (simp add: visit_next [OF v] got walk Let_def)
    have "to_visit ?items < to_visit items" using to_visit_kids [of "in_range tgt" p ts] by (simp add: to_visit_def items Node)
    moreover have "\<forall>i \<in> set ?items. tree_stored D (stored s) (snd i)"
      using less(3) tree_stored_kids [of D "stored s" ts _ "in_range tgt" p] by (auto simp: items Node)
    ultimately show ?thesis
      using less(1) [of ?items v' out] v' by (simp only: step items Node items_bytes_node)
  qed
qed

lemma cat_tree:
  assumes "pb_wire_ok (df_wire D)" "readable co D t" "length (dag_bytes t) < 2 ^ 64" "tree_stored D (stored s) t"
  shows "\<exists>outs. cat (df_wire D) co checks src (c, de_block (dag_entry D t)) rng s = Some (Done (s, Ok (map Ok outs))) \<and>
    concat outs = clip rng 0 (dag_bytes t)"
proof (cases t)
  case (Leaf b)
  obtain md where "visit_start (df_wire D) co checks rng (de_block (dag_entry D t)) =
      Some (Done (Ok (clip rng 0 b, of_nat (length b), md, None)))"
    using visit_start_leaf [OF assms(1), of co b checks rng] assms(2,3) by (auto simp: Leaf)
  then show ?thesis
    by (intro exI [of _ "if clip rng 0 b \<noteq> [] then [clip rng 0 b] else []"]) (simp add: cat_def Leaf Let_def del: dag_entry.simps)
next
  case (Node ts)
  define kids where "kids = filter (in_range rng) (placed 0 ts)"
  obtain md v where start: "visit_start (df_wire D) co checks rng (de_block (dag_entry D t)) =
      Some (Done (Ok ([], of_nat (length (dag_bytes t)), md, v)))" and
    v: "if kids = [] then v = None else \<exists>w. v = Some w \<and> visiting co D rng kids w"
    using visit_start_node [OF assms(1) assms(2,3) [unfolded Node] kids_def, of checks] unfolding Node by blast
  have bytes: "items_bytes rng kids = clip rng 0 (dag_bytes t)"
    by (simp add: kids_def items_bytes_filter items_bytes_placed Node)
  show ?thesis
  proof (cases "kids = []")
    case True
    then show ?thesis using start v bytes
      by (intro exI [of _ "[]"]) (simp add: cat_def Let_def items_bytes_def del: dag_entry.simps)
  next
    case False
    then obtain w where w: "v = Some w" "visiting co D rng kids w" using v by auto
    have "\<forall>i \<in> set kids. tree_stored D (stored s) (snd i)"
      using tree_stored_kids assms(4) unfolding kids_def Node by blast
    from cat_loop_visits [OF assms(1) w(2) this, of checks "[]"] obtain outs where
      "cat_loop (df_wire D) co checks src w s [] = Some (Done (s, map Ok outs))" "concat outs = items_bytes rng kids"
      by auto
    then show ?thesis using start bytes w(1) by (auto simp add: cat_def Let_def simp del: dag_entry.simps)
  qed
qed

end

section \<open>Adding a file stores its tree\<close>

text \<open>What adding relies on for the blocks \<open>S\<close> of a file: blocks are made of the CID and the bytes given, the swarm reports no failure to
  provide them, and a hash identifies a block of the file, among the others and in the repo.\<close>

definition storable ::
  "('cid, 'h, 'ce) cid_build \<Rightarrow> ('cid \<Rightarrow> (unit, string subscription_err) result option) \<Rightarrow> ('cid \<Rightarrow> bytes \<Rightarrow> ('cid block, 'be) result) \<Rightarrow>
   ('cid \<times> bytes) set \<Rightarrow> ('addr, 'lst, 'cid, 'query, 'h, 'w) repo \<Rightarrow> bool" where
  "storable cb provide block_new S rp \<longleftrightarrow>
     (\<forall>c b. (c, b) \<in> S \<longrightarrow> block_new c b = Ok (c, b) \<and> (\<forall>e. provide c \<noteq> Some (Err e)) \<and>
        (\<forall>x. rp_blocks rp (co_hash cb c) = Some x \<longrightarrow> snd (snd x) = b) \<and>
        (\<forall>c' b'. (c', b') \<in> S \<longrightarrow> co_hash cb c' = co_hash cb c \<longrightarrow> b' = b))"

definition holds_blocks ::
  "('cid, 'h, 'ce) cid_build \<Rightarrow> ('cid \<times> bytes) list \<Rightarrow> ('addr, 'lst, 'cid, 'query, 'h, 'w) repo \<Rightarrow> bool" where
  "holds_blocks cb bs rp \<longleftrightarrow> (\<forall>(c, b) \<in> set bs. \<exists>c'. get_block_now (cid_part cb) c rp = Some (c', b))"

lemma holds_blocks_simps [simp]:
  "holds_blocks cb [] rp" "holds_blocks cb (xs @ ys) rp \<longleftrightarrow> holds_blocks cb xs rp \<and> holds_blocks cb ys rp"
  by (simp_all add: holds_blocks_def ball_Un)

lemma put_storable:
  assumes "storable cb provide block_new S rp" "(c, b) \<in> S"
  obtains rp' r where "put_block (cid_part cb) provide (c, b) rp = (rp', Ok r)" "storable cb provide block_new S rp'"
    "holds_blocks cb [(c, b)] rp'" "\<And>bs. holds_blocks cb bs rp \<Longrightarrow> holds_blocks cb bs rp'"
proof (cases "rp_blocks rp (co_hash cb c)")
  case None
  obtain rp' r where put: "put_block (cid_part cb) provide (c, b) rp = (rp', r)" by fastforce
  note new = put_block_new [of rp "cid_part cb" "(c, b)", simplified, OF None put]
  show thesis
  proof (rule that)
    show "put_block (cid_part cb) provide (c, b) rp = (rp', Ok (c, NewBlock))"
      using assms put new(5) by (auto simp: storable_def split: option.splits result.splits)
    have "snd (snd x) = b'" if "(c', b') \<in> S" "rp_blocks rp' (co_hash cb c') = Some x" for c' b' x
    proof (cases "co_hash cb c' = co_hash cb c")
      case True
      then have "b' = b" using assms that(1) unfolding storable_def by blast
      then show ?thesis using that(2) True by (auto simp: new(1))
    next
      case False
      then have "rp_blocks rp (co_hash cb c') = Some x" using that(2) by (simp add: new(1))
      then show ?thesis using assms(1) that(1) unfolding storable_def by blast
    qed
    then show "storable cb provide block_new S rp'" using assms(1) unfolding storable_def by blast
    show "holds_blocks cb [(c, b)] rp'"
      by (simp add: holds_blocks_def get_block_now_def blocks_get_def new(1))
    show "holds_blocks cb bs rp'" if "holds_blocks cb bs rp" for bs
      using that None by (auto simp: holds_blocks_def get_block_now_def blocks_get_def new(1) split: prod.splits)
  qed
next
  case (Some x)
  have "snd (snd x) = b" using assms Some unfolding storable_def by blast
  then have "holds_blocks cb [(c, b)] rp"
    by (cases x) (auto simp: holds_blocks_def get_block_now_def blocks_get_def Some)
  then show thesis using put_block_existing [of rp "cid_part cb" "(c, b)" x provide] Some assms(1) that by simp
qed

lemma store_blocks_all:
  assumes "storable cb provide block_new S rp" "set bs \<subseteq> S"
  shows "\<exists>rp'. store_blocks (cid_part cb) provide block_new bs last_cid rp = (rp', Ok (if bs = [] then last_cid else Some (fst (last bs)))) \<and>
    storable cb provide block_new S rp' \<and> holds_blocks cb bs rp' \<and> (\<forall>xs. holds_blocks cb xs rp \<longrightarrow> holds_blocks cb xs rp')"
  using assms
proof (induction bs arbitrary: rp last_cid)
  case (Cons cb' bs)
  obtain c b where x: "cb' = (c, b)" by (cases cb')
  have b: "(c, b) \<in> S" "block_new c b = Ok (c, b)" using Cons(2,3) unfolding storable_def x by auto
  obtain rp1 r where put: "put_block (cid_part cb) provide (c, b) rp = (rp1, Ok r)" "storable cb provide block_new S rp1"
    "holds_blocks cb [(c, b)] rp1" "\<And>bs. holds_blocks cb bs rp \<Longrightarrow> holds_blocks cb bs rp1"
    using put_storable [OF Cons(2) b(1)] by blast
  from Cons(1) [OF put(2), of "Some c"] Cons(3) obtain rp2 where
    "store_blocks (cid_part cb) provide block_new bs (Some c) rp1 = (rp2, Ok (if bs = [] then Some c else Some (fst (last bs))))"
    "storable cb provide block_new S rp2" "holds_blocks cb bs rp2" "\<forall>xs. holds_blocks cb xs rp1 \<longrightarrow> holds_blocks cb xs rp2"
    by auto
  then show ?case
    using put b(2) holds_blocks_simps(2) [of cb "[(c, b)]" bs rp2] by (auto simp: x)
qed simp

text \<open>Whatever an adder has emitted belongs to every file that extends what it has taken.\<close>

lemma emitted_in_file:
  assumes D: "pb_wire_ok (df_wire D)" "dag_hashing cb D" and n: "2 \<le> n" and fa: "adding D n mx content fa emitted"
  shows "set emitted \<subseteq> set (dag_blocks D (file_dag n mx (content @ tail)))"
proof -
  have "adding D n mx (take (length content) (content @ tail)) fa emitted" using fa by simp
  from collect_loop_adding [OF D _ _ this, of 1 False] n obtain fa' bs where "adding D n mx (content @ tail) fa' (emitted @ bs)"
    by auto
  from finish_adding [OF D n this, of False] obtain bs' where
    "mset ((emitted @ bs) @ bs') = mset (dag_blocks D (file_dag n mx (content @ tail)))" by auto
  from mset_eq_setD [OF this] show ?thesis by auto
qed

lemma push_buffer_adding:
  assumes D: "pb_wire_ok (df_wire D)" "dag_hashing cb D" and n: "2 \<le> n"
    and total: "de_total (dag_entry D (file_dag n mx whole)) < 2 ^ 64" and S: "S = set (dag_blocks D (file_dag n mx whole))"
    and "whole = content @ drop pushed buffer @ tail" "adding D n mx content fa emitted"
    and "storable cb provide block_new S rp" "holds_blocks cb emitted rp"
  shows "\<exists>fa' bs rp'. push_buffer (df_wire D) cb checks provide block_new buffer pushed fa written rp =
      Some (Done (rp', fa', written + (length buffer - pushed), Ok ())) \<and>
    adding D n mx (content @ drop pushed buffer) fa' (emitted @ bs) \<and> storable cb provide block_new S rp' \<and> holds_blocks cb (emitted @ bs) rp'"
  using assms(6-9)
proof (induction "length buffer - pushed" arbitrary: content pushed fa emitted written rp rule: less_induct)
  case less
  show ?case
  proof (cases "pushed < length buffer")
    case False
    with less show ?thesis
      by (intro exI [of _ fa] exI [of _ "[]"] exI [of _ rp]) (subst push_buffer.simps, simp)
  next
    case True
    let ?in = "drop pushed buffer"
    have n0: "0 < n" and input: "?in \<noteq> []" using n True by auto
    have "checks \<longrightarrow> 2 \<le> n \<and> de_total (dag_entry D (file_dag n mx (content @ ?in @ tail))) < 2 ^ 64"
      using total n by (simp add: less(2) [symmetric])
    from push_adding [OF D n0 less(3) input this] obtain fa1 bs1 k where
      step: "push (df_wire D) cb checks ?in fa = Some (Done (fa1, bs1, k))" "0 < k" "k \<le> length ?in"
        "adding D n mx (content @ take k ?in) fa1 (emitted @ bs1)"
      by blast
    have taken: "take k ?in @ drop (pushed + k) buffer = ?in"
      using append_take_drop_id [of k ?in] by (simp add: add.commute)
    have whole: "whole = (content @ take k ?in) @ drop (pushed + k) buffer @ tail"
      using less(2) taken by (simp only: append_assoc) (metis append_assoc)
    then have "set (emitted @ bs1) \<subseteq> S" using emitted_in_file [OF D n step(4)] unfolding S by blast
    then have "set bs1 \<subseteq> S" by simp
    from store_blocks_all [OF less(4) this, of None] obtain rp1 where
      st: "store_blocks (cid_part cb) provide block_new bs1 None rp = (rp1, Ok (if bs1 = [] then None else Some (fst (last bs1))))"
        "storable cb provide block_new S rp1" "holds_blocks cb (emitted @ bs1) rp1"
      using less(5) by auto
    have run: "push_buffer (df_wire D) cb checks provide block_new buffer pushed fa written rp =
        push_buffer (df_wire D) cb checks provide block_new buffer (pushed + k) fa1 (written + k) rp1"
      using True step(1) st(1) by (subst push_buffer.simps) simp
    have "length buffer - (pushed + k) < length buffer - pushed" using True step(2) by simp
    from less(1) [OF this whole step(4) st(2,3), of "written + k"] obtain fa2 bs2 rp2 where
      fin: "push_buffer (df_wire D) cb checks provide block_new buffer (pushed + k) fa1 (written + k) rp1 =
        Some (Done (rp2, fa2, written + k + (length buffer - (pushed + k)), Ok ()))"
        "adding D n mx ((content @ take k ?in) @ drop (pushed + k) buffer) fa2 ((emitted @ bs1) @ bs2)"
        "storable cb provide block_new S rp2" "holds_blocks cb ((emitted @ bs1) @ bs2) rp2"
      by blast
    have rest: "(content @ take k ?in) @ drop (pushed + k) buffer = content @ ?in"
      using taken by simp
    have count: "written + k + (length buffer - (pushed + k)) = written + (length buffer - pushed)" using step(3) by simp
    from fin show ?thesis
      unfolding run rest count by (intro exI [of _ fa2] exI [of _ "bs1 @ bs2"] exI [of _ rp2]) simp
  qed
qed

text \<open>The progress reports, one after every buffer.\<close>

fun progress :: "nat \<Rightarrow> nat option \<Rightarrow> bytes list \<Rightarrow> ('cid, 'peer, 'be) unixfs_status list" where
  "progress written size_hint [] = []"
| "progress written size_hint (buffer # stream) =
     ProgressStatus (written + length buffer) size_hint # progress (written + length buffer) size_hint stream"

lemma push_stream_adding:
  assumes D: "pb_wire_ok (df_wire D)" "dag_hashing cb D" and n: "2 \<le> n"
    and total: "de_total (dag_entry D (file_dag n mx whole)) < 2 ^ 64" and S: "S = set (dag_blocks D (file_dag n mx whole))"
    and "whole = content @ concat stream" "adding D n mx content fa emitted"
    and "storable cb provide block_new S rp" "holds_blocks cb emitted rp"
  shows "\<exists>fa' bs rp'. push_stream (df_wire D) cb checks provide block_new size_hint stream fa written rp out =
      Some (Done (rp', fa', written + length (concat stream), out @ progress written size_hint stream, True)) \<and>
    adding D n mx whole fa' (emitted @ bs) \<and> storable cb provide block_new S rp' \<and> holds_blocks cb (emitted @ bs) rp'"
  using assms(6-9)
proof (induction stream arbitrary: content fa emitted written rp out)
  case Nil
  then show ?case by (intro exI [of _ fa] exI [of _ "[]"] exI [of _ rp]) simp
next
  case (Cons buffer stream)
  have whole: "whole = content @ drop 0 buffer @ concat stream" "whole = (content @ buffer) @ concat stream"
    using Cons(2) by simp_all
  from push_buffer_adding [OF D n total S whole(1) Cons(3-5), of checks written] obtain fa1 bs1 rp1 where
    one: "push_buffer (df_wire D) cb checks provide block_new buffer 0 fa written rp = Some (Done (rp1, fa1, written + length buffer, Ok ()))"
      "adding D n mx (content @ buffer) fa1 (emitted @ bs1)" "storable cb provide block_new S rp1" "holds_blocks cb (emitted @ bs1) rp1"
    by auto
  from Cons(1) [OF whole(2) one(2-4), of "written + length buffer" "out @ [ProgressStatus (written + length buffer) size_hint]"]
  obtain fa2 bs2 rp2 where
    "push_stream (df_wire D) cb checks provide block_new size_hint stream fa1 (written + length buffer) rp1
        (out @ [ProgressStatus (written + length buffer) size_hint]) =
      Some (Done (rp2, fa2, written + length buffer + length (concat stream),
        (out @ [ProgressStatus (written + length buffer) size_hint]) @ progress (written + length buffer) size_hint stream, True))"
    "adding D n mx whole fa2 ((emitted @ bs1) @ bs2)" "storable cb provide block_new S rp2" "holds_blocks cb ((emitted @ bs1) @ bs2) rp2"
    by blast
  then show ?case using one(1)
    by (intro exI [of _ fa2] exI [of _ "bs1 @ bs2"] exI [of _ rp2]) (simp add: add.assoc)
qed

text \<open>The tree of an added file.\<close>

definition chunk_size :: "add_option option \<Rightarrow> nat" where
  "chunk_size opt = (case Option.bind opt ao_chunk of Some (Size mx) \<Rightarrow> mx | None \<Rightarrow> (case chunker_default of Size mx \<Rightarrow> mx))"

definition leaf_version :: "add_option option \<Rightarrow> version" where
  "leaf_version opt = (case opt of None \<Rightarrow> DEFAULT_CID_VERSION | Some opts \<Rightarrow> ao_cid_version opts)"

definition added_dag :: "add_option option \<Rightarrow> bytes \<Rightarrow> dag" where
  "added_dag opt content = file_dag (branching_factor balanced_collector_default) (chunk_size opt) content"

definition addable ::
  "('cid, 'h, 'ce) cid_build \<Rightarrow> ('e, 'cid) dag_format \<Rightarrow> ('cid \<Rightarrow> (unit, string subscription_err) result option) \<Rightarrow>
   ('cid \<Rightarrow> bytes \<Rightarrow> ('cid block, 'be) result) \<Rightarrow> bytes \<Rightarrow> add_option option \<Rightarrow> ('addr, 'lst, 'cid, 'query, 'h, 'w) repo \<Rightarrow> bool" where
  "addable cb D provide block_new content opt rp \<longleftrightarrow>
     pb_wire_ok (df_wire D) \<and> dag_hashing cb D \<and> df_leaf D = leaf_version opt \<and> df_node D = DEFAULT_CID_VERSION \<and> 0 < chunk_size opt \<and>
     de_total (dag_entry D (added_dag opt content)) < 2 ^ 64 \<and>
     storable cb provide block_new (set (dag_blocks D (added_dag opt content))) rp"

lemma adding_adder_for:
  fixes D :: "('e, 'cid) dag_format"
  assumes "df_leaf D = leaf_version opt" "df_node D = DEFAULT_CID_VERSION" "0 < chunk_size opt"
  shows "adding D (branching_factor balanced_collector_default) (chunk_size opt) [] (adder_for opt) []"
proof -
  have "(adder_for opt :: 'cid file_adder) = \<lparr>fa_chunker = Size (chunk_size opt),
      fa_collector = Balanced \<lparr>branching_factor = branching_factor balanced_collector_default, bc_cid_version = df_node D\<rparr>,
      block_buffer = [], unflushed_links = [], fa_cid_version = df_leaf D\<rparr>"
    using assms(1,2)
    by (auto simp: adder_for_def build_def with_chunker_def adder_builder_default_def file_adder_default_def leaf_version_def
        chunk_size_def balanced_collector_default_def chunker_default_def Let_def split: option.splits chunker.splits)
  then show ?thesis using adding_start [OF assms(3)] by simp
qed

lemma add_stores_tree:
  fixes D :: "('e, 'cid) dag_format" and block_new :: "'cid \<Rightarrow> bytes \<Rightarrow> ('cid block, 'be) result"
  assumes "addable cb D provide block_new (concat stream) opt rp" "\<forall>opts. opt = Some opts \<longrightarrow> \<not> ao_pin opts"
  shows "\<exists>rp'. add (df_wire D) cb checks io dc src provide block_new size_hint stream opt rp =
      Some (Done (rp', (ProgressStatus 0 size_hint :: ('cid, 'peer, 'be) unixfs_status) # progress 0 size_hint stream @
        [if length (concat stream) = chunk_size opt then FailedStatus (length (concat stream)) size_hint None
         else CompletedStatus (path_new (Ipld (de_cid (dag_entry D (added_dag opt (concat stream)))))) (length (concat stream)) size_hint])) \<and>
    tree_stored D (\<lambda>c. get_block_now (cid_part cb) c rp') (added_dag opt (concat stream))"
proof -
  let ?n = "branching_factor balanced_collector_default" and ?mx = "chunk_size opt" and ?whole = "concat stream"
  let ?root = "added_dag opt ?whole"
  let ?S = "set (dag_blocks D ?root)"
  have n: "2 \<le> ?n" by (simp add: balanced_collector_default_def)
  have D: "pb_wire_ok (df_wire D)" "dag_hashing cb D" and v: "df_leaf D = leaf_version opt" "df_node D = DEFAULT_CID_VERSION" "0 < ?mx"
    and total: "de_total (dag_entry D (file_dag ?n ?mx ?whole)) < 2 ^ 64" and st: "storable cb provide block_new ?S rp"
    using assms(1) by (simp_all add: addable_def added_dag_def)
  have S: "?S = set (dag_blocks D (file_dag ?n ?mx ?whole))" by (simp add: added_dag_def)
  from push_stream_adding [OF D n total S _ adding_adder_for [OF v] st, of stream checks size_hint 0 "[ProgressStatus 0 size_hint :: ('cid, 'peer, 'be) unixfs_status]"]
  obtain fa bs rp1 where
    pushed: "push_stream (df_wire D) cb checks provide block_new size_hint stream (adder_for opt) 0 rp [ProgressStatus 0 size_hint :: ('cid, 'peer, 'be) unixfs_status] =
      Some (Done (rp1, fa, length ?whole, [ProgressStatus 0 size_hint] @ progress 0 size_hint stream, True))" and
    fa: "adding D ?n ?mx ?whole fa bs" and rp1: "storable cb provide block_new ?S rp1" "holds_blocks cb bs rp1"
    by auto
  from finish_adding [OF D n fa, of checks] total obtain fin where
    fin: "finish (df_wire D) cb checks fa = Some (Done fin)" "mset (bs @ fin) = mset (dag_blocks D ?root)"
      "if length ?whole = ?mx then fin = [] else fin \<noteq> [] \<and> last fin = block_of D ?root"
    unfolding added_dag_def by (auto split: if_splits)
  note all = mset_eq_setD [OF fin(2)]
  then have "set fin \<subseteq> ?S" by auto
  from store_blocks_all [OF rp1(1) this, of None] obtain rp2 where
    put: "store_blocks (cid_part cb) provide block_new fin None rp1 = (rp2, Ok (if fin = [] then None else Some (fst (last fin))))" and
    "holds_blocks cb (bs @ fin) rp2"
    using rp1(2) by auto
  then have "tree_stored D (\<lambda>c. get_block_now (cid_part cb) c rp2) ?root"
    unfolding tree_stored_def holds_blocks_def all by simp
  moreover have "pin_added io (cid_part cb) dc src checks opt cid rp2 = Some (Done rp2)" for cid
    using assms(2) by (auto simp: pin_added_def split: option.split)
  ultimately show ?thesis
    using pushed fin(1,3) put by (intro exI [of _ rp2]) (auto simp: add_def block_of_def split: if_splits)
qed

section \<open>A file that was added is read back\<close>

text \<open>
  C6: A file given to \<open>add\<close> in any buffers, not to be pinned and not of exactly the length of one chunk, is added completely: progress is
  reported after every buffer, and the last report is the path of the root of the balanced tree of the file.  \<open>cat\<close> from the stored root
  then returns without an error or a panic, whatever the network does, and what it streams is the content of the file, or the part of it
  that lies in the range asked for.
\<close>

theorem added_file_read_back:
  fixes D :: "('e, 'cid) dag_format" and block_new :: "'cid \<Rightarrow> bytes \<Rightarrow> ('cid block, 'be) result"
  assumes "addable cb D provide block_new (concat stream) opt rp" "\<forall>opts. opt = Some opts \<longrightarrow> \<not> ao_pin opts"
    and "readable cb D (added_dag opt (concat stream))" "length (concat stream) \<noteq> chunk_size opt"
  shows "\<exists>rp' cid block. add (df_wire D) cb checks io dc src provide block_new size_hint stream opt rp =
      Some (Done (rp', (ProgressStatus 0 size_hint :: ('cid, 'peer, 'be) unixfs_status) # progress 0 size_hint stream @
        [CompletedStatus (path_new (Ipld cid)) (length (concat stream)) size_hint])) \<and>
    cid = de_cid (dag_entry D (added_dag opt (concat stream))) \<and> get_block_now (cid_part cb) cid rp' = Some block \<and>
    (\<forall>network rng checks'. \<exists>outs. cat (df_wire D) cb checks' (repo_source (cid_part cb) network) block rng rp' =
        Some (Done (rp', Ok (map Ok outs))) \<and> concat outs = clip rng 0 (concat stream))"
proof -
  let ?root = "added_dag opt (concat stream)"
  have ok: "pb_wire_ok (df_wire D)" "0 < chunk_size opt" "de_total (dag_entry D ?root) < 2 ^ 64"
    using assms(1) by (simp_all add: addable_def)
  have bytes: "dag_bytes ?root = concat stream"
    using dag_bytes_file_dag ok(2) by (simp add: added_dag_def balanced_collector_default_def)
  then have "length (dag_bytes ?root) < 2 ^ 64"
    using de_size_le_total [OF ok(1), of ?root] ok(3) by (simp add: de_size_dag_bytes)
  then have cat: "tree_stored D (\<lambda>c. get_block_now (cid_part cb) c rp') ?root \<Longrightarrow>
      \<exists>outs. cat (df_wire D) cb checks' (repo_source (cid_part cb) network) (c, de_block (dag_entry D ?root)) rng rp' =
        Some (Done (rp', Ok (map Ok outs))) \<and> concat outs = clip rng 0 (concat stream)" for rp' c network rng checks'
    using repo_blocks.cat_tree [OF ok(1) assms(3)] bytes by simp
  from add_stores_tree [OF assms(1,2)] obtain rp' where
    "add (df_wire D) cb checks io dc src provide block_new size_hint stream opt rp =
      Some (Done (rp', (ProgressStatus 0 size_hint :: ('cid, 'peer, 'be) unixfs_status) # progress 0 size_hint stream @
        [CompletedStatus (path_new (Ipld (de_cid (dag_entry D ?root)))) (length (concat stream)) size_hint]))"
    and stored: "tree_stored D (\<lambda>c. get_block_now (cid_part cb) c rp') ?root"
    unfolding if_not_P [OF assms(4)] by blast
  moreover obtain c where "get_block_now (cid_part cb) (de_cid (dag_entry D ?root)) rp' = Some (c, de_block (dag_entry D ?root))"
    using tree_stored_root [OF stored] by blast
  ultimately show ?thesis using cat [OF stored] by blast
qed

text \<open>
  A file of exactly one chunk is stored completely too, but its only block was emitted by \<open>push\<close> and \<open>finish\<close> has nothing to add: the loop over
  the last blocks never sets the CID, and \<open>add\<close> reports a failure without an error.
\<close>

theorem one_chunk_file_reported_failed:
  assumes "addable cb D provide block_new (concat stream) opt rp" "\<forall>opts. opt = Some opts \<longrightarrow> \<not> ao_pin opts"
    and "length (concat stream) = chunk_size opt"
  shows "\<exists>rp'. add (df_wire D) cb checks io dc src provide block_new size_hint stream opt rp =
      Some (Done (rp', ProgressStatus 0 size_hint # progress 0 size_hint stream @
        [FailedStatus (length (concat stream)) size_hint None])) \<and>
    tree_stored D (\<lambda>c. get_block_now (cid_part cb) c rp') (added_dag opt (concat stream))"
  by (rule add_stores_tree [OF assms(1,2), unfolded if_P [OF assms(3)]])

section \<open>Witnesses\<close>

definition example_option :: add_option where
  "example_option = (default_with_cid_version V1)\<lparr>ao_chunk := Some (Size 2)\<rparr>"

lemma example_added: "added_dag (Some example_option) [1, 2, 3] = Node [Leaf [1, 2], Leaf [3]]"
  by (simp add: added_dag_def chunk_size_def example_option_def balanced_collector_default_def file_dag_def file_leaves_def
      chunks_of.simps balanced.simps)

lemma example_block_cid: "(c, b) \<in> set (dag_blocks (example_format v) t) \<Longrightarrow> snd c = b"
proof (induction t)
  case (Leaf x)
  then show ?case by (auto simp: block_of_def Let_def example_format_def)
next
  case (Node ts)
  then show ?case by (auto simp: block_of_def Let_def example_format_def)
qed

lemma example_block_length:
  assumes "(c, b) \<in> set (dag_blocks (example_format v) (Node [Leaf [1, 2], Leaf [3]]))"
  shows "length b < 100"
  using assms example_leaf_entry [of "[1, 2]" v] example_leaf_entry [of "[3]" v] example_node_size [of v]
    example_leaf_size [of "[1, 2]"] example_leaf_size [of "[3]"]
  by (auto simp: block_of_def dag_entry.simps(2) Let_def simp del: dag_entry.simps(1))

lemma example_readable: "readable example_cids (example_format v) (Node [Leaf [1, 2], Leaf [3]])"
  using example_block_length [of _ _ v]
  by (fastforce simp: readable_def len_limit_def example_format_def example_cids_def split: version.split simp del: dag_blocks.simps)

type_synonym example_repo = "(unit, unit, version \<times> bytes, unit, bytes, unit) repo"

definition example_repo_new :: example_repo where
  "example_repo_new = repo_new 0"

definition example_block_new :: "version \<times> bytes \<Rightarrow> bytes \<Rightarrow> ((version \<times> bytes) block, unit) result" where
  "example_block_new c b = Ok (c, b)"

text \<open>Documents without links.\<close>

definition example_ipld :: "(bytes, version \<times> bytes, unit) ipld_ops" where
  "example_ipld = \<lparr>io_view = (\<lambda>_. V_Other), io_iter = (\<lambda>_. []), io_decode = (\<lambda>b. Ok (snd b)), io_dag_pb = (\<lambda>_. False)\<rparr>"

definition example_source :: "(version \<times> bytes, example_repo) block_source" where
  "example_source = repo_source (cid_part example_cids) (\<lambda>_ _. None)"

lemma example_addable:
  "addable example_cids (example_format V1) (\<lambda>_. None) example_block_new [1, 2, 3] (Some example_option) example_repo_new"
  unfolding addable_def example_added storable_def
  using protobuf_ok example_hashing [of V1] example_total [of V1] example_block_cid
  by (auto simp: example_tree leaf_version_def chunk_size_def example_option_def default_with_cid_version_def repo_new_def example_repo_new_def
      example_block_new_def example_cids_def simp del: dag_blocks.simps dag_entry.simps)

theorem added_file_read_back_witness:
  "\<exists>rp' cid block. add protobuf example_cids True example_ipld sample_doc_codec example_source (\<lambda>_. None) example_block_new None
      [[1], [2, 3]] (Some example_option) example_repo_new =
      Some (Done (rp', [ProgressStatus 0 None :: (_, unit, _) unixfs_status, ProgressStatus 1 None, ProgressStatus 3 None,
        CompletedStatus (path_new (Ipld cid)) 3 None])) \<and>
    get_block_now (cid_part example_cids) cid rp' = Some block \<and>
    (\<exists>outs. cat protobuf example_cids True example_source block (Some (1, 3)) rp' = Some (Done (rp', Ok (map Ok outs))) \<and>
      concat outs = [2, 3])"
proof -
  let ?stream = "[[1], [2, 3]] :: bytes list"
  have len: "length (concat ?stream) \<noteq> chunk_size (Some example_option)" by (simp add: chunk_size_def example_option_def)
  have unpinned: "\<forall>opts. Some example_option = Some opts \<longrightarrow> \<not> ao_pin opts"
    by (simp add: example_option_def default_with_cid_version_def add_option_default_def)
  have add: "addable example_cids (example_format V1) (\<lambda>_. None) example_block_new (concat ?stream) (Some example_option) example_repo_new"
    using example_addable by simp
  have read: "readable example_cids (example_format V1) (added_dag (Some example_option) (concat ?stream))"
    using example_readable [of V1] example_added by simp
  from added_file_read_back [OF add unpinned read len, where checks = True and io = example_ipld and dc = sample_doc_codec
      and src = example_source and size_hint = None and ?'peer = unit]
  obtain rp' cid block where
    "add protobuf example_cids True example_ipld sample_doc_codec example_source (\<lambda>_. None) example_block_new None
      ?stream (Some example_option) example_repo_new =
      Some (Done (rp', (ProgressStatus 0 None :: (_, unit, _) unixfs_status) # progress 0 None ?stream @
        [CompletedStatus (path_new (Ipld cid)) (length (concat ?stream)) None]))"
    "get_block_now (cid_part example_cids) cid rp' = Some block"
    "\<And>network rng checks'. \<exists>outs. cat protobuf example_cids checks' (repo_source (cid_part example_cids) network) block rng rp' =
        Some (Done (rp', Ok (map Ok outs))) \<and> concat outs = clip rng 0 (concat ?stream)"
    unfolding example_format_simps by blast
  note run = this
  show ?thesis
    using run(1,2) run(3) [of True "\<lambda>_ _. None" "Some (1, 3)"]
    by (intro exI [of _ rp'] exI [of _ cid] exI [of _ block]) (simp add: example_source_def clip_def)
qed

end
