(* ===== verification/Spec2Isabelle.thy ===== *)
theory Spec2Isabelle
  imports Storage_Layer Storage_Lock Randomness_Flip Knowledge Small_Pallets Unixfs_File
begin

text \<open>
  A verification development for \<open>substrate-ipfs\<close>, a Substrate node with an embedded IPFS node
  and the pallets that drive it.
\<close>

end
